(* ===== verification/Ruyi_Prelude.thy ===== *)
theory Ruyi_Prelude
  imports Main "HOL-Library.Word"
begin

text \<open>
  Shared vocabulary of the development.

  \<^item> The machine types of the Rust sources. Bytes and fixed-width integers are words; a
    \<open>usize\<close> that counts bytes or indexes a buffer is a \<open>nat\<close>, and the places where the width
    of \<open>usize\<close> matters say so with \<open>usize_max\<close> or use a \<open>64 word\<close>.
  \<^item> \<open>outcome\<close>: what a Rust operation can do. \<open>Ok\<close> and \<open>Err\<close> are the constructors of
    \<open>Result\<close>; \<open>Panic\<close> is a panic, which includes the call of \<open>unreachable()\<close> of
    \<open>lib.rs\<close> (a panic in a debug build, undefined behaviour in a release build).
  \<^item> Generic lemmas on lists and on raw memory, a list of cells that are initialised
    (\<open>Some\<close> byte) or not (\<open>None\<close>).
\<close>

unbundle bit_operations_syntax

section \<open>Machine types and outcomes\<close>

type_synonym u8 = "8 word"
type_synonym u16 = "16 word"
type_synonym u32 = "32 word"
type_synonym u64 = "64 word"

text \<open>The largest \<open>usize\<close> of a 64-bit target.\<close>

definition usize_max :: nat where
  "usize_max = 2 ^ 64 - 1"

datatype ('a, 'e) outcome = Ok 'a | Err 'e | Panic

primrec map_outcome :: "('a \<Rightarrow> 'b) \<Rightarrow> ('a, 'e) outcome \<Rightarrow> ('b, 'e) outcome" where
  "map_outcome f (Ok a) = Ok (f a)"
| "map_outcome f (Err e) = Err e"
| "map_outcome f Panic = Panic"

text \<open>What the poll of a future or of a stream returns: \<open>Poll\<close> of the \<open>futures\<close> crate.\<close>

datatype ('a, 'e) poll = Ready 'a | NotReady | Failed 'e

text \<open>Facts about the bytes a structure holds, and facts that an operation keeps the
  structure well formed; the component theories add to both.\<close>

named_theorems content_simps "what an operation does to the bytes held"
named_theorems wf_intros "an operation keeps its structure well formed"

section \<open>Lists\<close>

lemma take_nth_drop: "i < length xs \<Longrightarrow> take i xs @ xs ! i # drop (Suc i) xs = xs"
  by (simp add: id_take_nth_drop [symmetric])

lemma drop_eq_nth_Cons: "i < length xs \<Longrightarrow> drop i xs = xs ! i # drop (Suc i) xs"
  by (simp add: Cons_nth_drop_Suc)

lemma drop_list_update_same: "i < length xs \<Longrightarrow> drop i (xs[i := x]) = x # drop (Suc i) xs"
  by (simp add: drop_eq_nth_Cons)

lemma length_concat_map: "length (concat (map f xs)) = (\<Sum>x\<leftarrow>xs. length (f x))"
  by (simp add: length_concat o_def)

lemma list_all_set_drop: "\<forall>x\<in>set xs. P x \<Longrightarrow> \<forall>x\<in>set (drop n xs). P x"
  by (meson in_set_dropD)

lemma set_update_ball:
  "\<forall>x\<in>set xs. P x \<Longrightarrow> P y \<Longrightarrow> \<forall>x\<in>set (xs[i := y]). P x"
  using set_update_subset_insert [of xs i y] by blast

lemma fold_add_eq_sum_list: "fold (\<lambda>x n. n + f x) xs (a::nat) = a + (\<Sum>x\<leftarrow>xs. f x)"
  by (induction xs arbitrary: a) simp_all

lemma map_the_Some [simp]: "map (the \<circ> Some) xs = xs"
  by (simp add: o_def)

section \<open>Raw memory\<close>

text \<open>
  A region of memory is a list of cells. \<open>mem_bytes m off n\<close> is the slice
  \<open>slice::from_raw_parts(ptr.offset(off), n)\<close>, and \<open>mem_write m off bs\<close> is
  \<open>ptr::copy_nonoverlapping\<close> of the bytes \<open>bs\<close> to \<open>ptr.offset(off)\<close>. A write past the end
  makes the region longer, so "the region keeps its length" says that no write is out of
  bounds; \<open>mem_init\<close> says that a slice holds initialised cells only and lies in the region.
\<close>

type_synonym memory = "u8 option list"

definition mem_bytes :: "memory \<Rightarrow> nat \<Rightarrow> nat \<Rightarrow> u8 list" where
  "mem_bytes m off n = map the (take n (drop off m))"

definition mem_write :: "memory \<Rightarrow> nat \<Rightarrow> u8 list \<Rightarrow> memory" where
  "mem_write m off bs = take off m @ map Some bs @ drop (off + length bs) m"

definition mem_init :: "memory \<Rightarrow> nat \<Rightarrow> nat \<Rightarrow> bool" where
  "mem_init m off n \<longleftrightarrow> off + n \<le> length m \<and> (\<forall>c\<in>set (take n (drop off m)). c \<noteq> None)"

lemma length_mem_write [simp]:
  "off + length bs \<le> length m \<Longrightarrow> length (mem_write m off bs) = length m"
  by (simp add: mem_write_def)

lemma length_mem_bytes [simp]: "mem_init m off n \<Longrightarrow> length (mem_bytes m off n) = n"
  by (auto simp: mem_bytes_def mem_init_def)

lemma mem_bytes_0 [simp]: "mem_bytes m off 0 = []"
  by (simp add: mem_bytes_def)

lemma mem_init_0 [simp]: "mem_init m off 0 \<longleftrightarrow> off \<le> length m"
  by (simp add: mem_init_def)

lemma mem_bytes_write_same [simp]:
  "off \<le> length m \<Longrightarrow> mem_bytes (mem_write m off bs) off (length bs) = bs"
  by (simp add: mem_bytes_def mem_write_def)

lemma mem_bytes_add: "mem_bytes m off (n + k) = mem_bytes m off n @ mem_bytes m (off + n) k"
  by (simp add: mem_bytes_def take_add add.commute [of off n])

lemma mem_init_add:
  "mem_init m off (n + k) \<longleftrightarrow> mem_init m off n \<and> mem_init m (off + n) k"
proof -
  have "set (take (n + k) (drop off m)) =
      set (take n (drop off m)) \<union> set (take k (drop (off + n) m))"
    by (simp add: take_add add.commute [of off n])
  then show ?thesis by (auto simp: mem_init_def)
qed

lemma mem_init_write_same:
  "off + length bs \<le> length m \<Longrightarrow> mem_init (mem_write m off bs) off (length bs)"
  by (auto simp: mem_init_def mem_write_def)

lemma mem_write_above:
  assumes "off + n \<le> at" and "at \<le> length m"
  shows "mem_bytes (mem_write m at bs) off n = mem_bytes m off n"
    and "mem_init (mem_write m at bs) off n = mem_init m off n"
proof -
  have *: "take n (drop off (mem_write m at bs)) = take n (drop off m)"
    using assms by (simp add: mem_write_def drop_take)
  show "mem_bytes (mem_write m at bs) off n = mem_bytes m off n"
    by (simp add: mem_bytes_def *)
  show "mem_init (mem_write m at bs) off n = mem_init m off n"
    using assms unfolding mem_init_def * by (simp add: mem_write_def)
qed

lemma mem_write_below:
  assumes "at + length bs \<le> off" and "at + length bs \<le> length m"
  shows "mem_bytes (mem_write m at bs) off n = mem_bytes m off n"
    and "mem_init (mem_write m at bs) off n = mem_init m off n"
proof -
  have *: "drop off (mem_write m at bs) = drop off m"
    using assms by (simp add: mem_write_def)
  show "mem_bytes (mem_write m at bs) off n = mem_bytes m off n"
    by (simp add: mem_bytes_def *)
  show "mem_init (mem_write m at bs) off n = mem_init m off n"
    using assms by (simp add: mem_init_def * )
qed

lemma mem_init_sub: "mem_init m off n \<Longrightarrow> k \<le> n \<Longrightarrow> mem_init m off k"
  using mem_init_add [of m off k "n - k"] by simp

lemma mem_bytes_take: "k \<le> n \<Longrightarrow> mem_bytes m off k = take k (mem_bytes m off n)"
  by (simp add: mem_bytes_def take_map min_def)

lemma mem_bytes_drop: "mem_bytes m (off + k) (n - k) = drop k (mem_bytes m off n)"
  by (simp add: mem_bytes_def drop_map drop_take add.commute [of off k])

end
