(* ===== verification/Block.thy ===== *)
theory Block
  imports Ruyi_Prelude
begin

text \<open>
  \<open>src/buf/block.rs\<close>: one contiguous region of memory with a read and a write position.

  The struct's \<open>ptr\<close> and \<open>shared\<close> fields are replaced by the region they denote: \<open>mem\<close> is
  the cells from \<open>ptr\<close> up to \<open>ptr + cap\<close>. Blocks that share one allocation
  (\<open>split_off\<close>) have disjoint regions, so a region is a value of its own.
  The debug assertions of the setters are not branches of the model: the invariant
  \<open>block_wf\<close>, which every operation of the crate keeps, implies each of them.
\<close>

section \<open>State and operations\<close>

record block =
  mem :: memory
  cap :: nat
  read_pos :: nat
  write_pos :: nat

definition block_from :: "u8 list \<Rightarrow> nat \<Rightarrow> block" where
  \<comment> \<open>\<open>From<Vec<u8>>\<close>: the vector's bytes and its capacity\<close>
  "block_from bytes capacity =
     \<lparr>mem = map Some bytes @ replicate (capacity - length bytes) None, cap = capacity,
      read_pos = 0, write_pos = length bytes\<rparr>"

definition block_with_capacity :: "nat \<Rightarrow> block" where
  "block_with_capacity capacity =
     \<lparr>mem = replicate capacity None, cap = capacity, read_pos = 0, write_pos = 0\<rparr>"

definition block_for_prependable :: "nat \<Rightarrow> block" where
  "block_for_prependable capacity =
     \<lparr>mem = replicate capacity None, cap = capacity, read_pos = capacity, write_pos = capacity\<rparr>"

definition block_is_empty :: "block \<Rightarrow> bool" where
  "block_is_empty b \<longleftrightarrow> read_pos b = write_pos b"

definition block_set_capacity :: "nat \<Rightarrow> block \<Rightarrow> block" where
  "block_set_capacity capacity b = b\<lparr>mem := take capacity (mem b), cap := capacity\<rparr>"

definition block_set_read_pos :: "nat \<Rightarrow> block \<Rightarrow> block" where
  "block_set_read_pos p b = b\<lparr>read_pos := p\<rparr>"

definition block_set_write_pos :: "nat \<Rightarrow> block \<Rightarrow> block" where
  "block_set_write_pos p b = b\<lparr>write_pos := p\<rparr>"

definition block_len :: "block \<Rightarrow> nat" where
  "block_len b = write_pos b - read_pos b"

definition appendable :: "block \<Rightarrow> nat" where
  "appendable b = cap b - write_pos b"

definition prependable :: "block \<Rightarrow> nat" where
  "prependable b = read_pos b"

definition as_bytes_range :: "nat \<Rightarrow> nat \<Rightarrow> block \<Rightarrow> u8 list" where
  "as_bytes_range from len b = mem_bytes (mem b) from len"

definition as_bytes :: "block \<Rightarrow> u8 list" where
  "as_bytes b = mem_bytes (mem b) (read_pos b) (block_len b)"

definition as_bytes_from :: "nat \<Rightarrow> block \<Rightarrow> u8 list" where
  "as_bytes_from from b =
     (let i = read_pos b + from; len = write_pos b - i in mem_bytes (mem b) i len)"

definition as_bytes_to :: "nat \<Rightarrow> block \<Rightarrow> u8 list" where
  "as_bytes_to to b = mem_bytes (mem b) (read_pos b) to"

text \<open>\<open>ptr::copy_nonoverlapping(src, block.as_mut_ptr().offset(off), src.len())\<close>\<close>

definition block_write :: "nat \<Rightarrow> u8 list \<Rightarrow> block \<Rightarrow> block" where
  "block_write off bs b = b\<lparr>mem := mem_write (mem b) off bs\<rparr>"

text \<open>\<open>split_off\<close>: the first component is the returned block, the second is \<open>self\<close>.\<close>

definition block_split_off :: "nat \<Rightarrow> block \<Rightarrow> block \<times> block" where
  "block_split_off at b =
     (let off = read_pos b + at;
          other_mem = drop off (mem b);
          other_write_pos = write_pos b - off;
          b1 = block_set_write_pos off b;
          other_cap = cap b1 - off;
          b2 = block_set_capacity off b1
      in (\<lparr>mem = other_mem, cap = other_cap, read_pos = 0, write_pos = other_write_pos\<rparr>, b2))"

definition block_starts_with :: "u8 list \<Rightarrow> block \<Rightarrow> bool" where
  "block_starts_with needle b \<longleftrightarrow>
     length needle \<le> length (as_bytes b) \<and> take (length needle) (as_bytes b) = needle"

definition block_ends_with :: "u8 list \<Rightarrow> block \<Rightarrow> bool" where
  "block_ends_with needle b \<longleftrightarrow>
     length needle \<le> length (as_bytes b) \<and>
     drop (length (as_bytes b) - length needle) (as_bytes b) = needle"

lemmas block_defs = block_from_def block_with_capacity_def block_for_prependable_def
  block_is_empty_def block_set_capacity_def block_set_read_pos_def block_set_write_pos_def
  block_len_def appendable_def prependable_def

section \<open>The block invariant\<close>

text \<open>
  The positions are ordered and within the capacity, the region is as long as the capacity
  says, and every byte between the positions is initialised.
\<close>

definition block_wf :: "block \<Rightarrow> bool" where
  "block_wf b \<longleftrightarrow> read_pos b \<le> write_pos b \<and> write_pos b \<le> cap b \<and> length (mem b) = cap b \<and>
     mem_init (mem b) (read_pos b) (write_pos b - read_pos b)"

lemma block_wf_pos:
  "block_wf b \<Longrightarrow> read_pos b \<le> write_pos b"
  "block_wf b \<Longrightarrow> write_pos b \<le> cap b"
  "block_wf b \<Longrightarrow> length (mem b) = cap b"
  by (simp_all add: block_wf_def)

lemma block_wf_init: "block_wf b \<Longrightarrow> mem_init (mem b) (read_pos b) (block_len b)"
  by (simp add: block_wf_def block_len_def)

lemma length_as_bytes [simp]: "block_wf b \<Longrightarrow> length (as_bytes b) = block_len b"
  by (simp add: as_bytes_def block_wf_def block_len_def)

lemma as_bytes_Nil_iff: "block_wf b \<Longrightarrow> as_bytes b = [] \<longleftrightarrow> block_is_empty b"
  by (metis block_is_empty_def block_len_def block_wf_pos(1) diff_is_0_eq le_antisym
      length_0_conv length_as_bytes order_refl)

lemma block_len_0_iff: "block_wf b \<Longrightarrow> block_len b = 0 \<longleftrightarrow> block_is_empty b"
  by (auto simp: block_len_def block_is_empty_def block_wf_def)

lemma empty_as_bytes [simp]: "block_is_empty b \<Longrightarrow> as_bytes b = []"
  by (simp add: as_bytes_def block_is_empty_def block_len_def)

lemma block_from_wf [wf_intros]: "length bytes \<le> c \<Longrightarrow> block_wf (block_from bytes c)"
  by (auto simp: block_wf_def block_from_def mem_init_def)

lemma block_from_bytes [content_simps]: "as_bytes (block_from bytes c) = bytes"
  by (simp add: as_bytes_def block_from_def block_len_def mem_bytes_def)

lemma block_with_capacity_wf [wf_intros]: "block_wf (block_with_capacity c)"
  by (simp add: block_wf_def block_with_capacity_def)

lemma block_for_prependable_wf [wf_intros]: "block_wf (block_for_prependable c)"
  by (simp add: block_wf_def block_for_prependable_def)

lemma fresh_block_empty [simp]:
  "block_is_empty (block_with_capacity c)" "block_is_empty (block_for_prependable c)"
  "appendable (block_with_capacity c) = c" "prependable (block_for_prependable c) = c"
  by (simp_all add: block_defs)

subsection \<open>Consuming from the front\<close>

lemma block_consume_wf [wf_intros]:
  assumes "block_wf b" and "n \<le> block_len b"
  shows "block_wf (block_set_read_pos (read_pos b + n) b)"
proof -
  have "mem_init (mem b) (read_pos b) (n + (block_len b - n))"
    using block_wf_init [OF assms(1)] assms(2) by simp
  then have "mem_init (mem b) (read_pos b + n) (block_len b - n)"
    by (simp only: mem_init_add)
  with assms show ?thesis
    by (auto simp: block_wf_def block_set_read_pos_def block_len_def diff_diff_left)
qed

lemma block_consume_bytes [content_simps]:
  assumes "n \<le> block_len b"
  shows "as_bytes (block_set_read_pos (read_pos b + n) b) = drop n (as_bytes b)"
  using assms mem_bytes_drop [of "mem b" "read_pos b" n "block_len b"]
  by (simp add: as_bytes_def block_set_read_pos_def block_len_def diff_diff_left)

lemma block_consume_all_wf [wf_intros]:
  "block_wf b \<Longrightarrow> block_wf (block_set_read_pos (write_pos b) b)"
  by (simp add: block_wf_def block_set_read_pos_def)

lemma block_consume_all_empty [simp]: "block_is_empty (block_set_read_pos (write_pos b) b)"
  by (simp add: block_is_empty_def block_set_read_pos_def)

subsection \<open>Writing behind the live bytes, before them and over them\<close>

lemma block_append_wf [wf_intros]:
  assumes "block_wf b" and "length bs \<le> appendable b"
  shows "block_wf (block_set_write_pos (write_pos b + length bs) (block_write (write_pos b) bs b))"
proof -
  let ?n = "write_pos b - read_pos b"
  have w: "write_pos b + length bs \<le> length (mem b)"
    using assms by (auto simp: block_wf_def appendable_def)
  have "mem_init (mem_write (mem b) (write_pos b) bs) (read_pos b) ?n"
    using assms w by (simp add: block_wf_def mem_write_above(2))
  moreover have "mem_init (mem_write (mem b) (write_pos b) bs) (read_pos b + ?n) (length bs)"
    using assms w by (simp add: block_wf_def mem_init_write_same)
  ultimately have "mem_init (mem_write (mem b) (write_pos b) bs) (read_pos b) (?n + length bs)"
    by (simp add: mem_init_add)
  moreover have "?n + length bs = write_pos b + length bs - read_pos b"
    using assms by (simp add: block_wf_def)
  ultimately show ?thesis
    using assms w by (simp add: block_wf_def block_set_write_pos_def block_write_def)
qed

lemma block_append_bytes [content_simps]:
  assumes "block_wf b" and "length bs \<le> appendable b"
  shows "as_bytes (block_set_write_pos (write_pos b + length bs) (block_write (write_pos b) bs b))
    = as_bytes b @ bs"
proof -
  let ?n = "write_pos b - read_pos b"
  let ?m = "mem_write (mem b) (write_pos b) bs"
  have w: "write_pos b \<le> length (mem b)" and r: "read_pos b + ?n = write_pos b"
    using assms by (simp_all add: block_wf_def)
  have "mem_bytes ?m (read_pos b) (?n + length bs) =
      mem_bytes ?m (read_pos b) ?n @ mem_bytes ?m (write_pos b) (length bs)"
    by (simp add: mem_bytes_add r)
  also have "\<dots> = mem_bytes (mem b) (read_pos b) ?n @ bs"
    using w r by (simp add: mem_write_above(1))
  finally show ?thesis
    using r by (simp add: as_bytes_def block_len_def block_set_write_pos_def block_write_def)
qed

lemma block_prepend_wf [wf_intros]:
  assumes "block_wf b" and "length bs \<le> prependable b"
  shows "block_wf (block_set_read_pos (read_pos b - length bs) (block_write (read_pos b - length bs) bs b))"
proof -
  let ?n = "write_pos b - read_pos b" and ?o = "read_pos b - length bs"
  have w: "?o + length bs = read_pos b" "read_pos b \<le> length (mem b)"
    using assms by (simp_all add: block_wf_def prependable_def)
  have "mem_init (mem_write (mem b) ?o bs) ?o (length bs)"
    using w by (simp add: mem_init_write_same)
  moreover have "mem_init (mem_write (mem b) ?o bs) (?o + length bs) ?n"
    using assms w by (simp add: block_wf_def mem_write_below(2))
  ultimately have "mem_init (mem_write (mem b) ?o bs) ?o (length bs + ?n)"
    by (simp only: mem_init_add)
  moreover have "length bs + ?n = write_pos b - ?o"
    using assms w by (simp add: block_wf_def)
  ultimately show ?thesis
    using assms w by (simp add: block_wf_def block_set_read_pos_def block_write_def)
qed

lemma block_prepend_bytes [content_simps]:
  assumes "block_wf b" and "length bs \<le> prependable b"
  shows "as_bytes (block_set_read_pos (read_pos b - length bs) (block_write (read_pos b - length bs) bs b))
    = bs @ as_bytes b"
proof -
  let ?n = "write_pos b - read_pos b" and ?o = "read_pos b - length bs"
  let ?m = "mem_write (mem b) ?o bs"
  have w: "?o + length bs = read_pos b" "read_pos b \<le> length (mem b)"
    using assms by (simp_all add: block_wf_def prependable_def)
  have "mem_bytes ?m ?o (length bs + ?n) =
      mem_bytes ?m ?o (length bs) @ mem_bytes ?m (read_pos b) ?n"
    by (simp only: mem_bytes_add w(1))
  also have "\<dots> = bs @ mem_bytes (mem b) (read_pos b) ?n"
    using w by (simp add: mem_write_below(1))
  finally have "mem_bytes ?m ?o (length bs + ?n) = bs @ mem_bytes (mem b) (read_pos b) ?n" .
  moreover have "length bs + ?n = write_pos b - ?o"
    using assms w by (simp add: block_wf_def)
  ultimately show ?thesis
    by (simp add: as_bytes_def block_len_def block_set_read_pos_def block_write_def)
qed

lemma block_overwrite_wf [wf_intros]:
  assumes "block_wf b" and "read_pos b \<le> off" and "off + length bs \<le> write_pos b"
  shows "block_wf (block_write off bs b)"
proof -
  let ?m = "mem_write (mem b) off bs"
  obtain k where k: "off = read_pos b + k" using assms(2) le_iff_add by blast
  obtain j where j: "write_pos b = off + length bs + j" using assms(3) le_iff_add by blast
  have len: "length (mem b) = cap b" "write_pos b \<le> cap b"
    using assms(1) by (simp_all add: block_wf_def)
  have init: "mem_init (mem b) (read_pos b) (k + (length bs + j))"
    using assms(1) by (simp add: block_wf_def k j)
  then have "mem_init (mem b) (read_pos b) k" "mem_init (mem b) (off + length bs) j"
    by (simp_all add: mem_init_add k add.assoc)
  then have "mem_init ?m (read_pos b) k" "mem_init ?m (off + length bs) j"
    "mem_init ?m off (length bs)"
    using len j k by (simp_all add: mem_write_above(2) mem_write_below(2) mem_init_write_same)
  then have "mem_init ?m (read_pos b) (k + (length bs + j))"
    by (simp add: mem_init_add k)
  with assms len j k show ?thesis
    by (simp add: block_wf_def block_write_def)
qed

lemma block_overwrite_bytes [content_simps]:
  assumes "block_wf b" and "k + length bs \<le> block_len b"
  shows "as_bytes (block_write (read_pos b + k) bs b) =
    take k (as_bytes b) @ bs @ drop (k + length bs) (as_bytes b)"
proof -
  let ?off = "read_pos b + k"
  let ?m = "mem_write (mem b) ?off bs"
  obtain j where j: "block_len b = k + (length bs + j)"
    using assms(2) le_iff_add add.assoc by metis
  have len: "?off + length bs + j \<le> length (mem b)"
    using assms(1) j by (auto simp: block_wf_def block_len_def)
  have "mem_bytes ?m (read_pos b) (block_len b) =
      mem_bytes ?m (read_pos b) k @ mem_bytes ?m ?off (length bs) @ mem_bytes ?m (?off + length bs) j"
    by (simp add: j mem_bytes_add)
  also have "\<dots> = mem_bytes (mem b) (read_pos b) k @ bs @ mem_bytes (mem b) (?off + length bs) j"
    using len by (simp add: mem_write_above(1) mem_write_below(1))
  also have "mem_bytes (mem b) (read_pos b) k = take k (as_bytes b)"
    by (simp add: as_bytes_def j mem_bytes_take [of k "k + (length bs + j)"])
  also have "mem_bytes (mem b) (?off + length bs) j = drop (k + length bs) (as_bytes b)"
    using mem_bytes_drop [of "mem b" "read_pos b" "k + length bs" "block_len b"]
    by (simp add: as_bytes_def j add.assoc)
  finally show ?thesis
    by (simp add: as_bytes_def block_write_def block_len_def)
qed

lemma block_write_simps [simp]:
  "read_pos (block_write off bs b) = read_pos b" "write_pos (block_write off bs b) = write_pos b"
  "cap (block_write off bs b) = cap b" "block_len (block_write off bs b) = block_len b"
  by (simp_all add: block_write_def block_len_def)

subsection \<open>Slices and splitting\<close>

lemma as_bytes_from_eq [content_simps]: "as_bytes_from k b = drop k (as_bytes b)"
  using mem_bytes_drop [of "mem b" "read_pos b" k "block_len b"]
  by (simp add: as_bytes_from_def as_bytes_def Let_def block_len_def diff_diff_left)

lemma as_bytes_to_eq [content_simps]: "k \<le> block_len b \<Longrightarrow> as_bytes_to k b = take k (as_bytes b)"
  by (simp add: as_bytes_to_def as_bytes_def mem_bytes_take [symmetric])

lemma block_split_off_bytes:
  assumes "block_split_off at b = (other, b')" and "at \<le> block_len b"
  shows "as_bytes b' = take at (as_bytes b)" and "as_bytes other = drop at (as_bytes b)"
proof -
  let ?off = "read_pos b + at"
  have "as_bytes b' = mem_bytes (mem b) (read_pos b) at"
    using assms
    by (auto simp: block_split_off_def Let_def block_set_capacity_def block_set_write_pos_def
        as_bytes_def block_len_def mem_bytes_def drop_take)
  then show "as_bytes b' = take at (as_bytes b)"
    using assms(2) by (simp add: as_bytes_def mem_bytes_take)
  have "as_bytes other = mem_bytes (mem b) ?off (block_len b - at)"
    using assms
    by (auto simp: block_split_off_def Let_def block_set_capacity_def block_set_write_pos_def
        as_bytes_def block_len_def mem_bytes_def diff_diff_left)
  then show "as_bytes other = drop at (as_bytes b)"
    by (simp add: as_bytes_def mem_bytes_drop)
qed

lemma block_split_off_wf:
  assumes "block_split_off at b = (other, b')" and "block_wf b" and "at \<le> block_len b"
  shows "block_wf b'" and "block_wf other"
proof -
  let ?off = "read_pos b + at"
  have "mem_init (mem b) (read_pos b) (at + (block_len b - at))"
    using block_wf_init [OF assms(2)] assms(3) by simp
  then have init: "mem_init (mem b) (read_pos b) at" "mem_init (mem b) ?off (block_len b - at)"
    by (simp_all only: mem_init_add)
  show "block_wf b'"
    using assms init(1)
    by (auto simp: block_split_off_def Let_def block_set_capacity_def block_set_write_pos_def
        block_wf_def block_len_def mem_init_def drop_take)
  show "block_wf other"
    using assms init(2)
    by (auto simp: block_split_off_def Let_def block_set_capacity_def block_set_write_pos_def
        block_wf_def block_len_def mem_init_def diff_diff_left)
qed

lemma block_split_off_shape:
  assumes "block_split_off at b = (other, b')"
  shows "read_pos b' = read_pos b" "write_pos b' = read_pos b + at" "cap b' = read_pos b + at"
    "read_pos other = 0" "write_pos other = write_pos b - (read_pos b + at)"
    "cap other = cap b - (read_pos b + at)"
  using assms
  by (auto simp: block_split_off_def Let_def block_set_capacity_def block_set_write_pos_def)

end
