(* ===== verification/ByteBuf.thy ===== *)
theory ByteBuf
  imports Block
begin

text \<open>
  \<open>src/buf/mod.rs\<close>, the struct \<open>ByteBuf\<close> and the operations that work on its chain of
  blocks: construction, length, locating a position, reserving, growing at either end,
  joining, splitting, skipping and compacting. The bytes of a buffer are the live bytes of
  the blocks from \<open>idx\<close> on, \<open>content\<close>; each operation is proved against them.
\<close>

section \<open>State and operations\<close>

datatype buf_error = IndexOutOfBounds | Underflow

record bytebuf =
  blocks :: "block list"
  idx :: nat
  growth :: nat

definition bytebuf_from :: "u8 list \<Rightarrow> nat \<Rightarrow> bytebuf" where
  "bytebuf_from bytes capacity =
     \<lparr>blocks = [block_from bytes capacity], idx = 0, growth = 8 * 1024\<rparr>"

definition bytebuf_with_capacity :: "nat \<Rightarrow> bytebuf" where
  "bytebuf_with_capacity capacity =
     (let c = (if capacity = 0 then 8 * 1024 else capacity);
          inner = block_with_capacity c
      in \<lparr>blocks = [inner], idx = 0, growth = cap inner\<rparr>)"

text \<open>\<open>mem::size_of::<usize>()\<close> is 8 on a 64-bit target.\<close>

definition bytebuf_with_growth :: "nat \<Rightarrow> bytebuf" where
  "bytebuf_with_growth g =
     (let g' = (if g < 8 then 8 * 1024 else g) in \<lparr>blocks = [], idx = 0, growth = g'\<rparr>)"

definition bytebuf_new :: bytebuf where
  "bytebuf_new = bytebuf_with_growth 0"

definition bb_set_growth :: "nat \<Rightarrow> bytebuf \<Rightarrow> bytebuf" where
  "bb_set_growth g b = b\<lparr>growth := g\<rparr>"

definition bb_len :: "bytebuf \<Rightarrow> nat" where
  "bb_len b = fold (\<lambda>blk len. len + block_len blk) (drop (idx b) (blocks b)) 0"

text \<open>
  \<open>locate_idx(&self, pos: &mut usize)\<close>: the result, and what is left in \<open>*pos\<close>.
\<close>

fun locate_loop :: "nat \<Rightarrow> block list \<Rightarrow> nat \<Rightarrow> nat option \<times> nat" where
  "locate_loop i [] pos = (None, pos)"
| "locate_loop i (blk # bs) pos =
     (if pos \<le> block_len blk then (Some i, pos)
      else locate_loop (Suc i) bs (pos - block_len blk))"

definition locate_idx :: "bytebuf \<Rightarrow> nat \<Rightarrow> (nat, nat) outcome \<times> nat" where
  "locate_idx b pos =
     (case locate_loop (idx b) (drop (idx b) (blocks b)) pos of
        (Some i, p) \<Rightarrow> (Ok i, p)
      | (None, p) \<Rightarrow> (Err pos, p))"

definition bb_append_block :: "nat \<Rightarrow> bytebuf \<Rightarrow> bytebuf" where
  "bb_append_block min_capacity b =
     (let c = (if min_capacity \<le> growth b then growth b else min_capacity)
      in b\<lparr>blocks := blocks b @ [block_with_capacity c]\<rparr>)"

text \<open>The vector \<open>bytes\<close> has the capacity \<open>vcap\<close>.\<close>

definition bb_append_bytes :: "u8 list \<Rightarrow> nat \<Rightarrow> bytebuf \<Rightarrow> bytebuf" where
  "bb_append_bytes bytes vcap b =
     (let temp =
        (case blocks b of [] \<Rightarrow> None
         | _ # _ \<Rightarrow>
             (let lst = last (blocks b); n = vcap - length bytes
              in if n + 512 \<le> appendable lst then Some (block_split_off (block_len lst) lst)
                 else None));
        block = block_from bytes vcap
      in case temp of
           Some (tail, lst') \<Rightarrow> b\<lparr>blocks := butlast (blocks b) @ [lst', block, tail]\<rparr>
         | None \<Rightarrow> b\<lparr>blocks := blocks b @ [block]\<rparr>)"

definition bb_prepend_block :: "nat \<Rightarrow> bytebuf \<Rightarrow> bytebuf" where
  "bb_prepend_block min_capacity b =
     (let c = (if min_capacity \<le> growth b then growth b else min_capacity)
      in b\<lparr>blocks := block_for_prependable c # blocks b\<rparr>)"

definition bb_prepend_bytes :: "u8 list \<Rightarrow> nat \<Rightarrow> bytebuf \<Rightarrow> bytebuf" where
  "bb_prepend_bytes bytes vcap b =
     (let temp =
        (case blocks b of [] \<Rightarrow> None
         | first # _ \<Rightarrow>
             (if 512 \<le> prependable first then Some (block_split_off 0 first) else None));
        block = block_from bytes vcap
      in case temp of
           Some (third, first') \<Rightarrow> b\<lparr>blocks := first' # block # third # tl (blocks b)\<rparr>
         | None \<Rightarrow> b\<lparr>blocks := block # blocks b\<rparr>)"

definition bb_add_block :: "block \<Rightarrow> bytebuf \<Rightarrow> bytebuf" where
  "bb_add_block block b = b\<lparr>blocks := blocks b @ [block]\<rparr>"

definition bb_try_reserve_in_head :: "nat \<Rightarrow> bytebuf \<Rightarrow> nat \<times> bytebuf" where
  "bb_try_reserve_in_head len b =
     (case blocks b of
        [] \<Rightarrow> (0, b)
      | first # rest \<Rightarrow>
          (if block_is_empty first
           then let reserved = (if len > cap first then cap first else len);
                    f1 = block_set_read_pos 0 first;
                    f2 = block_set_write_pos reserved f1;
                    f3 = block_set_read_pos reserved f2
                in (reserved, b\<lparr>blocks := f3 # rest\<rparr>)
           else (read_pos first, b)))"

definition bb_reserve :: "nat \<Rightarrow> bytebuf \<Rightarrow> bytebuf" where
  "bb_reserve additional b =
     (let a = (case blocks b of [] \<Rightarrow> 0 | _ # _ \<Rightarrow> appendable (last (blocks b)))
      in if a < additional then bb_append_block (additional - a) b else b)"

definition bb_extend :: "bytebuf \<Rightarrow> bytebuf \<Rightarrow> bytebuf" where
  "bb_extend other b = b\<lparr>blocks := blocks b @ drop (idx other) (blocks other)\<rparr>"

text \<open>
  \<open>split_off\<close>: the result and \<open>self\<close> afterwards. The branches on \<open>self.idx > idx\<close> are
  the source's; \<open>locate_idx\<close> never returns an index below \<open>self.idx\<close>.
\<close>

definition bb_split_off :: "nat \<Rightarrow> bytebuf \<Rightarrow> (bytebuf, buf_error) outcome \<times> bytebuf" where
  "bb_split_off at b =
     (case locate_idx b at of
        (Ok i, off) \<Rightarrow>
          (let len = i + 1;
               n = length (blocks b) - len;
               (other_block, block) = block_split_off off (blocks b ! i);
               bs = (blocks b)[i := block]
           in if \<not> block_is_empty other_block \<or> 8 \<le> appendable other_block then
                (let (other_idx, self_idx) =
                   (if idx b > i then (idx b - i, i) else (0, idx b))
                 in (Ok \<lparr>blocks = other_block # drop len bs, idx = other_idx, growth = growth b\<rparr>,
                     b\<lparr>blocks := take len bs, idx := self_idx\<rparr>))
              else if n > 0 then
                (let (other_idx, self_idx) =
                   (if idx b > i then (idx b - len, i) else (0, idx b))
                 in (Ok \<lparr>blocks = drop len bs, idx = other_idx, growth = growth b\<rparr>,
                     b\<lparr>blocks := take len bs, idx := self_idx\<rparr>))
              else (Ok (bytebuf_with_growth (growth b)), b\<lparr>blocks := bs\<rparr>))
      | _ \<Rightarrow> (Err IndexOutOfBounds, b))"

text \<open>\<open>drain_to\<close>: \<open>split_off\<close>, then \<open>mem::swap\<close> of \<open>self\<close> and the part split off.\<close>

definition bb_drain_to :: "nat \<Rightarrow> bytebuf \<Rightarrow> (bytebuf, buf_error) outcome \<times> bytebuf" where
  "bb_drain_to at b =
     (case bb_split_off at b of
        (Ok other, b') \<Rightarrow> (Ok b', other)
      | (Err e, b') \<Rightarrow> (Err e, b')
      | (Panic, b') \<Rightarrow> (Panic, b'))"

function compact_loop :: "bytebuf \<Rightarrow> bytebuf" where
  "compact_loop b =
     (if idx b < length (blocks b) \<and> block_is_empty (blocks b ! idx b)
      then compact_loop (b\<lparr>idx := idx b + 1\<rparr>) else b)"
  by pat_completeness auto
termination
  by (relation "measure (\<lambda>b. length (blocks b) - idx b)") auto

declare compact_loop.simps [simp del]

definition bb_compact :: "bytebuf \<Rightarrow> bytebuf" where
  "bb_compact b =
     (let b1 = compact_loop b
      in if idx b1 > 0 then b1\<lparr>blocks := drop (idx b1) (blocks b1), idx := 0\<rparr> else b1)"

text \<open>\<open>skip\<close>: the loop over \<open>self.blocks[i..]\<close>, with \<open>skipped\<close> and \<open>self.idx\<close> threaded.\<close>

fun skip_loop :: "nat \<Rightarrow> nat \<Rightarrow> nat \<Rightarrow> block list \<Rightarrow> nat \<times> nat \<times> block list" where
  "skip_loop skipped n i [] = (skipped, i, [])"
| "skip_loop skipped n i (blk # bs) =
     (let m = block_len blk; skipped' = skipped + m
      in if skipped' \<ge> n
         then (n, i, block_set_read_pos (read_pos blk + m - (skipped' - n)) blk # bs)
         else let (r, i', bs') = skip_loop skipped' n (i + 1) bs
              in (r, i', block_set_read_pos (write_pos blk) blk # bs'))"

definition bb_skip :: "nat \<Rightarrow> bytebuf \<Rightarrow> nat \<times> bytebuf" where
  "bb_skip n b =
     (let (r, i, bs) = skip_loop 0 n (idx b) (drop (idx b) (blocks b))
      in (r, b\<lparr>blocks := take (idx b) (blocks b) @ bs, idx := i\<rparr>))"

fun all_empty :: "block list \<Rightarrow> bool" where
  "all_empty [] = True"
| "all_empty (blk # bs) = (if \<not> block_is_empty blk then False else all_empty bs)"

definition bb_is_empty :: "bytebuf \<Rightarrow> bool" where
  "bb_is_empty b = all_empty (drop (idx b) (blocks b))"

section \<open>Contents and invariant\<close>

definition chain_bytes :: "block list \<Rightarrow> u8 list" where
  "chain_bytes bs = concat (map as_bytes bs)"

definition content :: "bytebuf \<Rightarrow> u8 list" where
  "content b = chain_bytes (drop (idx b) (blocks b))"

text \<open>Every block is well formed, \<open>idx\<close> is in range and the blocks before it are consumed.\<close>

definition chain_wf :: "block list \<Rightarrow> bool" where
  "chain_wf bs \<longleftrightarrow> (\<forall>blk\<in>set bs. block_wf blk)"

definition bb_wf :: "bytebuf \<Rightarrow> bool" where
  "bb_wf b \<longleftrightarrow> chain_wf (blocks b) \<and> idx b \<le> length (blocks b) \<and>
     (\<forall>blk\<in>set (take (idx b) (blocks b)). block_is_empty blk)"

lemma chain_bytes_simps [simp]:
  "chain_bytes [] = []"
  "chain_bytes (blk # bs) = as_bytes blk @ chain_bytes bs"
  "chain_bytes (bs @ cs) = chain_bytes bs @ chain_bytes cs"
  by (simp_all add: chain_bytes_def)

lemma chain_wf_simps [simp]:
  "chain_wf []"
  "chain_wf (blk # bs) \<longleftrightarrow> block_wf blk \<and> chain_wf bs"
  "chain_wf (bs @ cs) \<longleftrightarrow> chain_wf bs \<and> chain_wf cs"
  by (auto simp: chain_wf_def)

lemma chain_wf_take_drop [wf_intros]:
  "chain_wf bs \<Longrightarrow> chain_wf (take n bs)" "chain_wf bs \<Longrightarrow> chain_wf (drop n bs)"
  by (auto simp: chain_wf_def dest: in_set_takeD in_set_dropD)

lemma chain_wf_nth: "chain_wf bs \<Longrightarrow> i < length bs \<Longrightarrow> block_wf (bs ! i)"
  by (simp add: chain_wf_def)

lemma chain_wf_update [wf_intros]: "chain_wf bs \<Longrightarrow> block_wf blk \<Longrightarrow> chain_wf (bs[i := blk])"
  unfolding chain_wf_def by (rule set_update_ball)

lemma chain_bytes_split:
  "i < length bs \<Longrightarrow> chain_bytes bs =
     chain_bytes (take i bs) @ as_bytes (bs ! i) @ chain_bytes (drop (Suc i) bs)"
  by (metis chain_bytes_simps(2,3) take_nth_drop)

lemma chain_bytes_empty: "\<forall>blk\<in>set bs. block_is_empty blk \<Longrightarrow> chain_bytes bs = []"
  by (induction bs) auto

lemma content_split:
  assumes "idx b \<le> i" and "i < length (blocks b)"
  shows "content b = chain_bytes (drop (idx b) (take i (blocks b))) @ as_bytes (blocks b ! i)
    @ chain_bytes (drop (Suc i) (blocks b))"
proof -
  have "drop (idx b) (blocks b) =
      drop (idx b) (take i (blocks b)) @ blocks b ! i # drop (Suc i) (blocks b)"
    using assms by (metis append_take_drop_id drop_append drop_eq_nth_Cons drop_take
        le_add_diff_inverse length_take min.absorb4 diff_is_0_eq drop_0)
  then show ?thesis
    unfolding content_def by simp
qed

lemma fold_block_len: "chain_wf bs \<Longrightarrow>
   fold (\<lambda>blk len. len + block_len blk) bs n = n + length (chain_bytes bs)"
  by (induction bs arbitrary: n) simp_all

lemma bb_len_content [content_simps]: "bb_wf b \<Longrightarrow> bb_len b = length (content b)"
  by (simp add: bb_len_def content_def fold_block_len bb_wf_def chain_wf_take_drop)

lemma bb_wf_chain: "bb_wf b \<Longrightarrow> chain_wf (blocks b)"
  by (simp add: bb_wf_def)

lemma bb_wf_nth: "bb_wf b \<Longrightarrow> i < length (blocks b) \<Longrightarrow> block_wf (blocks b ! i)"
  by (simp add: bb_wf_def chain_wf_nth)

lemma bb_wf_update:
  assumes "bb_wf b" and "idx b \<le> i" and "block_wf blk"
  shows "bb_wf (b\<lparr>blocks := (blocks b)[i := blk]\<rparr>)"
  using assms by (simp add: bb_wf_def chain_wf_update)

lemma content_update:
  assumes "idx b \<le> i" and "i < length (blocks b)"
  shows "content (b\<lparr>blocks := (blocks b)[i := blk]\<rparr>) =
    chain_bytes (drop (idx b) (take i (blocks b))) @ as_bytes blk
    @ chain_bytes (drop (Suc i) (blocks b))"
  using content_split [of "b\<lparr>blocks := (blocks b)[i := blk]\<rparr>" i] assms by simp

text \<open>Appending blocks behind the chain, and putting blocks in front of it.\<close>

lemma bb_wf_append_blocks:
  "bb_wf b \<Longrightarrow> chain_wf bs \<Longrightarrow> bb_wf (b\<lparr>blocks := blocks b @ bs\<rparr>)"
  by (simp add: bb_wf_def)

lemma content_append_blocks:
  "bb_wf b \<Longrightarrow> content (b\<lparr>blocks := blocks b @ bs\<rparr>) = content b @ chain_bytes bs"
  by (simp add: bb_wf_def content_def)

section \<open>Construction\<close>

lemma bytebuf_from_wf [wf_intros]: "length bytes \<le> c \<Longrightarrow> bb_wf (bytebuf_from bytes c)"
  by (simp add: bb_wf_def bytebuf_from_def block_from_wf)

lemma content_bytebuf_from [content_simps]: "content (bytebuf_from bytes c) = bytes"
  by (simp add: content_def bytebuf_from_def block_from_bytes)

lemma bytebuf_with_growth_wf [wf_intros]: "bb_wf (bytebuf_with_growth g)"
  by (simp add: bb_wf_def bytebuf_with_growth_def Let_def)

lemma content_bytebuf_with_growth [content_simps]: "content (bytebuf_with_growth g) = []"
  by (simp add: content_def bytebuf_with_growth_def Let_def)

lemma bytebuf_with_growth_pos: "0 < growth (bytebuf_with_growth g)"
  by (simp add: bytebuf_with_growth_def Let_def)

lemma bytebuf_with_capacity_wf [wf_intros]: "bb_wf (bytebuf_with_capacity c)"
  by (simp add: bb_wf_def bytebuf_with_capacity_def Let_def block_with_capacity_wf)

lemma content_bytebuf_with_capacity [content_simps]: "content (bytebuf_with_capacity c) = []"
  by (simp add: content_def bytebuf_with_capacity_def Let_def)

section \<open>Locating a position\<close>

lemma locate_loop_Some:
  assumes "locate_loop i bs pos = (Some j, off)" and "chain_wf bs"
  shows "i \<le> j \<and> j - i < length bs \<and> off \<le> block_len (bs ! (j - i)) \<and>
    pos = length (chain_bytes (take (j - i) bs)) + off"
  using assms
proof (induction i bs pos rule: locate_loop.induct)
  case (2 i blk bs pos)
  show ?case
  proof (cases "pos \<le> block_len blk")
    case True
    with "2.prems" show ?thesis by simp
  next
    case False
    with "2.prems" "2.IH" have ih: "Suc i \<le> j" "j - Suc i < length bs"
      "off \<le> block_len (bs ! (j - Suc i))"
      "pos - block_len blk = length (chain_bytes (take (j - Suc i) bs)) + off"
      by simp_all
    then obtain k where k: "j = Suc i + k" using le_iff_add by blast
    with ih False "2.prems"(2) show ?thesis by simp
  qed
qed simp

lemma locate_loop_None:
  assumes "locate_loop i bs pos = (None, off)" and "chain_wf bs"
  shows "off = pos - length (chain_bytes bs) \<and> (bs = [] \<or> length (chain_bytes bs) < pos)"
  using assms
proof (induction i bs pos rule: locate_loop.induct)
  case (2 i blk bs pos)
  then have "\<not> pos \<le> block_len blk" by (auto split: if_splits)
  with 2 show ?case by auto
qed simp

lemma locate_idx_Ok:
  assumes "locate_idx b pos = (Ok i, off)" and "bb_wf b"
  shows "idx b \<le> i" and "i < length (blocks b)" and "off \<le> block_len (blocks b ! i)"
    and "pos = length (chain_bytes (drop (idx b) (take i (blocks b)))) + off"
proof -
  have "locate_loop (idx b) (drop (idx b) (blocks b)) pos = (Some i, off)"
    using assms(1) by (auto simp: locate_idx_def split: prod.splits option.splits)
  from locate_loop_Some [OF this] assms(2) have *: "idx b \<le> i"
    "i - idx b < length (drop (idx b) (blocks b))"
    "off \<le> block_len (drop (idx b) (blocks b) ! (i - idx b))"
    "pos = length (chain_bytes (take (i - idx b) (drop (idx b) (blocks b)))) + off"
    using assms(2) by (simp_all only: bb_wf_def chain_wf_take_drop simp_thms)
  have "idx b + (i - idx b) = i" using *(1) by simp
  with * show "idx b \<le> i" "i < length (blocks b)" "off \<le> block_len (blocks b ! i)"
    "pos = length (chain_bytes (drop (idx b) (take i (blocks b)))) + off"
    by (simp_all add: drop_take)
qed

lemma locate_idx_Err:
  assumes "locate_idx b pos = (Err e, off)" and "bb_wf b"
  shows "e = pos" and "off = pos - length (content b)"
    and "idx b = length (blocks b) \<or> length (content b) < pos"
  using assms locate_loop_None [of "idx b" "drop (idx b) (blocks b)" pos off]
  by (auto simp: locate_idx_def content_def bb_wf_def chain_wf_take_drop
      split: prod.splits option.splits)

lemma locate_idx_not_Panic: "fst (locate_idx b pos) \<noteq> Panic"
  by (auto simp: locate_idx_def split: prod.splits option.splits)

lemma locate_idx_total:
  assumes "bb_wf b"
  shows "(\<exists>i off. locate_idx b pos = (Ok i, off)) \<longleftrightarrow>
    idx b < length (blocks b) \<and> pos \<le> length (content b)"
proof
  assume "\<exists>i off. locate_idx b pos = (Ok i, off)"
  then obtain i off where l: "locate_idx b pos = (Ok i, off)" by blast
  note * = locate_idx_Ok [OF l assms]
  have "length (as_bytes (blocks b ! i)) = block_len (blocks b ! i)"
    using *(2) assms by (simp add: bb_wf_nth)
  then have "pos \<le> length (content b)"
    using * content_split [OF *(1,2)] by simp
  with * show "idx b < length (blocks b) \<and> pos \<le> length (content b)" by simp
next
  assume r: "idx b < length (blocks b) \<and> pos \<le> length (content b)"
  obtain res off where l: "locate_idx b pos = (res, off)" by fastforce
  with r locate_idx_Err [of b pos _ off] assms locate_idx_not_Panic [of b pos]
  show "\<exists>i off. locate_idx b pos = (Ok i, off)"
    by (cases res) auto
qed

section \<open>Growing and reserving\<close>

lemma bb_append_block_wf [wf_intros]: "bb_wf b \<Longrightarrow> bb_wf (bb_append_block c b)"
  by (simp add: bb_append_block_def Let_def bb_wf_append_blocks block_with_capacity_wf)

lemma content_bb_append_block [content_simps]:
  "bb_wf b \<Longrightarrow> content (bb_append_block c b) = content b"
  by (simp add: bb_append_block_def Let_def content_append_blocks)

lemma bb_append_block_simps [simp]:
  "idx (bb_append_block c b) = idx b" "growth (bb_append_block c b) = growth b"
  "length (blocks (bb_append_block c b)) = Suc (length (blocks b))"
  "blocks (bb_append_block c b) \<noteq> []"
  "last (blocks (bb_append_block c b)) = block_with_capacity (max (growth b) c)"
  by (simp_all add: bb_append_block_def Let_def max_def)

lemma bb_extend_wf [wf_intros]: "bb_wf b \<Longrightarrow> bb_wf other \<Longrightarrow> bb_wf (bb_extend other b)"
  by (simp add: bb_extend_def bb_wf_append_blocks chain_wf_take_drop bb_wf_chain)

lemma content_bb_extend [content_simps]:
  "bb_wf b \<Longrightarrow> content (bb_extend other b) = content b @ content other"
  by (simp add: bb_extend_def content_append_blocks content_def [of other])

lemma bb_reserve_wf [wf_intros]: "bb_wf b \<Longrightarrow> bb_wf (bb_reserve n b)"
  by (simp add: bb_reserve_def Let_def bb_append_block_wf)

lemma content_bb_reserve [content_simps]: "bb_wf b \<Longrightarrow> content (bb_reserve n b) = content b"
  by (simp add: bb_reserve_def Let_def content_bb_append_block)

lemma bb_is_empty_iff [content_simps]:
  assumes "bb_wf b"
  shows "bb_is_empty b \<longleftrightarrow> content b = []"
proof -
  have "all_empty bs \<longleftrightarrow> chain_bytes bs = []" if "chain_wf bs" for bs
    using that by (induction bs) (auto simp: as_bytes_Nil_iff)
  then show ?thesis
    using assms by (simp add: bb_is_empty_def content_def bb_wf_def chain_wf_take_drop)
qed

section \<open>Splitting, draining, compacting, skipping\<close>

lemma bb_split_off_Err:
  assumes "bb_wf b" and "\<not> (idx b < length (blocks b) \<and> at \<le> length (content b))"
  shows "bb_split_off at b = (Err IndexOutOfBounds, b)"
proof -
  have "\<nexists>i off. locate_idx b at = (Ok i, off)"
    using assms locate_idx_total [of b at] by blast
  then show ?thesis
    by (auto simp: bb_split_off_def split: prod.splits outcome.splits)
qed

lemma bb_split_off_Ok:
  assumes "bb_wf b" and "idx b < length (blocks b)" and "at \<le> length (content b)"
  obtains other b' where "bb_split_off at b = (Ok other, b')"
    and "bb_wf other" and "bb_wf b'" and "growth b' = growth b"
    and "content b' = take at (content b)" and "content other = drop at (content b)"
proof -
  obtain i off where l: "locate_idx b at = (Ok i, off)"
    using locate_idx_total assms by blast
  note loc = locate_idx_Ok [OF l assms(1)]
  obtain ob blk where sp: "block_split_off off (blocks b ! i) = (ob, blk)"
    by fastforce
  have w: "block_wf (blocks b ! i)" using assms(1) loc(2) by (rule bb_wf_nth)
  note sp_wf = block_split_off_wf [OF sp w loc(3)]
  note sp_bytes = block_split_off_bytes [OF sp loc(3)]
  let ?pre = "chain_bytes (drop (idx b) (take i (blocks b)))"
  let ?post = "chain_bytes (drop (Suc i) (blocks b))"
  have c: "content b = ?pre @ as_bytes (blocks b ! i) @ ?post"
    using loc by (simp add: content_split)
  have c1: "take at (content b) = ?pre @ as_bytes blk"
    using loc(3,4) w by (simp add: c sp_bytes)
  have c2: "drop at (content b) = as_bytes ob @ ?post"
    using loc(3,4) w by (simp add: c sp_bytes)
  have tk: "take (Suc i) ((blocks b)[i := blk]) = take i (blocks b) @ [blk]"
    using loc(2) by (simp add: take_Suc_conv_app_nth)
  have self: "bb_wf (b\<lparr>blocks := take i (blocks b) @ [blk]\<rparr>)"
    "content (b\<lparr>blocks := take i (blocks b) @ [blk]\<rparr>) = take at (content b)"
    using assms(1) loc(1,2) sp_wf(1) c1
    by (auto simp: bb_wf_def chain_wf_take_drop content_def [of "b\<lparr>blocks := _\<rparr>"] min_def)
  consider (keep) "\<not> block_is_empty ob \<or> 8 \<le> appendable ob"
    | (drop) "\<not> (\<not> block_is_empty ob \<or> 8 \<le> appendable ob)" "Suc i < length (blocks b)"
    | (last) "\<not> (\<not> block_is_empty ob \<or> 8 \<le> appendable ob)" "length (blocks b) = Suc i"
    using loc(2) by linarith
  then show thesis
  proof cases
    case keep
    show ?thesis
    proof (rule that)
      show "bb_split_off at b = (Ok \<lparr>blocks = ob # drop (Suc i) (blocks b), idx = 0,
          growth = growth b\<rparr>, b\<lparr>blocks := take i (blocks b) @ [blk]\<rparr>)"
        using keep loc(1) by (simp add: bb_split_off_def l sp Let_def tk)
    qed (use self assms(1) sp_wf c2 in
        \<open>simp_all add: bb_wf_def content_def chain_wf_take_drop\<close>)
  next
    case drop
    show ?thesis
    proof (rule that)
      show "bb_split_off at b = (Ok \<lparr>blocks = drop (Suc i) (blocks b), idx = 0,
          growth = growth b\<rparr>, b\<lparr>blocks := take i (blocks b) @ [blk]\<rparr>)"
        using drop loc(1) by (simp add: bb_split_off_def l sp Let_def tk)
    qed (use self assms(1) c2 drop in
        \<open>simp_all add: bb_wf_def content_def chain_wf_take_drop\<close>)
  next
    case last
    have "(blocks b)[i := blk] = take i (blocks b) @ [blk]"
      using last(2) tk by simp
    with last have "bb_split_off at b =
        (Ok (bytebuf_with_growth (growth b)), b\<lparr>blocks := take i (blocks b) @ [blk]\<rparr>)"
      by (simp add: bb_split_off_def l sp Let_def)
    then show ?thesis
      by (rule that) (use self c2 last in \<open>simp_all add: bytebuf_with_growth_wf
          content_bytebuf_with_growth\<close>)
  qed
qed

lemma bb_drain_to_Ok:
  assumes "bb_wf b" and "idx b < length (blocks b)" and "at \<le> length (content b)"
  obtains d b' where "bb_drain_to at b = (Ok d, b')" and "bb_wf d" and "bb_wf b'"
    and "content d = take at (content b)" and "content b' = drop at (content b)"
proof -
  obtain other c where "bb_split_off at b = (Ok other, c)" "bb_wf other" "bb_wf c"
    "content c = take at (content b)" "content other = drop at (content b)"
    using bb_split_off_Ok [OF assms] by metis
  then show thesis by (intro that [of c other]) (simp_all add: bb_drain_to_def)
qed

lemma bb_drain_to_Err:
  assumes "bb_wf b" and "\<not> (idx b < length (blocks b) \<and> at \<le> length (content b))"
  shows "bb_drain_to at b = (Err IndexOutOfBounds, b)"
  using bb_split_off_Err [OF assms] by (simp add: bb_drain_to_def)

lemma compact_loop_step:
  assumes "bb_wf b" and "idx b < length (blocks b)" and "block_is_empty (blocks b ! idx b)"
  shows "bb_wf (b\<lparr>idx := idx b + 1\<rparr>)" and "content (b\<lparr>idx := idx b + 1\<rparr>) = content b"
  using assms by (auto simp: bb_wf_def content_def take_Suc_conv_app_nth drop_eq_nth_Cons)

lemma compact_loop_spec:
  assumes "bb_wf b"
  shows "bb_wf (compact_loop b) \<and> content (compact_loop b) = content b \<and>
    blocks (compact_loop b) = blocks b \<and> (idx (compact_loop b) < length (blocks b) \<longrightarrow>
    \<not> block_is_empty (blocks b ! idx (compact_loop b)))"
  using assms
proof (induction b rule: compact_loop.induct)
  case (1 b)
  show ?case
  proof (cases "idx b < length (blocks b) \<and> block_is_empty (blocks b ! idx b)")
    case True
    with "1.IH" "1.prems" compact_loop_step [of b] show ?thesis
      by (simp add: compact_loop.simps [of b])
  next
    case False
    with "1.prems" show ?thesis by (auto simp: compact_loop.simps [of b])
  qed
qed

lemma bb_compact_spec:
  assumes "bb_wf b"
  shows "bb_wf (bb_compact b)" and "content (bb_compact b) = content b" and "idx (bb_compact b) = 0"
    and "blocks (bb_compact b) = [] \<or> \<not> block_is_empty (hd (blocks (bb_compact b)))"
proof -
  let ?c = "compact_loop b"
  have *: "bb_wf ?c" "content ?c = content b" "blocks ?c = blocks b"
    "idx ?c < length (blocks b) \<Longrightarrow> \<not> block_is_empty (blocks b ! idx ?c)"
    using compact_loop_spec [OF assms] by simp_all
  have b: "blocks (bb_compact b) = drop (idx ?c) (blocks b)" "idx (bb_compact b) = 0"
    by (simp_all add: bb_compact_def Let_def *(3))
  show "bb_wf (bb_compact b)"
    using *(1) assms by (simp add: bb_wf_def b chain_wf_take_drop)
  show "content (bb_compact b) = content b"
    using *(2) by (simp add: content_def b *(3))
  show "idx (bb_compact b) = 0" by (fact b(2))
  show "blocks (bb_compact b) = [] \<or> \<not> block_is_empty (hd (blocks (bb_compact b)))"
    using *(4) by (auto simp: b hd_drop_conv_nth not_le)
qed

lemma skip_loop_spec:
  assumes "skip_loop s n i bs = (r, i', bs')" and "chain_wf bs" and "s \<le> n"
  shows "r = min n (s + length (chain_bytes bs)) \<and> chain_wf bs' \<and> length bs' = length bs \<and>
    i \<le> i' \<and> i' - i \<le> length bs \<and> (\<forall>blk\<in>set (take (i' - i) bs'). block_is_empty blk) \<and>
    chain_bytes (drop (i' - i) bs') = drop (n - s) (chain_bytes bs)"
  using assms
proof (induction s n i bs arbitrary: r i' bs' rule: skip_loop.induct)
  case (2 s n i blk bs)
  let ?m = "block_len blk"
  show ?case
  proof (cases "s + ?m \<ge> n")
    case True
    have eq: "read_pos blk + ?m - (s + ?m - n) = read_pos blk + (n - s)"
      using True "2.prems"(3) by simp
    have le: "n - s \<le> ?m" using True by simp
    have "r = n" "i' = i" "bs' = block_set_read_pos (read_pos blk + (n - s)) blk # bs"
      using "2.prems"(1) True by (auto simp only: skip_loop.simps Let_def if_True eq prod.inject)
    then show ?thesis
      using block_consume_wf [of blk "n - s"] block_consume_bytes [of "n - s" blk] "2.prems"(2,3)
        True le by simp
  next
    case False
    obtain r1 i1 bs1 where rec: "skip_loop (s + ?m) n (i + 1) bs = (r1, i1, bs1)"
      by (metis prod_cases3)
    have res: "r = r1" "i' = i1" "bs' = block_set_read_pos (write_pos blk) blk # bs1"
      using "2.prems"(1) False rec by (simp_all add: Let_def)
    have ih: "r1 = min n (s + ?m + length (chain_bytes bs))" "chain_wf bs1"
      "length bs1 = length bs" "i + 1 \<le> i1" "i1 - (i + 1) \<le> length bs"
      "\<forall>blk\<in>set (take (i1 - (i + 1)) bs1). block_is_empty blk"
      "chain_bytes (drop (i1 - (i + 1)) bs1) = drop (n - (s + ?m)) (chain_bytes bs)"
      using "2.IH" [OF refl refl False rec] "2.prems"(2) False by simp_all
    obtain k where k: "i1 = i + 1 + k" using ih(4) le_iff_add by blast
    have "drop (n - s) (chain_bytes (blk # bs)) = drop (n - (s + ?m)) (chain_bytes bs)"
      using False "2.prems"(2) by simp
    then show ?thesis
      using ih "2.prems"(2) by (auto simp: res k block_consume_all_wf)
  qed
qed simp

lemma bb_skip_spec:
  assumes "bb_wf b" and "bb_skip n b = (r, b')"
  shows "bb_wf b'" and "content b' = drop n (content b)" and "r = min n (length (content b))"
proof -
  obtain r1 i bs where s: "skip_loop 0 n (idx b) (drop (idx b) (blocks b)) = (r1, i, bs)"
    by (metis prod_cases3)
  have res: "r = r1" "b' = b\<lparr>blocks := take (idx b) (blocks b) @ bs, idx := i\<rparr>"
    using assms(2) s by (simp_all add: bb_skip_def)
  have *: "r1 = min n (length (content b))" "chain_wf bs"
    "idx b \<le> i" "i - idx b \<le> length (blocks b) - idx b" "length bs = length (blocks b) - idx b"
    "\<forall>blk\<in>set (take (i - idx b) bs). block_is_empty blk"
    "chain_bytes (drop (i - idx b) bs) = drop n (content b)"
    using skip_loop_spec [OF s] assms(1)
    by (simp_all add: bb_wf_def chain_wf_take_drop content_def)
  have i: "min (length (blocks b)) (idx b) = idx b"
    using assms(1) by (simp add: bb_wf_def)
  show "bb_wf b'"
    using * i assms(1) by (auto simp: res bb_wf_def chain_wf_take_drop)
  show "content b' = drop n (content b)"
    using * i by (simp add: res content_def [of "b\<lparr>blocks := _, idx := _\<rparr>"])
  show "r = min n (length (content b))"
    by (simp add: res *)
qed

end
