(* ===== verification/Buf_Iter.thy ===== *)
theory Buf_Iter
  imports ByteBuf
begin

text \<open>
  The cursors through which codecs see a \<open>ByteBuf\<close>: \<open>ReadIter\<close> (\<open>src/buf/read.rs\<close>, consumes),
  \<open>GetIter\<close> (\<open>get.rs\<close>, looks), \<open>SetIter\<close> (\<open>set.rs\<close>, overwrites), \<open>Appender\<close> (\<open>append.rs\<close>) and
  \<open>Prepender\<close> (\<open>prepend.rs\<close>), and the copy loops that every codec is built from. A \<open>ReadIter\<close>,
  an \<open>Appender\<close> and a \<open>Prepender\<close> hold nothing but \<open>&mut ByteBuf\<close>, so they are the buffer.

  The loops of \<open>append\<close> and \<open>prepend\<close> allocate until everything is written and do not end when
  the growth is 0 and there is no room: they are partial functions, \<open>None\<close> for not returning,
  and are proved to return when the growth is positive.
\<close>

section \<open>ReadIter\<close>

abbreviation bb_put :: "nat \<Rightarrow> block \<Rightarrow> bytebuf \<Rightarrow> bytebuf" where
  "bb_put i blk b \<equiv> b\<lparr>blocks := (blocks b)[i := blk]\<rparr>"

function read_next :: "bytebuf \<Rightarrow> nat option \<times> bytebuf" where
  "read_next b =
     (if idx b < length (blocks b) then
        (let i = idx b; inner = blocks b ! i
         in if \<not> block_is_empty inner then (Some i, b) else read_next (b\<lparr>idx := idx b + 1\<rparr>))
      else (None, b))"
  by pat_completeness auto
termination
  by (relation "measure (\<lambda>b. length (blocks b) - idx b)") auto

declare read_next.simps [simp del]

text \<open>A bound on the number of blocks still to visit, for the loops over a \<open>ReadIter\<close>.\<close>

definition read_fuel :: "bytebuf \<Rightarrow> nat" where
  "read_fuel b = (\<Sum>blk\<leftarrow>drop (idx b) (blocks b). if block_is_empty blk then 1 else 2)"

lemma read_next_shape:
  assumes "read_next b = (r, b')"
  shows "blocks b' = blocks b" and "growth b' = growth b" and "idx b \<le> idx b'"
    and "read_fuel b' \<le> read_fuel b"
    and "r = Some i \<Longrightarrow> i = idx b' \<and> i < length (blocks b) \<and> \<not> block_is_empty (blocks b ! i)"
    and "r = None \<Longrightarrow> length (blocks b) \<le> idx b'"
proof -
  have "blocks b' = blocks b \<and> growth b' = growth b \<and> idx b \<le> idx b' \<and> read_fuel b' \<le> read_fuel b \<and>
    (\<forall>i. r = Some i \<longrightarrow> i = idx b' \<and> i < length (blocks b) \<and> \<not> block_is_empty (blocks b ! i)) \<and>
    (r = None \<longrightarrow> length (blocks b) \<le> idx b')"
    using assms
  proof (induction b rule: read_next.induct)
    case (1 b)
    show ?case
    proof (cases "idx b < length (blocks b) \<and> block_is_empty (blocks b ! idx b)")
      case True
      then have f: "read_fuel (b\<lparr>idx := idx b + 1\<rparr>) \<le> read_fuel b"
        by (simp add: read_fuel_def drop_eq_nth_Cons)
      from True "1.prems" have "read_next (b\<lparr>idx := idx b + 1\<rparr>) = (r, b')"
        by (simp add: read_next.simps [of b])
      with "1.IH" True f show ?thesis by fastforce
    next
      case False
      with "1.prems" show ?thesis
        by (auto simp: read_next.simps [of b] split: if_splits)
    qed
  qed
  then show "blocks b' = blocks b" "growth b' = growth b" "idx b \<le> idx b'"
    "read_fuel b' \<le> read_fuel b"
    "r = Some i \<Longrightarrow> i = idx b' \<and> i < length (blocks b) \<and> \<not> block_is_empty (blocks b ! i)"
    "r = None \<Longrightarrow> length (blocks b) \<le> idx b'"
    by blast+
qed

lemma read_next_wf:
  assumes "read_next b = (r, b')" and "bb_wf b"
  shows "bb_wf b'" and "content b' = content b" and "r = None \<Longrightarrow> content b = []"
proof -
  have *: "bb_wf b' \<and> content b' = content b"
    using assms
  proof (induction b rule: read_next.induct)
    case (1 b)
    show ?case
    proof (cases "idx b < length (blocks b) \<and> block_is_empty (blocks b ! idx b)")
      case True
      then have "read_next (b\<lparr>idx := idx b + 1\<rparr>) = (r, b')"
        using "1.prems" by (simp add: read_next.simps [of b])
      with "1.IH" True "1.prems"(2) compact_loop_step [of b] show ?thesis by simp
    next
      case False
      with "1.prems" show ?thesis
        by (auto simp: read_next.simps [of b] split: if_splits)
    qed
  qed
  then show "bb_wf b'" "content b' = content b" by simp_all
  show "content b = []" if "r = None"
    using conjunct2 [OF *] read_next_shape(6) [OF assms(1) that] read_next_shape(1) [OF assms(1)]
    by (simp add: content_def)
qed

text \<open>A visited block whose bytes are all consumed lowers the bound.\<close>

lemma read_fuel_consume:
  assumes "i = idx b" and "i < length (blocks b)" and "\<not> block_is_empty (blocks b ! i)"
    and "block_is_empty blk"
  shows "read_fuel (bb_put i blk b) < read_fuel b"
  using assms by (simp add: read_fuel_def drop_list_update_same drop_eq_nth_Cons)

lemma read_fuel_loop:
  assumes "(Some i, b1) = read_next b"
  shows "read_fuel (bb_put i (block_set_read_pos (write_pos (blocks b1 ! i)) (blocks b1 ! i)) b1)
    < read_fuel b"
proof -
  note sh = read_next_shape [OF assms [symmetric]]
  have "read_fuel (bb_put i (block_set_read_pos (write_pos (blocks b1 ! i)) (blocks b1 ! i)) b1)
      < read_fuel b1"
    using sh(1) sh(5) [OF refl] by (intro read_fuel_consume) auto
  with sh(4) show ?thesis by simp
qed

text \<open>Consuming \<open>k\<close> bytes of the current block drops them from the content.\<close>

lemma content_at_idx:
  "idx b < length (blocks b) \<Longrightarrow>
     content b = as_bytes (blocks b ! idx b) @ chain_bytes (drop (Suc (idx b)) (blocks b))"
  by (simp add: content_def drop_eq_nth_Cons)

lemma consume_step:
  assumes "bb_wf b" and "i = idx b" and "i < length (blocks b)" and "blk = blocks b ! i"
    and "k \<le> block_len blk"
  shows "bb_wf (bb_put i (block_set_read_pos (read_pos blk + k) blk) b)"
    and "content (bb_put i (block_set_read_pos (read_pos blk + k) blk) b) = drop k (content b)"
proof -
  have w: "block_wf blk" using assms by (simp add: bb_wf_nth)
  show "bb_wf (bb_put i (block_set_read_pos (read_pos blk + k) blk) b)"
    using assms w by (intro bb_wf_update) (simp_all add: block_consume_wf)
  show "content (bb_put i (block_set_read_pos (read_pos blk + k) blk) b) = drop k (content b)"
    using assms w content_at_idx [of b] content_update [of b i]
    by (simp add: block_consume_bytes)
qed

lemma consume_all_eq:
  "block_wf blk \<Longrightarrow> block_set_read_pos (write_pos blk) blk =
     block_set_read_pos (read_pos blk + block_len blk) blk"
  by (simp add: block_wf_def block_len_def)

text \<open>
  The \<open>for\<close> loop of \<open>u8s::read_exact\<close> and of the scalar codecs' \<open>read\<close>: copy \<open>n\<close> bytes to the
  destination, consuming them. \<open>None\<close> is the exit of the loop, which the callers turn into
  \<open>Err(Error::Underflow)\<close>.
\<close>

function copy_read :: "nat \<Rightarrow> u8 list \<Rightarrow> bytebuf \<Rightarrow> u8 list option \<times> bytebuf" where
  "copy_read n dst b =
     (case read_next b of
        (None, b1) \<Rightarrow> (None, b1)
      | (Some i, b1) \<Rightarrow>
          (let blk = blocks b1 ! i; off = read_pos blk; len = block_len blk
           in if len \<ge> n
              then (Some (dst @ as_bytes_range off n blk), bb_put i (block_set_read_pos (off + n) blk) b1)
              else copy_read (n - len) (dst @ as_bytes_range off len blk)
                     (bb_put i (block_set_read_pos (write_pos blk) blk) b1)))"
  by pat_completeness auto
termination
  by (relation "measure (\<lambda>(n, dst, b). read_fuel b)") (auto dest: read_fuel_loop)

declare copy_read.simps [simp del]

lemma copy_read_spec:
  assumes "bb_wf b" and "copy_read n dst b = (r, b')" and "0 < n"
  shows "bb_wf b' \<and> content b' = drop n (content b) \<and> growth b' = growth b \<and>
    r = (if n \<le> length (content b) then Some (dst @ take n (content b)) else None) \<and>
    (r \<noteq> None \<longrightarrow> idx b' < length (blocks b'))"
  using assms
proof (induction n dst b arbitrary: r b' rule: copy_read.induct)
  case (1 n dst b)
  obtain q b1 where rn: "read_next b = (q, b1)" by fastforce
  note sh = read_next_shape [OF rn] and wf = read_next_wf [OF rn "1.prems"(1)]
  show ?case
  proof (cases q)
    case None
    with "1.prems" rn wf sh show ?thesis
      by (auto simp: copy_read.simps [of n dst b])
  next
    case (Some i)
    let ?blk = "blocks b1 ! i"
    let ?len = "block_len ?blk"
    have i: "i = idx b1" "i < length (blocks b1)" "\<not> block_is_empty ?blk"
      using sh(5) [OF Some] unfolding sh(1) by auto
    have w: "block_wf ?blk" using wf(1) i(2) by (rule bb_wf_nth)
    note step = consume_step [OF wf(1) i(1,2) refl]
    have c: "content b = as_bytes ?blk @ chain_bytes (drop (Suc i) (blocks b1))"
      using content_at_idx [of b1] i wf(2) by simp
    have len: "length (as_bytes ?blk) = ?len" using w by simp
    have bytes: "as_bytes_range (read_pos ?blk) k ?blk = take k (as_bytes ?blk)" if "k \<le> ?len" for k
      using that by (simp add: as_bytes_range_def as_bytes_def mem_bytes_take [symmetric])
    show ?thesis
    proof (cases "?len \<ge> n")
      case True
      then have "r = Some (dst @ take n (content b))"
        "b' = bb_put i (block_set_read_pos (read_pos ?blk + n) ?blk) b1"
        using "1.prems"(2) rn Some bytes c len
        by (simp_all add: copy_read.simps [of n dst b] Let_def)
      then show ?thesis
        using True step [of n] wf(2) c len sh(2) i by simp
    next
      case False
      let ?b2 = "bb_put i (block_set_read_pos (write_pos ?blk) ?blk) b1"
      have rec: "copy_read (n - ?len) (dst @ as_bytes ?blk) ?b2 = (r, b')"
        using "1.prems"(2) rn Some bytes [of ?len] len False
        by (simp add: copy_read.simps [of n dst b] Let_def)
      have b2: "bb_wf ?b2" "content ?b2 = drop ?len (content b)"
        using step [of ?len] wf(2) by (simp_all add: consume_all_eq [OF w])
      have "bb_wf b' \<and> content b' = drop (n - ?len) (content ?b2) \<and> growth b' = growth ?b2 \<and>
        r = (if n - ?len \<le> length (content ?b2)
             then Some ((dst @ as_bytes ?blk) @ take (n - ?len) (content ?b2)) else None) \<and>
        (r \<noteq> None \<longrightarrow> idx b' < length (blocks b'))"
        using "1.IH" [OF rn [symmetric] Some refl refl refl False] b2(1) rec False
          bytes [of ?len] len by simp
      then show ?thesis
        using b2(2) False c len sh(2) by auto
    qed
  qed
qed

section \<open>GetIter and SetIter\<close>

record get_iter =
  gi_blocks :: "block list"
  gi_idx :: nat
  gi_init_pos :: nat

record get_block =
  gb_inner :: block
  gb_get_pos :: nat

record set_iter =
  si_blocks :: "block list"
  si_idx :: nat
  si_init_pos :: nat

text \<open>
  The loop of \<open>next\<close>, the same in \<open>get.rs\<close> and \<open>set.rs\<close>: the index of the block found and the
  position where its bytes start, and the new \<open>idx\<close> and \<open>init_pos\<close>.
\<close>

function chain_next :: "block list \<Rightarrow> nat \<Rightarrow> nat \<Rightarrow> (nat \<times> nat) option \<times> nat \<times> nat" where
  "chain_next bs i init_pos =
     (if i < length bs then
        (let inner = bs ! i in
         if init_pos > 0 then
           (if block_len inner > init_pos then (Some (i, read_pos inner + init_pos), i + 1, 0)
            else chain_next bs (i + 1) 0)
         else if \<not> block_is_empty inner then (Some (i, read_pos inner), i + 1, init_pos)
         else chain_next bs (i + 1) init_pos)
      else (None, i, init_pos))"
  by pat_completeness auto
termination
  by (relation "measure (\<lambda>(bs, i, init_pos). length bs - i)") auto

declare chain_next.simps [simp del]

definition get_next :: "get_iter \<Rightarrow> get_block option \<times> get_iter" where
  "get_next it =
     (case chain_next (gi_blocks it) (gi_idx it) (gi_init_pos it) of
        (r, i, p) \<Rightarrow>
          (map_option (\<lambda>(j, pos). \<lparr>gb_inner = gi_blocks it ! j, gb_get_pos = pos\<rparr>) r,
           it\<lparr>gi_idx := i, gi_init_pos := p\<rparr>))"

definition set_next :: "set_iter \<Rightarrow> (nat \<times> nat) option \<times> set_iter" where
  "set_next it =
     (case chain_next (si_blocks it) (si_idx it) (si_init_pos it) of
        (r, i, p) \<Rightarrow> (r, it\<lparr>si_idx := i, si_init_pos := p\<rparr>))"

definition gb_len :: "get_block \<Rightarrow> nat" where
  "gb_len gb = write_pos (gb_inner gb) - gb_get_pos gb"

text \<open>\<open>GetIter::len\<close>; \<open>get_unchecked(self.idx)\<close> is out of range when there is no block left.\<close>

definition get_iter_len :: "get_iter \<Rightarrow> nat" where
  "get_iter_len it =
     (let init_val = block_len (gi_blocks it ! gi_idx it) - gi_init_pos it
      in fold (\<lambda>blk remaining. remaining + block_len blk) (drop (gi_idx it + 1) (gi_blocks it)) 0
         + init_val)"

text \<open>The position in the chain's bytes at which an iterator stands.\<close>

definition iter_pos :: "block list \<Rightarrow> nat \<Rightarrow> nat \<Rightarrow> nat" where
  "iter_pos bs i init_pos = length (chain_bytes (take i bs)) +
     (if i < length bs then min init_pos (block_len (bs ! i)) else 0)"

lemma chain_bytes_take_Suc:
  "i < length bs \<Longrightarrow> chain_bytes (take (Suc i) bs) = chain_bytes (take i bs) @ as_bytes (bs ! i)"
  by (simp add: take_Suc_conv_app_nth)

lemma iter_pos_skip:
  assumes "chain_wf bs" and "i < length bs"
    and "block_len (bs ! i) \<le> p \<or> block_is_empty (bs ! i)"
  shows "iter_pos bs i p = iter_pos bs (Suc i) 0"
proof -
  have "min p (block_len (bs ! i)) = block_len (bs ! i)"
    using assms(3) block_len_0_iff [OF chain_wf_nth [OF assms(1,2)]] by auto
  then show ?thesis
    using assms(2) chain_wf_nth [OF assms(1,2)] by (simp add: iter_pos_def chain_bytes_take_Suc)
qed

lemma chain_next_spec:
  assumes "chain_next bs i p = (r, i', p')" and "chain_wf bs"
  shows "(case r of
      Some (j, pos) \<Rightarrow> i \<le> j \<and> j < length bs \<and> i' = Suc j \<and> p' = 0 \<and>
        (\<exists>k < block_len (bs ! j). pos = read_pos (bs ! j) + k \<and>
           iter_pos bs i p = length (chain_bytes (take j bs)) + k)
    | None \<Rightarrow> iter_pos bs i p = length (chain_bytes bs) \<and> length bs \<le> i')"
  using assms
proof (induction bs i p rule: chain_next.induct)
  case (1 bs i p)
  show ?case
  proof (cases "i < length bs")
    case False
    with "1.prems" show ?thesis
      by (auto simp: chain_next.simps [of bs i p] iter_pos_def)
  next
    case True
    have w: "block_wf (bs ! i)" using "1.prems"(2) True by (rule chain_wf_nth)
    consider (mid) "p > 0" "block_len (bs ! i) > p" | (skip1) "p > 0" "block_len (bs ! i) \<le> p"
      | (hit) "p = 0" "\<not> block_is_empty (bs ! i)" | (skip2) "p = 0" "block_is_empty (bs ! i)"
      by fastforce
    then show ?thesis
    proof cases
      case mid
      with "1.prems" True have "r = Some (i, read_pos (bs ! i) + p)" "i' = Suc i" "p' = 0"
        by (simp_all add: chain_next.simps [of bs i p])
      with mid True show ?thesis by (auto simp: iter_pos_def)
    next
      case skip1
      with "1.prems"(1) True have "chain_next bs (i + 1) 0 = (r, i', p')"
        by (simp add: chain_next.simps [of bs i p])
      with "1.IH"(1) True skip1 "1.prems"(2) iter_pos_skip [of bs i p] show ?thesis
        by (auto split: option.splits)
    next
      case hit
      then have "0 < block_len (bs ! i)" using w block_len_0_iff by blast
      moreover have "r = Some (i, read_pos (bs ! i))" "i' = Suc i" "p' = 0"
        using "1.prems"(1) True hit by (simp_all add: chain_next.simps [of bs i 0])
      ultimately show ?thesis using True hit by (auto simp: iter_pos_def)
    next
      case skip2
      with "1.prems"(1) True have "chain_next bs (i + 1) 0 = (r, i', p')"
        by (simp add: chain_next.simps [of bs i 0])
      with "1.IH"(2) True skip2 "1.prems"(2) iter_pos_skip [of bs i p] show ?thesis
        by (auto split: option.splits)
    qed
  qed
qed

lemma chain_next_decreases:
  "chain_next bs i p = (Some x, i', p') \<Longrightarrow> length bs - i' < length bs - i"
proof (induction bs i p rule: chain_next.induct)
  case (1 bs i p)
  then have i: "i < length bs"
    by (cases "i < length bs") (simp_all add: chain_next.simps [of bs i p])
  consider (rec0) "chain_next bs (i + 1) 0 = (Some x, i', p')" "0 < p" "\<not> p < block_len (bs ! i)"
    | (rec) "chain_next bs (i + 1) p = (Some x, i', p')" "p = 0" "block_is_empty (bs ! i)"
    | (stop) "i' = i + 1"
  proof -
    have "(if 0 < p then if p < block_len (bs ! i) then (Some (i, read_pos (bs ! i) + p), i + 1, 0)
             else chain_next bs (i + 1) 0
           else if \<not> block_is_empty (bs ! i) then (Some (i, read_pos (bs ! i)), i + 1, p)
             else chain_next bs (i + 1) p) = (Some x, i', p')"
      using "1.prems" i by (simp only: chain_next.simps [of bs i p] Let_def if_True simp_thms)
    with rec0 rec stop show thesis by (auto simp del: One_nat_def Suc_eq_plus1 split: if_splits)
  qed
  then show ?case
  proof cases
    case rec0
    with "1.IH"(1) i show ?thesis by fastforce
  next
    case rec
    with "1.IH"(2) i show ?thesis by fastforce
  next
    case stop
    with i show ?thesis by simp
  qed
qed

lemma get_next_decreases:
  "(Some gb, it1) = get_next it \<Longrightarrow>
     length (gi_blocks it1) - gi_idx it1 < length (gi_blocks it) - gi_idx it"
  by (auto simp: get_next_def dest: chain_next_decreases split: prod.splits
      dest!: sym [of "Some gb"])

lemma set_next_decreases:
  "(Some x, it1) = set_next it \<Longrightarrow>
     length (si_blocks it1) - si_idx it1 < length (si_blocks it) - si_idx it"
  by (auto simp: set_next_def dest: chain_next_decreases split: prod.splits)

subsection \<open>The copy loop of \<open>get\<close>\<close>

function copy_get :: "nat \<Rightarrow> u8 list \<Rightarrow> get_iter \<Rightarrow> u8 list option" where
  "copy_get n dst it =
     (case get_next it of
        (None, it1) \<Rightarrow> None
      | (Some gb, it1) \<Rightarrow>
          (let off = gb_get_pos gb; len = gb_len gb
           in if len \<ge> n then Some (dst @ as_bytes_range off n (gb_inner gb))
              else copy_get (n - len) (dst @ as_bytes_range off len (gb_inner gb)) it1))"
  by pat_completeness auto
termination
  by (relation "measure (\<lambda>(n, dst, it). length (gi_blocks it) - gi_idx it)")
    (auto dest: get_next_decreases)

declare copy_get.simps [simp del]

lemma block_suffix_bytes:
  assumes "block_wf blk" and "k + n \<le> block_len blk"
  shows "as_bytes_range (read_pos blk + k) n blk = take n (drop k (as_bytes blk))"
proof -
  have "mem_bytes (mem blk) (read_pos blk + k) n =
      take n (mem_bytes (mem blk) (read_pos blk + k) (block_len blk - k))"
    using assms(2) by (intro mem_bytes_take) simp
  then show ?thesis
    by (simp add: as_bytes_range_def as_bytes_def mem_bytes_drop)
qed

text \<open>The bytes an iterator has still to give.\<close>

definition gi_rest :: "get_iter \<Rightarrow> u8 list" where
  "gi_rest it = drop (iter_pos (gi_blocks it) (gi_idx it) (gi_init_pos it)) (chain_bytes (gi_blocks it))"

lemma get_next_None:
  assumes "get_next it = (None, it1)" and "chain_wf (gi_blocks it)"
  shows "gi_rest it = []"
  using assms chain_next_spec [OF _ assms(2)]
  by (fastforce simp: get_next_def gi_rest_def split: prod.splits)

lemma get_next_Some:
  assumes "get_next it = (Some gb, it1)" and "chain_wf (gi_blocks it)"
  shows "gi_blocks it1 = gi_blocks it" and "0 < gb_len gb"
    and "n \<le> gb_len gb \<Longrightarrow> as_bytes_range (gb_get_pos gb) n (gb_inner gb) = take n (gi_rest it)"
    and "gi_rest it1 = drop (gb_len gb) (gi_rest it)" and "gb_len gb \<le> length (gi_rest it)"
proof -
  let ?bs = "gi_blocks it"
  obtain j pos i' p' where cn: "chain_next ?bs (gi_idx it) (gi_init_pos it) = (Some (j, pos), i', p')"
    and gb: "gb = \<lparr>gb_inner = ?bs ! j, gb_get_pos = pos\<rparr>"
    and it1: "it1 = it\<lparr>gi_idx := i', gi_init_pos := p'\<rparr>"
    using assms(1) by (auto simp: get_next_def split: prod.splits)
  let ?blk = "?bs ! j"
  obtain k where j: "j < length ?bs" "i' = Suc j" "p' = 0" and k: "k < block_len ?blk"
    "pos = read_pos ?blk + k"
    "iter_pos ?bs (gi_idx it) (gi_init_pos it) = length (chain_bytes (take j ?bs)) + k"
    using chain_next_spec [OF cn assms(2)] by auto
  have w: "block_wf ?blk" using assms(2) j(1) by (rule chain_wf_nth)
  have len: "gb_len gb = block_len ?blk - k"
    by (simp add: gb gb_len_def k block_len_def diff_diff_left)
  let ?post = "chain_bytes (drop (Suc j) ?bs)"
  have rest: "gi_rest it = drop k (as_bytes ?blk) @ ?post"
    using k chain_bytes_split [OF j(1)] w by (simp add: gi_rest_def)
  have dl: "length (drop k (as_bytes ?blk)) = gb_len gb" using w len by simp
  have "chain_bytes ?bs = chain_bytes (take (Suc j) ?bs) @ ?post"
    by (metis append_take_drop_id chain_bytes_simps(3))
  then have post: "gi_rest it1 = ?post" by (simp add: gi_rest_def it1 iter_pos_def j)
  show "gi_blocks it1 = ?bs" by (simp add: it1)
  show "0 < gb_len gb" using k(1) len by simp
  show "gi_rest it1 = drop (gb_len gb) (gi_rest it)" using post rest dl by simp
  show "gb_len gb \<le> length (gi_rest it)" using rest dl by simp
  show "as_bytes_range (gb_get_pos gb) n (gb_inner gb) = take n (gi_rest it)" if "n \<le> gb_len gb"
    using block_suffix_bytes [OF w, of k n] that k len dl by (simp add: gb rest)
qed

lemma copy_get_spec:
  assumes "chain_wf (gi_blocks it)" and "0 < n"
  shows "copy_get n dst it =
    (if n \<le> length (gi_rest it) then Some (dst @ take n (gi_rest it)) else None)"
  using assms
proof (induction n dst it rule: copy_get.induct)
  case (1 n dst it)
  obtain r it1 where gn: "get_next it = (r, it1)" by fastforce
  show ?case
  proof (cases r)
    case None
    with gn get_next_None [of it it1] "1.prems" show ?thesis
      by (simp add: copy_get.simps [of n dst it])
  next
    case (Some gb)
    note spec = get_next_Some [OF gn [unfolded Some] "1.prems"(1)]
    show ?thesis
    proof (cases "gb_len gb \<ge> n")
      case True
      then show ?thesis
        using spec(3) [of n] spec(5) by (simp add: copy_get.simps [of n dst it] gn Some Let_def)
    next
      case False
      let ?dst = "dst @ as_bytes_range (gb_get_pos gb) (gb_len gb) (gb_inner gb)"
      have "copy_get n dst it = copy_get (n - gb_len gb) ?dst it1"
        using False by (simp add: copy_get.simps [of n dst it] gn Some Let_def)
      moreover have "\<dots> = (if n - gb_len gb \<le> length (gi_rest it1)
          then Some (?dst @ take (n - gb_len gb) (gi_rest it1)) else None)"
        using "1.IH" [OF gn [symmetric] Some refl refl False] "1.prems"(1) False spec(1) by simp
      moreover have "take (gb_len gb) (gi_rest it) @ take (n - gb_len gb) (gi_rest it1) = take n (gi_rest it)"
        using False spec(4) take_add [of "gb_len gb" "n - gb_len gb" "gi_rest it"] by simp
      ultimately show ?thesis
        using False spec(3) [of "gb_len gb"] spec(4,5) by (auto split: if_splits)
    qed
  qed
qed

subsection \<open>The copy loop of \<open>set\<close>\<close>

function copy_set :: "u8 list \<Rightarrow> set_iter \<Rightarrow> bool \<times> set_iter" where
  "copy_set src it =
     (case set_next it of
        (None, it1) \<Rightarrow> (False, it1)
      | (Some (i, off), it1) \<Rightarrow>
          (let blk = si_blocks it1 ! i; len = write_pos blk - off
           in if len \<ge> length src
              then (True, it1\<lparr>si_blocks := (si_blocks it1)[i := block_write off src blk]\<rparr>)
              else copy_set (drop len src)
                     (it1\<lparr>si_blocks := (si_blocks it1)[i := block_write off (take len src) blk]\<rparr>)))"
  by pat_completeness auto
termination
  by (relation "measure (\<lambda>(src, it). length (si_blocks it) - si_idx it)")
    (auto dest: set_next_decreases)

declare copy_set.simps [simp del]

text \<open>Writing \<open>src\<close> over a list at position \<open>p\<close>, as far as the list goes.\<close>

definition overlay :: "nat \<Rightarrow> 'a list \<Rightarrow> 'a list \<Rightarrow> 'a list" where
  "overlay p src xs = take p xs @ take (length xs - p) src @ drop (p + length src) xs"

lemma overlay_fits: "p + length src \<le> length xs \<Longrightarrow>
    overlay p src xs = take p xs @ src @ drop (p + length src) xs"
  by (simp add: overlay_def)

lemma length_overlay [simp]: "p \<le> length xs \<Longrightarrow> length (overlay p src xs) = length xs"
  by (auto simp: overlay_def min_def)

text \<open>Overwriting part of one block of a chain.\<close>

lemma chain_overwrite:
  assumes "chain_wf bs" and "j < length bs" and "k + length src \<le> block_len (bs ! j)"
  shows "chain_wf (bs[j := block_write (read_pos (bs ! j) + k) src (bs ! j)])"
    and "chain_bytes (bs[j := block_write (read_pos (bs ! j) + k) src (bs ! j)]) =
      overlay (length (chain_bytes (take j bs)) + k) src (chain_bytes bs)"
proof -
  let ?blk = "bs ! j" and ?blk' = "block_write (read_pos (bs ! j) + k) src (bs ! j)"
  have w: "block_wf ?blk" using assms(1,2) by (rule chain_wf_nth)
  have "read_pos ?blk + k + length src \<le> write_pos ?blk"
    using assms(3) block_wf_pos(1) [OF w] by (simp add: block_len_def)
  then have w': "block_wf ?blk'" using w by (intro block_overwrite_wf) simp_all
  then show "chain_wf (bs[j := ?blk'])" using assms(1) by (intro chain_wf_update)
  have "chain_bytes (bs[j := ?blk']) =
      chain_bytes (take j bs) @ as_bytes ?blk' @ chain_bytes (drop (Suc j) bs)"
    using assms(2) chain_bytes_split [of j "bs[j := ?blk']"] by simp
  then show "chain_bytes (bs[j := ?blk']) =
      overlay (length (chain_bytes (take j bs)) + k) src (chain_bytes bs)"
    using chain_bytes_split [OF assms(2)] assms(3) w block_overwrite_bytes [OF w assms(3)]
    by (simp add: overlay_fits)
qed

lemma overlay_overlay:
  assumes "p + length xs \<le> length zs"
  shows "overlay (p + length xs) ys (overlay p xs zs) = overlay p (xs @ ys) zs"
proof (cases "p + length xs < length zs")
  case True
  then show ?thesis using assms by (simp add: overlay_def ac_simps)
next
  case False
  then have "length zs = p + length xs" using assms by simp
  then show ?thesis by (simp add: overlay_def)
qed

lemma copy_set_spec:
  assumes "chain_wf (si_blocks it)" and "copy_set src it = (ok, it')"
    and "p = iter_pos (si_blocks it) (si_idx it) (si_init_pos it)"
    and "src \<noteq> []"
  shows "chain_wf (si_blocks it') \<and> length (si_blocks it') = length (si_blocks it) \<and>
    chain_bytes (si_blocks it') = overlay p src (chain_bytes (si_blocks it)) \<and>
    (ok \<longleftrightarrow> p + length src \<le> length (chain_bytes (si_blocks it)))"
  using assms
proof (induction src it arbitrary: ok it' p rule: copy_set.induct)
  case (1 src it)
  let ?bs = "si_blocks it"
  obtain r i' p' where cn: "chain_next ?bs (si_idx it) (si_init_pos it) = (r, i', p')"
    by (metis prod_cases3)
  note spec = chain_next_spec [OF cn "1.prems"(1)]
  show ?case
  proof (cases r)
    case None
    then have "ok = False" "si_blocks it' = ?bs"
      using "1.prems"(2) cn by (auto simp: copy_set.simps [of src it] set_next_def)
    with None spec "1.prems" show ?thesis by (simp add: overlay_def)
  next
    case (Some x)
    obtain j pos where x: "x = (j, pos)" by fastforce
    let ?blk = "?bs ! j"
    obtain k where j: "j < length ?bs" "i' = Suc j" "p' = 0" and k: "k < block_len ?blk"
      "pos = read_pos ?blk + k" "p = length (chain_bytes (take j ?bs)) + k"
      using spec Some x "1.prems"(3) by auto
    have w: "block_wf ?blk" using "1.prems"(1) j(1) by (rule chain_wf_nth)
    have sn: "set_next it = (Some (j, pos), it\<lparr>si_idx := i', si_init_pos := p'\<rparr>)"
      by (simp add: set_next_def cn Some x)
    let ?len = "write_pos ?blk - pos"
    have len: "?len = block_len ?blk - k" by (simp add: k block_len_def diff_diff_left)
    have total: "length (chain_bytes ?bs) = length (chain_bytes (take j ?bs)) + block_len ?blk
        + length (chain_bytes (drop (Suc j) ?bs))"
      using chain_bytes_split [OF j(1)] w by simp
    show ?thesis
    proof (cases "?len \<ge> length src")
      case True
      then have "ok" "si_blocks it' = ?bs[j := block_write pos src ?blk]"
        using "1.prems"(2) by (auto simp: copy_set.simps [of src it] sn Let_def)
      then show ?thesis
        using chain_overwrite [OF "1.prems"(1) j(1), of k src] True len k total by auto
    next
      case False
      let ?it2 = "it\<lparr>si_idx := i', si_init_pos := p',
        si_blocks := ?bs[j := block_write pos (take ?len src) ?blk]\<rparr>"
      let ?bs2 = "si_blocks ?it2"
      have rec: "copy_set (drop ?len src) ?it2 = (ok, it')"
        using "1.prems"(2) False by (simp add: copy_set.simps [of src it] sn Let_def)
      have lt: "length (take ?len src) = ?len" using False by simp
      have ow: "chain_wf ?bs2" "chain_bytes ?bs2 = overlay p (take ?len src) (chain_bytes ?bs)"
        using chain_overwrite [OF "1.prems"(1) j(1), of k "take ?len src"] lt len k by simp_all
      have p2: "iter_pos ?bs2 (si_idx ?it2) (si_init_pos ?it2) = p + ?len"
      proof -
        have "block_wf (?bs2 ! j)" using ow(1) j(1) by (intro chain_wf_nth) simp_all
        moreover have "take (Suc j) ?bs2 = take j ?bs @ [?bs2 ! j]"
          using j(1) by (simp add: take_Suc_conv_app_nth)
        moreover have "block_len (?bs2 ! j) = block_len ?blk"
          using j(1) by simp
        ultimately show ?thesis
          using j k len by (simp add: iter_pos_def)
      qed
      have "chain_wf (si_blocks it') \<and> length (si_blocks it') = length ?bs2 \<and>
        chain_bytes (si_blocks it') = overlay (p + ?len) (drop ?len src) (chain_bytes ?bs2) \<and>
        (ok \<longleftrightarrow> p + ?len + length (drop ?len src) \<le> length (chain_bytes ?bs2))"
        using "1.IH" [OF sn [symmetric] refl refl refl refl, of ok it' "p + ?len"]
          ow(1) rec p2 False by simp
      moreover have "overlay (p + ?len) (drop ?len src) (chain_bytes ?bs2) =
          overlay p src (chain_bytes ?bs)"
        using overlay_overlay [of p "take ?len src" "chain_bytes ?bs" "drop ?len src"] lt ow(2)
          total k len by simp
      moreover have "length (chain_bytes ?bs2) = length (chain_bytes ?bs)"
        using ow(2) total k by simp
      ultimately show ?thesis using False by auto
    qed
  qed
qed

end
