(* ===== verification/Buf_Write.thy ===== *)
theory Buf_Write
  imports Buf_Iter
begin

text \<open>
  Growing a \<open>ByteBuf\<close> at its two ends: the write loops over an \<open>Appender\<close>
  (\<open>src/buf/append.rs\<close>) and a \<open>Prepender\<close> (\<open>src/buf/prepend.rs\<close>) that all codecs share, and
  the operations of \<open>src/buf/mod.rs\<close> that put whole vectors at either end.

  The loops allocate a block of the buffer's growth until everything is written, so they do
  not end when the growth is 0 and there is no room: they are partial functions, \<open>None\<close> for
  not returning, and are proved to return for every positive growth.
\<close>

section \<open>The write loops\<close>

abbreviation bb_put_last :: "block \<Rightarrow> bytebuf \<Rightarrow> bytebuf" where
  "bb_put_last blk b \<equiv> b\<lparr>blocks := butlast (blocks b) @ [blk]\<rparr>"

abbreviation bb_put_first :: "block \<Rightarrow> bytebuf \<Rightarrow> bytebuf" where
  "bb_put_first blk b \<equiv> b\<lparr>blocks := blk # tl (blocks b)\<rparr>"

partial_function (option) copy_append :: "u8 list \<Rightarrow> bytebuf \<Rightarrow> bytebuf option" where
  "copy_append src b =
     (if blocks b = [] then copy_append src (bb_append_block 0 b)
      else let blk = last (blocks b); off = write_pos blk; room = appendable blk
           in if room \<ge> length src
              then Some (bb_put_last (block_set_write_pos (off + length src) (block_write off src blk)) b)
              else copy_append (drop room src)
                     (bb_append_block 0
                       (bb_put_last (block_set_write_pos (cap blk)
                         (block_write off (take room src) blk)) b)))"

partial_function (option) copy_prepend :: "u8 list \<Rightarrow> bytebuf \<Rightarrow> bytebuf option" where
  "copy_prepend src b =
     (if blocks b = [] then copy_prepend src (bb_prepend_block 0 b)
      else let blk = hd (blocks b); room = prependable blk; n = length src
           in if room \<ge> n
              then Some (bb_put_first (block_set_read_pos (room - n) (block_write (room - n) src blk)) b)
              else copy_prepend (take (n - room) src)
                     (bb_prepend_block 0
                       (bb_put_first (block_set_read_pos 0
                         (block_write 0 (drop (n - room) src) blk)) b)))"

section \<open>Appending\<close>

text \<open>
  Where appended bytes are seen: the last block is one of those still to be read, or it takes
  no byte. It fails only in a buffer that a failed read or an over-long \<open>skip\<close> has left with
  \<open>idx\<close> behind its last block.
\<close>

definition tail_live :: "bytebuf \<Rightarrow> bool" where
  "tail_live b \<longleftrightarrow> idx b < length (blocks b) \<or> blocks b = [] \<or> appendable (last (blocks b)) = 0"

definition tail_room :: "bytebuf \<Rightarrow> nat" where
  "tail_room b = (if blocks b = [] then 0 else appendable (last (blocks b)))"

lemma bb_put_last_spec:
  assumes "bb_wf b" and "blocks b \<noteq> []" and "block_wf blk"
    and "idx b < length (blocks b) \<or> block_is_empty blk \<and> block_is_empty (last (blocks b))"
    and "as_bytes blk = as_bytes (last (blocks b)) @ src"
  shows "bb_wf (bb_put_last blk b)" and "content (bb_put_last blk b) = content b @ src"
proof -
  have split: "blocks b = butlast (blocks b) @ [last (blocks b)]" using assms(2) by simp
  have w: "chain_wf (butlast (blocks b))"
    by (metis assms(1) bb_wf_chain chain_wf_simps(3) split)
  consider (live) "idx b \<le> length (butlast (blocks b))"
    | (past) "idx b = length (blocks b)" "block_is_empty blk" "block_is_empty (last (blocks b))"
    using assms(1,2,4) by (force simp: bb_wf_def)
  then have "bb_wf (bb_put_last blk b) \<and> content (bb_put_last blk b) = content b @ src"
  proof cases
    case live
    have "take (idx b) (blocks b) = take (idx b) (butlast (blocks b))"
      using live by (subst split) simp
    moreover have "content b =
        chain_bytes (drop (idx b) (butlast (blocks b))) @ as_bytes (last (blocks b))"
      unfolding content_def using live by (subst split) simp
    moreover have "content (bb_put_last blk b) =
        chain_bytes (drop (idx b) (butlast (blocks b))) @ as_bytes blk"
      unfolding content_def using live by simp
    ultimately show ?thesis using assms(1,3,5) w live by (auto simp: bb_wf_def)
  next
    case past
    have "set (butlast (blocks b)) \<subseteq> set (take (idx b) (blocks b))"
      using past(1) by (auto dest: in_set_butlastD)
    moreover have "length (blocks b) - (length (blocks b) - Suc 0) = Suc 0"
      using assms(2) by (cases "blocks b") simp_all
    ultimately show ?thesis
      using assms past w by (auto simp: bb_wf_def content_def)
  qed
  then show "bb_wf (bb_put_last blk b)" "content (bb_put_last blk b) = content b @ src"
    by simp_all
qed

lemma put_appended_spec:
  assumes "bb_wf b" and "blocks b \<noteq> []" and "tail_live b"
    and "length src \<le> appendable (last (blocks b))"
    and "b' = bb_put_last (block_set_write_pos (write_pos (last (blocks b)) + length src)
      (block_write (write_pos (last (blocks b))) src (last (blocks b)))) b"
  shows "bb_wf b' \<and> content b' = content b @ src \<and> tail_live b' \<and> idx b' = idx b \<and>
    growth b' = growth b \<and> blocks b' \<noteq> []"
proof -
  let ?l = "last (blocks b)"
  have w: "block_wf ?l"
    using assms(1,2) by (simp add: bb_wf_def chain_wf_def)
  have last_done: "block_is_empty ?l" if "\<not> idx b < length (blocks b)"
  proof -
    have "take (idx b) (blocks b) = blocks b" using that by simp
    then show ?thesis using assms(1,2) by (metis bb_wf_def last_in_set)
  qed
  show ?thesis
  proof (cases "idx b < length (blocks b)")
    case True
    then show ?thesis
      unfolding assms(5) using bb_put_last_spec [OF assms(1,2)] block_append_wf [OF w assms(4)]
        block_append_bytes [OF w assms(4)] assms(2)
      by (simp add: tail_live_def)
  next
    case False
    then have "appendable ?l = 0" using assms(2,3) by (auto simp: tail_live_def)
    moreover then have "src = []" using assms(4) by simp
    ultimately show ?thesis
      unfolding assms(5) using assms(1,2,3)
      by (simp add: block_write_def mem_write_def block_set_write_pos_def)
  qed
qed

lemma bb_append_block_live:
  assumes "bb_wf b" and "0 < growth b"
  shows "tail_live (bb_append_block 0 b)" and "tail_room (bb_append_block 0 b) = growth b"
  using assms
  by (auto simp: tail_live_def tail_room_def bb_append_block_def bb_wf_def Let_def)

lemma copy_append_spec:
  assumes "bb_wf b" and "0 < growth b" and "tail_live b"
  shows "\<exists>b'. copy_append src b = Some b' \<and> bb_wf b' \<and> content b' = content b @ src \<and>
    tail_live b' \<and> idx b' = idx b \<and> growth b' = growth b \<and> blocks b' \<noteq> []"
  using assms
proof (induction "2 * length src + (if tail_room b = 0 then 1 else 0)" arbitrary: src b
    rule: less_induct)
  case less
  show ?case
  proof (cases "blocks b = []")
    case True
    let ?b1 = "bb_append_block 0 b"
    have m: "2 * length src + (if tail_room ?b1 = 0 then 1 else 0)
        < 2 * length src + (if tail_room b = 0 then 1 else 0)"
      using True less.prems bb_append_block_live [of b] by (simp add: tail_room_def)
    show ?thesis
      using less.hyps [OF m] less.prems bb_append_block_live [of b] True
      by (simp add: copy_append.simps [of src b] bb_append_block_wf content_bb_append_block)
  next
    case False
    let ?l = "last (blocks b)"
    let ?room = "appendable ?l"
    have cap: "write_pos ?l + ?room = cap ?l"
      using less.prems(1) False by (auto simp: bb_wf_def chain_wf_def block_wf_def appendable_def)
    show ?thesis
    proof (cases "?room \<ge> length src")
      case True
      then show ?thesis
        using put_appended_spec [OF less.prems(1) False less.prems(3) True refl] False
        by (simp add: copy_append.simps [of src b] Let_def)
    next
      case small: False
      let ?b1 = "bb_put_last (block_set_write_pos (cap ?l)
        (block_write (write_pos ?l) (take ?room src) ?l)) b"
      let ?b2 = "bb_append_block 0 ?b1"
      have len: "length (take ?room src) = ?room" using small by simp
      have b1: "bb_wf ?b1" "content ?b1 = content b @ take ?room src" "idx ?b1 = idx b"
        "growth ?b1 = growth b"
        using put_appended_spec [OF less.prems(1) False less.prems(3), of "take ?room src" ?b1]
          small cap len by simp_all
      have b2: "bb_wf ?b2" "tail_live ?b2" "tail_room ?b2 = growth b"
        using bb_append_block_live [OF b1(1)] b1(1) less.prems(2) by (simp_all add: bb_append_block_wf)
      have m: "2 * length (drop ?room src) + (if tail_room ?b2 = 0 then 1 else 0)
          < 2 * length src + (if tail_room b = 0 then 1 else 0)"
        using b2(3) less.prems(2) False small by (auto simp: tail_room_def)
      have "copy_append src b = copy_append (drop ?room src) ?b2"
        using False small by (simp add: copy_append.simps [of src b] Let_def)
      then show ?thesis
        using less.hyps [OF m b2(1)] b2(2) less.prems(2) b1
        by (simp add: content_bb_append_block del: length_drop)
    qed
  qed
qed

text \<open>With a growth of 0 and too little room the loop does not return.\<close>

lemma copy_append_diverges:
  assumes "growth b = 0" and "tail_room b < length src"
  shows "copy_append src b = None"
proof -
  have "\<not> (growth b = 0 \<and> tail_room b < length src)" if "copy_append src b = Some r" for r
    using that
  proof (induction src b r rule: copy_append.raw_induct)
    case (1 f src b r)
    show ?case
    proof
      assume h: "growth b = 0 \<and> tail_room b < length src"
      have fresh: "growth (bb_append_block 0 c) = 0 \<and> tail_room (bb_append_block 0 c) = 0"
        if "growth c = 0" for c
        using that by (simp add: bb_append_block_def tail_room_def)
      show False
      proof (cases "blocks b = []")
        case True
        then have "f src (bb_append_block 0 b) = Some r" "copy_append src (bb_append_block 0 b) = Some r"
          using 1(2,3) by (simp_all add: copy_append.simps [of src b])
        from 1(1) [OF this] show ?thesis
          using fresh [of b] h True by (simp add: tail_room_def)
      next
        case False
        let ?l = "last (blocks b)"
        let ?b1 = "bb_put_last (block_set_write_pos (cap ?l)
          (block_write (write_pos ?l) (take (appendable ?l) src) ?l)) b"
        have "f (drop (appendable ?l) src) (bb_append_block 0 ?b1) = Some r"
          "copy_append (drop (appendable ?l) src) (bb_append_block 0 ?b1) = Some r"
          using 1(2,3) False h by (simp_all add: copy_append.simps [of src b] tail_room_def Let_def)
        from 1(1) [OF this] show ?thesis
          using fresh [of ?b1] h False by (simp add: tail_room_def)
      qed
    qed
  qed (use that in simp)
  then show ?thesis using assms by (cases "copy_append src b") auto
qed

section \<open>Prepending\<close>

text \<open>
  \<open>prepend\<close> writes in front of block 0, so its bytes are seen only if no block was consumed.
\<close>

definition head_room :: "bytebuf \<Rightarrow> nat" where
  "head_room b = (if blocks b = [] then 0 else prependable (hd (blocks b)))"

lemma put_prepended_spec:
  assumes "bb_wf b" and "idx b = 0" and "blocks b \<noteq> []" and "length src \<le> prependable (hd (blocks b))"
    and "off = prependable (hd (blocks b)) - length src"
    and "b' = bb_put_first (block_set_read_pos off (block_write off src (hd (blocks b)))) b"
  shows "bb_wf b' \<and> content b' = src @ content b \<and> idx b' = 0 \<and> growth b' = growth b \<and> blocks b' \<noteq> []"
proof -
  let ?f = "hd (blocks b)"
  obtain bs where bs: "blocks b = ?f # bs" using assms(3) by (cases "blocks b") simp_all
  have w: "block_wf ?f" "chain_wf bs" using bb_wf_chain [OF assms(1)] bs by (metis chain_wf_simps(2))+
  have off: "off = read_pos ?f - length src" using assms(5) by (simp add: prependable_def)
  show ?thesis
    unfolding assms(6) off using block_prepend_wf [OF w(1) assms(4)] block_prepend_bytes [OF w(1) assms(4)]
      w(2) assms(2) bs by (metis (no_types, lifting) append.assoc append_Nil bb_wf_def chain_bytes_simps(2)
        chain_wf_simps(2) content_def drop0 empty_iff list.sel(3) list.simps(3) set_empty take0 zero_le
        bytebuf.select_convs bytebuf.surjective bytebuf.update_convs(1))
qed

lemma bb_prepend_block_spec:
  assumes "bb_wf b" and "idx b = 0"
  shows "bb_wf (bb_prepend_block c b)" and "content (bb_prepend_block c b) = content b"
    and "head_room (bb_prepend_block c b) = max c (growth b)"
    and "idx (bb_prepend_block c b) = 0" and "growth (bb_prepend_block c b) = growth b"
    and "blocks (bb_prepend_block c b) \<noteq> []"
  using assms
  by (auto simp: bb_prepend_block_def bb_wf_def content_def head_room_def Let_def
      block_for_prependable_wf max_def)

lemma copy_prepend_spec:
  assumes "bb_wf b" and "0 < growth b" and "idx b = 0"
  shows "\<exists>b'. copy_prepend src b = Some b' \<and> bb_wf b' \<and> content b' = src @ content b \<and>
    idx b' = 0 \<and> growth b' = growth b \<and> blocks b' \<noteq> []"
  using assms
proof (induction "2 * length src + (if head_room b = 0 then 1 else 0)" arbitrary: src b
    rule: less_induct)
  case less
  note fresh = bb_prepend_block_spec [OF _ _, where c = 0]
  show ?case
  proof (cases "blocks b = []")
    case True
    let ?b1 = "bb_prepend_block 0 b"
    have m: "2 * length src + (if head_room ?b1 = 0 then 1 else 0)
        < 2 * length src + (if head_room b = 0 then 1 else 0)"
      using True less.prems(2) fresh(3) [OF less.prems(1,3)] by (simp add: head_room_def)
    show ?thesis
      using less.hyps [OF m] fresh [OF less.prems(1,3)] less.prems(2) True
      by (simp add: copy_prepend.simps [of src b])
  next
    case False
    let ?f = "hd (blocks b)"
    let ?room = "prependable ?f" and ?n = "length src"
    show ?thesis
    proof (cases "?room \<ge> ?n")
      case True
      then show ?thesis
        using put_prepended_spec [OF less.prems(1,3) False True refl refl] False
        by (simp add: copy_prepend.simps [of src b] Let_def)
    next
      case small: False
      let ?b1 = "bb_put_first (block_set_read_pos 0 (block_write 0 (drop (?n - ?room) src) ?f)) b"
      let ?b2 = "bb_prepend_block 0 ?b1"
      have b1: "bb_wf ?b1" "content ?b1 = drop (?n - ?room) src @ content b" "idx ?b1 = 0"
        "growth ?b1 = growth b"
        using put_prepended_spec [OF less.prems(1,3) False, of "drop (?n - ?room) src" 0 ?b1]
          small by simp_all
      note b2 = fresh [OF b1(1,3)]
      have m: "2 * length (take (?n - ?room) src) + (if head_room ?b2 = 0 then 1 else 0)
          < 2 * length src + (if head_room b = 0 then 1 else 0)"
        using b2(3) b1(4) less.prems(2) False small by (auto simp: head_room_def)
      have "copy_prepend src b = copy_prepend (take (?n - ?room) src) ?b2"
        using False small by (simp add: copy_prepend.simps [of src b] Let_def)
      then show ?thesis
        using less.hyps [OF m b2(1)] b2 less.prems(2) b1(2,4)
        by (simp flip: append_assoc del: length_take)
    qed
  qed
qed

lemma copy_prepend_diverges:
  assumes "growth b = 0" and "head_room b < length src"
  shows "copy_prepend src b = None"
proof -
  have "\<not> (growth b = 0 \<and> head_room b < length src)" if "copy_prepend src b = Some r" for r
    using that
  proof (induction src b r rule: copy_prepend.raw_induct)
    case (1 f src b r)
    show ?case
    proof
      assume h: "growth b = 0 \<and> head_room b < length src"
      have fresh: "growth (bb_prepend_block 0 c) = 0 \<and> head_room (bb_prepend_block 0 c) = 0"
        if "growth c = 0" for c
        using that by (simp add: bb_prepend_block_def head_room_def)
      show False
      proof (cases "blocks b = []")
        case True
        then have "f src (bb_prepend_block 0 b) = Some r" "copy_prepend src (bb_prepend_block 0 b) = Some r"
          using 1(2,3) by (simp_all add: copy_prepend.simps [of src b])
        from 1(1) [OF this] show ?thesis
          using fresh [of b] h True by (simp add: head_room_def)
      next
        case False
        let ?f = "hd (blocks b)"
        let ?k = "length src - prependable ?f"
        let ?b1 = "bb_put_first (block_set_read_pos 0 (block_write 0 (drop ?k src) ?f)) b"
        have "f (take ?k src) (bb_prepend_block 0 ?b1) = Some r"
          "copy_prepend (take ?k src) (bb_prepend_block 0 ?b1) = Some r"
          using 1(2,3) False h
          by (simp_all add: copy_prepend.simps [of src b] head_room_def Let_def)
        from 1(1) [OF this] show ?thesis
          using fresh [of ?b1] h False by (simp add: head_room_def)
      qed
    qed
  qed (use that in simp)
  then show ?thesis using assms by (cases "copy_prepend src b") auto
qed

section \<open>Whole vectors\<close>

lemma bb_append_bytes_spec:
  assumes "bb_wf b" and "length bytes \<le> vcap"
  shows "bb_wf (bb_append_bytes bytes vcap b)"
    and "content (bb_append_bytes bytes vcap b) = content b @ bytes"
proof -
  let ?l = "last (blocks b)" and ?v = "block_from bytes vcap"
  have v: "block_wf ?v" "as_bytes ?v = bytes"
    using assms(2) by (simp_all add: block_from_wf block_from_bytes)
  have "bb_wf (bb_append_bytes bytes vcap b) \<and>
    content (bb_append_bytes bytes vcap b) = content b @ bytes"
  proof (cases "blocks b \<noteq> [] \<and> vcap - length bytes + 512 \<le> appendable ?l")
    case True
    obtain tl l' where sp: "block_split_off (block_len ?l) ?l = (tl, l')" by fastforce
    have w: "block_wf ?l" using assms(1) True by (simp add: bb_wf_def chain_wf_def)
    have b': "block_wf l'" "block_wf tl" "as_bytes l' = as_bytes ?l" "as_bytes tl = []"
      using block_split_off_wf [OF sp w] block_split_off_bytes [OF sp] w by simp_all
    have e: "block_is_empty l'" if "block_is_empty ?l"
      using that b' w as_bytes_Nil_iff by metis
    let ?b1 = "bb_put_last l' b"
    have b1: "bb_wf ?b1" "content ?b1 = content b"
    proof -
      have "idx b < length (blocks b) \<or> block_is_empty l' \<and> block_is_empty ?l"
        using assms(1) True e by (metis bb_wf_def last_in_set linorder_not_less take_all)
      from bb_put_last_spec [OF assms(1) _ b'(1) this, of "[]"] True b'(3)
      show "bb_wf ?b1" "content ?b1 = content b" by simp_all
    qed
    have "bb_append_bytes bytes vcap b = ?b1\<lparr>blocks := blocks ?b1 @ [?v, tl]\<rparr>"
    proof -
      have "(case blocks b of [] \<Rightarrow> None | _ # _ \<Rightarrow> m) = m" for m :: "(block \<times> block) option"
        using True by (cases "blocks b") simp_all
      then show ?thesis using True sp by (simp add: bb_append_bytes_def Let_def)
    qed
    then show ?thesis
      using b1 b' v bb_wf_append_blocks [OF b1(1), of "[?v, tl]"]
        content_append_blocks [OF b1(1), of "[?v, tl]"] by simp
  next
    case False
    then have "bb_append_bytes bytes vcap b = b\<lparr>blocks := blocks b @ [?v]\<rparr>"
      by (auto simp: bb_append_bytes_def Let_def split: list.splits)
    then show ?thesis
      using v assms(1) bb_wf_append_blocks [OF assms(1), of "[?v]"]
        content_append_blocks [OF assms(1), of "[?v]"] by simp
  qed
  then show "bb_wf (bb_append_bytes bytes vcap b)"
    "content (bb_append_bytes bytes vcap b) = content b @ bytes" by simp_all
qed

lemma bb_prepend_bytes_spec:
  assumes "bb_wf b" and "length bytes \<le> vcap" and "idx b = 0"
  shows "bb_wf (bb_prepend_bytes bytes vcap b)"
    and "content (bb_prepend_bytes bytes vcap b) = bytes @ content b"
proof -
  let ?v = "block_from bytes vcap"
  have v: "block_wf ?v" "as_bytes ?v = bytes"
    using assms(2) by (simp_all add: block_from_wf block_from_bytes)
  have "bb_wf (bb_prepend_bytes bytes vcap b) \<and>
    content (bb_prepend_bytes bytes vcap b) = bytes @ content b"
  proof (cases "blocks b")
    case Nil
    then show ?thesis using assms v by (simp add: bb_prepend_bytes_def Let_def bb_wf_def content_def)
  next
    case (Cons f bs)
    obtain th f' where sp: "block_split_off 0 f = (th, f')" by fastforce
    have w: "block_wf f" "chain_wf bs" using assms(1) Cons by (simp_all add: bb_wf_def)
    have "block_wf f'" "block_wf th" "as_bytes f' = []" "as_bytes th = as_bytes f"
      using block_split_off_wf [OF sp w(1)] block_split_off_bytes [OF sp] by simp_all
    then show ?thesis
      using assms(3) v w Cons sp by (simp add: bb_prepend_bytes_def Let_def bb_wf_def content_def)
  qed
  then show "bb_wf (bb_prepend_bytes bytes vcap b)"
    "content (bb_prepend_bytes bytes vcap b) = bytes @ content b" by simp_all
qed

text \<open>
  \<open>try_reserve_in_head\<close> returns the room in front of the first block afterwards and moves no
  byte of the content.
\<close>

lemma bb_try_reserve_in_head_spec:
  assumes "bb_wf b" and "bb_try_reserve_in_head n b = (r, b')"
  shows "bb_wf b'" and "content b' = content b" and "r = head_room b'"
    and "length (blocks b') = length (blocks b)"
proof -
  have "bb_wf b' \<and> content b' = content b \<and> r = head_room b' \<and> length (blocks b') = length (blocks b)"
  proof (cases "blocks b")
    case Nil
    then show ?thesis using assms by (auto simp: bb_try_reserve_in_head_def head_room_def)
  next
    case (Cons f bs)
    have w: "block_wf f" using assms(1) Cons by (simp add: bb_wf_def)
    let ?n = "min n (cap f)"
    let ?f' = "f\<lparr>read_pos := ?n, write_pos := ?n\<rparr>"
    show ?thesis
    proof (cases "block_is_empty f")
      case True
      have b': "b' = b\<lparr>blocks := ?f' # bs\<rparr>" "r = ?n"
        using assms(2) True Cons
        by (auto simp: bb_try_reserve_in_head_def Let_def block_defs min_def)
      have "block_wf ?f'" "block_is_empty ?f'"
        using w by (simp_all add: block_wf_def block_is_empty_def)
      then show ?thesis
        using assms(1) True Cons b'
        by (cases "idx b") (auto simp: bb_wf_def content_def head_room_def prependable_def)
    next
      case False
      then show ?thesis
        using assms Cons by (auto simp: bb_try_reserve_in_head_def head_room_def prependable_def)
    qed
  qed
  then show "bb_wf b'" "content b' = content b" "r = head_room b'"
    "length (blocks b') = length (blocks b)" by simp_all
qed

end
