(* ===== verification/Codec.thy ===== *)
theory Codec
  imports Buf_Write
begin

text \<open>
  The generic entry points of \<open>ByteBuf\<close> (\<open>read\<close>, \<open>get\<close>, \<open>set\<close>, \<open>append\<close>, \<open>prepend\<close> of
  \<open>src/buf/mod.rs\<close>), which run a codec's function on a cursor, and the interface every codec
  of \<open>src/buf/codec\<close> implements: a module with the five functions, here a record of them.

  The locale \<open>codec_laws\<close> states what such a module promises relative to an encoding of its
  values as byte strings, and derives what a user of the buffer gets from it.
\<close>

section \<open>Entry points\<close>

type_synonym 'a reader = "bytebuf \<Rightarrow> ('a, buf_error) outcome \<times> bytebuf"
type_synonym 'a getter = "get_iter \<Rightarrow> ('a, buf_error) outcome"
type_synonym 'a setter = "'a \<Rightarrow> set_iter \<Rightarrow> (nat, buf_error) outcome \<times> set_iter"

text \<open>An appending loop that does not return is \<open>None\<close>; the error type of the result is \<open>()\<close>.\<close>

type_synonym 'a appender = "'a \<Rightarrow> bytebuf \<Rightarrow> ((nat, unit) outcome \<times> bytebuf) option"

definition bb_read :: "'a reader \<Rightarrow> bytebuf \<Rightarrow> ('a, buf_error) outcome \<times> bytebuf" where
  "bb_read f b = f b"

definition bb_read_exact ::
  "nat \<Rightarrow> (bytebuf \<Rightarrow> nat \<Rightarrow> ('a, buf_error) outcome \<times> bytebuf) \<Rightarrow> bytebuf \<Rightarrow>
     ('a, buf_error) outcome \<times> bytebuf" where
  "bb_read_exact len f b = f b len"

definition bb_get_iter :: "bytebuf \<Rightarrow> nat \<Rightarrow> nat \<Rightarrow> get_iter" where
  "bb_get_iter b i pos = \<lparr>gi_blocks = drop i (blocks b), gi_idx = 0, gi_init_pos = pos\<rparr>"

definition bb_set_iter :: "bytebuf \<Rightarrow> nat \<Rightarrow> nat \<Rightarrow> set_iter" where
  "bb_set_iter b i pos = \<lparr>si_blocks = drop i (blocks b), si_idx = 0, si_init_pos = pos\<rparr>"

text \<open>\<open>expect("Index out of bounds")\<close> panics.\<close>

definition bb_get :: "nat \<Rightarrow> 'a getter \<Rightarrow> bytebuf \<Rightarrow> ('a, buf_error) outcome" where
  "bb_get index f b =
     (case locate_idx b index of
        (Ok i, off) \<Rightarrow> f (bb_get_iter b i off)
      | _ \<Rightarrow> Panic)"

definition bb_get_exact ::
  "nat \<Rightarrow> nat \<Rightarrow> (get_iter \<Rightarrow> nat \<Rightarrow> ('a, buf_error) outcome) \<Rightarrow> bytebuf \<Rightarrow>
     ('a, buf_error) outcome" where
  "bb_get_exact index len f b =
     (case locate_idx b index of
        (Ok i, off) \<Rightarrow> f (bb_get_iter b i off) len
      | _ \<Rightarrow> Panic)"

definition bb_set :: "nat \<Rightarrow> 'a \<Rightarrow> 'a setter \<Rightarrow> bytebuf \<Rightarrow>
    (nat, buf_error) outcome \<times> bytebuf" where
  "bb_set index t f b =
     (case locate_idx b index of
        (Ok i, off) \<Rightarrow>
          (let (r, it) = f t (bb_set_iter b i off)
           in (r, b\<lparr>blocks := take i (blocks b) @ si_blocks it\<rparr>))
      | _ \<Rightarrow> (Panic, b))"

definition bb_append :: "'a \<Rightarrow> 'a appender \<Rightarrow> bytebuf \<Rightarrow>
    ((nat, unit) outcome \<times> bytebuf) option" where
  "bb_append t f b = f t b"

definition bb_prepend :: "'a \<Rightarrow> 'a appender \<Rightarrow> bytebuf \<Rightarrow>
    ((nat, unit) outcome \<times> bytebuf) option" where
  "bb_prepend t f b = f t b"

section \<open>Where the cursors of \<open>get\<close> and \<open>set\<close> stand\<close>

lemma iter_pos_start: "bs \<noteq> [] \<Longrightarrow> p \<le> block_len (hd bs) \<Longrightarrow> iter_pos bs 0 p = p"
  by (simp add: iter_pos_def hd_conv_nth)

lemma locate_idx_chain:
  assumes "locate_idx b pos = (Ok i, off)" and "bb_wf b"
  shows "content b = chain_bytes (drop (idx b) (take i (blocks b))) @ chain_bytes (drop i (blocks b))"
    and "drop off (chain_bytes (drop i (blocks b))) = drop pos (content b)"
    and "iter_pos (drop i (blocks b)) 0 off = off"
    and "pos \<le> length (content b)"
proof -
  note * = locate_idx_Ok [OF assms]
  have d: "drop i (blocks b) = blocks b ! i # drop (Suc i) (blocks b)"
    using *(2) by (rule drop_eq_nth_Cons)
  show c: "content b = chain_bytes (drop (idx b) (take i (blocks b))) @ chain_bytes (drop i (blocks b))"
    using content_split [OF *(1,2)] d by simp
  show "drop off (chain_bytes (drop i (blocks b))) = drop pos (content b)"
    unfolding c *(4) by simp
  show "iter_pos (drop i (blocks b)) 0 off = off"
    using *(2,3) by (intro iter_pos_start) (simp_all add: hd_drop_conv_nth)
  show "pos \<le> length (content b)"
    using locate_idx_total [OF assms(2), of pos] assms(1) by blast
qed

lemma bb_get_Ok:
  assumes "bb_wf b" and "i \<le> length (content b)" and "idx b < length (blocks b)"
  obtains it where "\<And>g :: 'a getter. bb_get i g b = g it"
    "\<And>g n. (bb_get_exact i n g b :: ('a, buf_error) outcome) = g it n"
    "chain_wf (gi_blocks it)" "gi_rest it = drop i (content b)"
    "gi_blocks it \<noteq> []" "gi_idx it = 0" "gi_init_pos it \<le> block_len (hd (gi_blocks it))"
proof -
  obtain j off where l: "locate_idx b i = (Ok j, off)"
    using locate_idx_total [OF assms(1), of i] assms(2,3) by blast
  note * = locate_idx_Ok [OF l assms(1)] and ** = locate_idx_chain [OF l assms(1)]
  show thesis
    by (rule that [of "bb_get_iter b j off"])
      (use *(1-3) ** assms(1) in \<open>simp_all add: bb_get_def bb_get_exact_def l gi_rest_def
        bb_get_iter_def bb_wf_chain chain_wf_take_drop hd_drop_conv_nth\<close>)
qed

lemma bb_get_Panic:
  assumes "bb_wf b"
  shows "length (content b) < i \<Longrightarrow> bb_get i g b = Panic"
    and "length (content b) < i \<Longrightarrow> bb_get_exact i n h b = Panic"
proof -
  assume "length (content b) < i"
  then have "\<nexists>j off. locate_idx b i = (Ok j, off)"
    using locate_idx_total [OF assms, of i] by simp
  then show "bb_get i g b = Panic" "bb_get_exact i n h b = Panic"
    by (auto simp: bb_get_def bb_get_exact_def split: prod.splits outcome.splits)
qed

lemma bb_set_Panic:
  assumes "bb_wf b" and "length (content b) < i"
  shows "bb_set i v g b = (Panic, b)"
proof -
  have "\<nexists>j off. locate_idx b i = (Ok j, off)"
    using locate_idx_total [OF assms(1), of i] assms(2) by simp
  then show ?thesis
    by (auto simp: bb_set_def split: prod.splits outcome.splits)
qed

lemma overlay_append_left:
  "overlay (length pre + k) src (pre @ xs) = pre @ overlay k src xs"
  by (simp add: overlay_def)

text \<open>
  A setter that overlays the bytes \<open>src\<close> at its cursor overlays them at \<open>i\<close> in the buffer.
\<close>

lemma bb_set_Ok:
  assumes "bb_wf b" and "i \<le> length (content b)" and "idx b < length (blocks b)"
    and step: "\<And>it r it'. g v it = (r, it') \<Longrightarrow> chain_wf (si_blocks it) \<Longrightarrow>
      chain_wf (si_blocks it') \<and> length (si_blocks it') = length (si_blocks it) \<and>
      chain_bytes (si_blocks it') =
        overlay (iter_pos (si_blocks it) (si_idx it) (si_init_pos it)) src (chain_bytes (si_blocks it)) \<and>
      r = (if iter_pos (si_blocks it) (si_idx it) (si_init_pos it) + length src
             \<le> length (chain_bytes (si_blocks it))
           then Ok (length src) else Err e)"
  obtains b' where
    "bb_set i v g b = (if i + length src \<le> length (content b) then Ok (length src) else Err e, b')"
    "bb_wf b'" "content b' = overlay i src (content b)" "growth b' = growth b" "idx b' = idx b"
    "length (blocks b') = length (blocks b)"
proof -
  obtain j off where l: "locate_idx b i = (Ok j, off)"
    using locate_idx_total [OF assms(1), of i] assms(2,3) by blast
  note * = locate_idx_Ok [OF l assms(1)] and ** = locate_idx_chain [OF l assms(1)]
  let ?it = "bb_set_iter b j off"
  obtain r it' where s: "g v ?it = (r, it')" by fastforce
  let ?pre = "chain_bytes (drop (idx b) (take j (blocks b)))"
  have st: "chain_wf (si_blocks it')" "length (si_blocks it') = length (blocks b) - j"
    "chain_bytes (si_blocks it') = overlay off src (chain_bytes (drop j (blocks b)))"
    "r = (if off + length src \<le> length (chain_bytes (drop j (blocks b))) then Ok (length src) else Err e)"
    using step [OF s] **(3) assms(1)
    by (simp_all add: bb_set_iter_def bb_wf_chain chain_wf_take_drop)
  let ?b' = "b\<lparr>blocks := take j (blocks b) @ si_blocks it'\<rparr>"
  have wf: "bb_wf ?b'"
    using assms(1) st(1) *(1,2) by (auto simp: bb_wf_def chain_wf_take_drop min_def)
  have "content ?b' = ?pre @ overlay off src (chain_bytes (drop j (blocks b)))"
    using *(1,2) st(3) by (simp add: content_def)
  then have c: "content ?b' = overlay i src (content b)"
    unfolding **(1) *(4) by (simp only: overlay_append_left)
  have "bb_set i v g b = (r, ?b')"
    by (simp add: bb_set_def l s)
  moreover have "r = (if i + length src \<le> length (content b) then Ok (length src) else Err e)"
    unfolding st(4) **(1) *(4) by simp
  ultimately show thesis
    using that [of ?b'] wf c st(2) *(2) by simp
qed

section \<open>The interface of a codec\<close>

record 'a codec =
  codec_read :: "'a reader"
  codec_get :: "'a getter"
  codec_set :: "'a setter"
  codec_append :: "'a appender"
  codec_prepend :: "'a appender"

text \<open>
  \<open>enc v\<close> is the byte string of the value \<open>v\<close>; \<open>valid\<close> are the values the Rust type has.
\<close>

locale codec_laws =
  fixes c :: "'a codec" and valid :: "'a \<Rightarrow> bool" and enc :: "'a \<Rightarrow> u8 list"
  assumes enc_nonempty: "enc v \<noteq> []"
    and read_law: "bb_wf b \<Longrightarrow> valid v \<Longrightarrow> content b = enc v @ rest \<Longrightarrow>
      \<exists>b'. bb_read (codec_read c) b = (Ok v, b') \<and> bb_wf b' \<and> content b' = rest \<and>
        growth b' = growth b \<and> tail_live b'"
    and get_law: "bb_wf b \<Longrightarrow> valid v \<Longrightarrow> drop i (content b) = enc v @ rest \<Longrightarrow>
      bb_get i (codec_get c) b = Ok v"
    and set_law: "bb_wf b \<Longrightarrow> i + length (enc v) \<le> length (content b) \<Longrightarrow>
      \<exists>b'. bb_set i v (codec_set c) b = (Ok (length (enc v)), b') \<and> bb_wf b' \<and>
        content b' = overlay i (enc v) (content b) \<and> growth b' = growth b"
    and append_law: "bb_wf b \<Longrightarrow> 0 < growth b \<Longrightarrow> tail_live b \<Longrightarrow>
      \<exists>b'. bb_append v (codec_append c) b = Some (Ok (length (enc v)), b') \<and> bb_wf b' \<and>
        content b' = content b @ enc v \<and> growth b' = growth b \<and> tail_live b'"
    and prepend_law: "bb_wf b \<Longrightarrow> 0 < growth b \<Longrightarrow> idx b = 0 \<Longrightarrow>
      \<exists>b'. bb_prepend v (codec_prepend c) b = Some (Ok (length (enc v)), b') \<and> bb_wf b' \<and>
        content b' = enc v @ content b \<and> growth b' = growth b \<and> idx b' = 0"

text \<open>Client programs over a codec: append or prepend a list of values, read back a number of them.\<close>

fun append_all :: "'a codec \<Rightarrow> 'a list \<Rightarrow> bytebuf \<Rightarrow> bytebuf option" where
  "append_all c [] b = Some b"
| "append_all c (v # vs) b =
     (case bb_append v (codec_append c) b of
        Some (Ok n, b') \<Rightarrow> append_all c vs b'
      | _ \<Rightarrow> None)"

fun prepend_all :: "'a codec \<Rightarrow> 'a list \<Rightarrow> bytebuf \<Rightarrow> bytebuf option" where
  "prepend_all c [] b = Some b"
| "prepend_all c (v # vs) b =
     (case bb_prepend v (codec_prepend c) b of
        Some (Ok n, b') \<Rightarrow> prepend_all c vs b'
      | _ \<Rightarrow> None)"

fun read_all :: "'a codec \<Rightarrow> nat \<Rightarrow> bytebuf \<Rightarrow> 'a list option \<times> bytebuf" where
  "read_all c 0 b = (Some [], b)"
| "read_all c (Suc n) b =
     (case bb_read (codec_read c) b of
        (Ok v, b') \<Rightarrow> (case read_all c n b' of (r, b'') \<Rightarrow> (map_option ((#) v) r, b''))
      | (_, b') \<Rightarrow> (None, b'))"

text \<open>Appends and reads in any order, as commands; \<open>None\<close> if one fails or does not return.\<close>

datatype 'a command = Append 'a | Read

fun run :: "'a codec \<Rightarrow> 'a command list \<Rightarrow> bytebuf \<Rightarrow> ('a list \<times> bytebuf) option" where
  "run c [] b = Some ([], b)"
| "run c (Append v # cmds) b =
     (case bb_append v (codec_append c) b of Some (Ok n, b') \<Rightarrow> run c cmds b' | _ \<Rightarrow> None)"
| "run c (Read # cmds) b =
     (case bb_read (codec_read c) b of
        (Ok v, b') \<Rightarrow> map_option (\<lambda>(vs, b''). (v # vs, b'')) (run c cmds b')
      | _ \<Rightarrow> None)"

text \<open>The queue the commands are about: what they yield and what they leave.\<close>

fun run_queue :: "'a command list \<Rightarrow> 'a list \<Rightarrow> ('a list \<times> 'a list) option" where
  "run_queue [] q = Some ([], q)"
| "run_queue (Append v # cmds) q = run_queue cmds (q @ [v])"
| "run_queue (Read # cmds) q =
     (case q of [] \<Rightarrow> None
      | v # q' \<Rightarrow> map_option (\<lambda>(vs, q''). (v # vs, q'')) (run_queue cmds q'))"

primrec cmd_valid :: "('a \<Rightarrow> bool) \<Rightarrow> 'a command \<Rightarrow> bool" where
  "cmd_valid valid (Append v) = valid v"
| "cmd_valid valid Read = True"

context codec_laws
begin

lemma append_all_content:
  assumes "bb_wf b" and "0 < growth b" and "tail_live b"
  shows "\<exists>b'. append_all c vs b = Some b' \<and> bb_wf b' \<and> growth b' = growth b \<and> tail_live b' \<and>
    content b' = content b @ concat (map enc vs)"
  using assms
proof (induction vs arbitrary: b)
  case (Cons v vs)
  obtain b1 where b1: "bb_append v (codec_append c) b = Some (Ok (length (enc v)), b1)" "bb_wf b1"
    "content b1 = content b @ enc v" "growth b1 = growth b" "tail_live b1"
    using append_law [OF Cons.prems] by blast
  with Cons.IH [of b1] Cons.prems(2) show ?case by simp
qed simp

lemma prepend_all_content:
  assumes "bb_wf b" and "0 < growth b" and "idx b = 0"
  shows "\<exists>b'. prepend_all c vs b = Some b' \<and> bb_wf b' \<and> growth b' = growth b \<and> idx b' = 0 \<and>
    content b' = concat (map enc (rev vs)) @ content b"
  using assms
proof (induction vs arbitrary: b)
  case (Cons v vs)
  obtain b1 where b1: "bb_prepend v (codec_prepend c) b = Some (Ok (length (enc v)), b1)" "bb_wf b1"
    "content b1 = enc v @ content b" "growth b1 = growth b" "idx b1 = 0"
    using prepend_law [OF Cons.prems] by blast
  with Cons.IH [of b1] Cons.prems(2) show ?case by simp
qed simp

lemma read_all_content:
  assumes "bb_wf b" and "\<forall>v\<in>set vs. valid v" and "content b = concat (map enc vs) @ rest"
  shows "\<exists>b'. read_all c (length vs) b = (Some vs, b') \<and> bb_wf b' \<and> content b' = rest \<and>
    growth b' = growth b"
  using assms
proof (induction vs arbitrary: b)
  case (Cons v vs)
  obtain b1 where b1: "bb_read (codec_read c) b = (Ok v, b1)" "bb_wf b1"
    "content b1 = concat (map enc vs) @ rest" "growth b1 = growth b"
    using read_law [OF Cons.prems(1), of v "concat (map enc vs) @ rest"] Cons.prems(2,3) by auto
  with Cons.IH [of b1] Cons.prems(2) show ?case by auto
qed simp

lemma get_after_append:
  assumes "bb_wf b" and "0 < growth b" and "tail_live b" and "valid v"
  shows "\<exists>b'. bb_append v (codec_append c) b = Some (Ok (length (enc v)), b') \<and>
    bb_get (length (content b)) (codec_get c) b' = Ok v"
  using append_law [OF assms(1-3), of v] get_law [of _ v "length (content b)" "[]"] assms(4)
  by fastforce

lemma get_after_set:
  assumes "bb_wf b" and "i + length (enc v) \<le> length (content b)" and "valid v"
  shows "\<exists>b'. bb_set i v (codec_set c) b = (Ok (length (enc v)), b') \<and>
    bb_get i (codec_get c) b' = Ok v \<and> length (content b') = length (content b)"
proof -
  obtain b' where b': "bb_set i v (codec_set c) b = (Ok (length (enc v)), b')" "bb_wf b'"
    "content b' = overlay i (enc v) (content b)"
    using set_law [OF assms(1,2)] by blast
  have "drop i (content b') = enc v @ drop (i + length (enc v)) (content b)"
    using b'(3) assms(2) by (simp add: overlay_fits)
  from get_law [OF b'(2) assms(3) this] b' assms(2) show ?thesis by simp
qed

text \<open>The buffer is a first-in first-out queue of encoded values.\<close>

lemma run_refines_queue:
  assumes "bb_wf b" and "0 < growth b" and "tail_live b" and "content b = concat (map enc q)"
    and "\<forall>v\<in>set q. valid v" and "\<forall>x\<in>set cmds. cmd_valid valid x"
    and "run_queue cmds q = Some (vs, q')"
  shows "\<exists>b'. run c cmds b = Some (vs, b') \<and> bb_wf b' \<and> content b' = concat (map enc q')"
  using assms
proof (induction cmds arbitrary: b q vs)
  case (Cons x cmds)
  show ?case
  proof (cases x)
    case (Append v)
    obtain b1 where b1: "bb_append v (codec_append c) b = Some (Ok (length (enc v)), b1)" "bb_wf b1"
      "content b1 = content b @ enc v" "growth b1 = growth b" "tail_live b1"
      using append_law [OF Cons.prems(1-3)] by blast
    have "\<exists>b'. run c cmds b1 = Some (vs, b') \<and> bb_wf b' \<and> content b' = concat (map enc q')"
      by (rule Cons.IH [OF b1(2) _ b1(5), of "q @ [v]"])
        (use b1 Cons.prems Append in simp_all)
    with b1(1) Append show ?thesis by simp
  next
    case Read
    obtain v q1 ws where q: "q = v # q1" "run_queue cmds q1 = Some (ws, q')" "vs = v # ws"
      using Cons.prems(7) Read by (auto split: list.splits)
    obtain b1 where b1: "bb_read (codec_read c) b = (Ok v, b1)" "bb_wf b1"
      "content b1 = concat (map enc q1)" "growth b1 = growth b" "tail_live b1"
      using read_law [OF Cons.prems(1), of v "concat (map enc q1)"] Cons.prems(4,5) q(1) by auto
    have "\<exists>b'. run c cmds b1 = Some (ws, b') \<and> bb_wf b' \<and> content b' = concat (map enc q')"
      by (rule Cons.IH [OF b1(2) _ b1(5,3)])
        (use b1 Cons.prems q in simp_all)
    with b1(1) Read q(3) show ?thesis by auto
  qed
qed simp

end

section \<open>Codecs that write an encoding\<close>

text \<open>
  A module whose writing functions are the copy loops for the encoding of the value keeps the
  three writing laws.
\<close>

locale enc_writes =
  fixes c :: "'a codec" and enc :: "'a \<Rightarrow> u8 list"
  assumes enc_not_Nil: "enc v \<noteq> []"
    and set_copies: "chain_wf (si_blocks si) \<Longrightarrow> codec_set c v si =
      (case copy_set (enc v) si of
         (ok, si') \<Rightarrow> (if ok then Ok (length (enc v)) else Err IndexOutOfBounds, si'))"
    and append_copies: "bb_wf b \<Longrightarrow> 0 < growth b \<Longrightarrow> codec_append c v b =
      map_option (Pair (Ok (length (enc v)))) (copy_append (enc v) b)"
    and prepend_copies: "bb_wf b \<Longrightarrow> 0 < growth b \<Longrightarrow> codec_prepend c v b =
      map_option (Pair (Ok (length (enc v)))) (copy_prepend (enc v) b)"
begin

lemma set_spec:
  assumes "codec_set c v it = (r, it')" and "chain_wf (si_blocks it)"
  shows "chain_wf (si_blocks it') \<and> length (si_blocks it') = length (si_blocks it) \<and>
    chain_bytes (si_blocks it') =
      overlay (iter_pos (si_blocks it) (si_idx it) (si_init_pos it)) (enc v) (chain_bytes (si_blocks it)) \<and>
    r = (if iter_pos (si_blocks it) (si_idx it) (si_init_pos it) + length (enc v)
           \<le> length (chain_bytes (si_blocks it))
         then Ok (length (enc v)) else Err IndexOutOfBounds)"
proof -
  obtain ok it2 where cs: "copy_set (enc v) it = (ok, it2)" by fastforce
  show ?thesis
    using copy_set_spec [OF assms(2) cs refl enc_not_Nil] cs assms(1)
    by (auto simp: set_copies [OF assms(2)])
qed

text \<open>A set that does not fit writes what fits and reports the error.\<close>

lemma bb_set_spec:
  assumes "bb_wf b" and "idx b < length (blocks b)" and "i \<le> length (content b)"
  obtains b' where "bb_set i v (codec_set c) b =
      (if i + length (enc v) \<le> length (content b) then Ok (length (enc v)) else Err IndexOutOfBounds, b')"
    "bb_wf b'" "content b' = overlay i (enc v) (content b)" "growth b' = growth b" "idx b' = idx b"
    "length (blocks b') = length (blocks b)"
  by (rule bb_set_Ok [OF assms(1,3,2) set_spec])

lemma content_live: "content b \<noteq> [] \<Longrightarrow> idx b < length (blocks b)"
  by (cases "idx b < length (blocks b)") (simp_all add: content_def)

lemma writes_set:
  assumes "bb_wf b" and "i + length (enc v) \<le> length (content b)"
  shows "\<exists>b'. bb_set i v (codec_set c) b = (Ok (length (enc v)), b') \<and> bb_wf b' \<and>
      content b' = overlay i (enc v) (content b) \<and> growth b' = growth b"
proof -
  have live: "idx b < length (blocks b)" "i \<le> length (content b)"
    using assms(2) enc_not_Nil [of v] by (auto intro!: content_live)
  obtain b' where "bb_set i v (codec_set c) b =
      (if i + length (enc v) \<le> length (content b) then Ok (length (enc v)) else Err IndexOutOfBounds, b')"
    "bb_wf b'" "content b' = overlay i (enc v) (content b)" "growth b' = growth b"
    "idx b' = idx b" "length (blocks b') = length (blocks b)"
    by (rule bb_set_spec [OF assms(1) live])
  with assms(2) show ?thesis by simp
qed

lemma writes_append:
  assumes "bb_wf b" and "0 < growth b" and "tail_live b"
  shows "\<exists>b'. bb_append v (codec_append c) b = Some (Ok (length (enc v)), b') \<and> bb_wf b' \<and>
      content b' = content b @ enc v \<and> growth b' = growth b \<and> tail_live b'"
  using copy_append_spec [OF assms, of "enc v"]
  by (auto simp: bb_append_def append_copies [OF assms(1,2)])

lemma writes_prepend:
  assumes "bb_wf b" and "0 < growth b" and "idx b = 0"
  shows "\<exists>b'. bb_prepend v (codec_prepend c) b = Some (Ok (length (enc v)), b') \<and> bb_wf b' \<and>
      content b' = enc v @ content b \<and> growth b' = growth b \<and> idx b' = 0"
  using copy_prepend_spec [OF assms, of "enc v"]
  by (auto simp: bb_prepend_def prepend_copies [OF assms(1,2)])

end

section \<open>Codecs of a fixed size\<close>

text \<open>
  A module whose five functions are the copy loops for a byte string of a fixed size keeps the
  laws above; besides, what it does at the end of the buffer is fixed: a read consumes all that
  is left and reports \<open>Underflow\<close>, a set writes what fits and reports \<open>IndexOutOfBounds\<close>.
\<close>

locale fixed_codec =
  fixes c :: "'a codec" and valid :: "'a \<Rightarrow> bool" and enc :: "'a \<Rightarrow> u8 list"
    and dec :: "u8 list \<Rightarrow> 'a" and size :: nat and get_err :: buf_error
  assumes size_pos: "0 < size"
    and size_enc: "length (enc v) = size"
    and dec_enc: "valid v \<Longrightarrow> dec (enc v) = v"
    and read_eq: "bb_wf b \<Longrightarrow> codec_read c b =
      (case copy_read size [] b of
         (Some bs, b') \<Rightarrow> (Ok (dec bs), b') | (None, b') \<Rightarrow> (Err Underflow, b'))"
    and get_eq: "chain_wf (gi_blocks gi) \<Longrightarrow> codec_get c gi =
      (case copy_get size [] gi of Some bs \<Rightarrow> Ok (dec bs) | None \<Rightarrow> Err get_err)"
    and set_eq: "chain_wf (si_blocks si) \<Longrightarrow> codec_set c v si =
      (case copy_set (enc v) si of (ok, it') \<Rightarrow> (if ok then Ok size else Err IndexOutOfBounds, it'))"
    and append_eq: "bb_wf b \<Longrightarrow> 0 < growth b \<Longrightarrow> codec_append c v b =
      map_option (Pair (Ok size)) (copy_append (enc v) b)"
    and prepend_eq: "bb_wf b \<Longrightarrow> 0 < growth b \<Longrightarrow> codec_prepend c v b =
      map_option (Pair (Ok size)) (copy_prepend (enc v) b)"
begin

lemma read_spec:
  assumes "bb_wf b"
  shows "\<exists>b'. codec_read c b =
      (if size \<le> length (content b) then Ok (dec (take size (content b))) else Err Underflow, b') \<and>
    bb_wf b' \<and> content b' = drop size (content b) \<and> growth b' = growth b \<and>
    (size \<le> length (content b) \<longrightarrow> tail_live b')"
proof -
  obtain r b' where cr: "copy_read size [] b = (r, b')" by fastforce
  show ?thesis
    using copy_read_spec [OF assms cr size_pos] cr
    by (auto simp: read_eq [OF assms] tail_live_def)
qed

lemma read_live:
  assumes "bb_wf b" and "size \<le> length (content b)" and "codec_read c b = (r, b')"
  shows "idx b' < length (blocks b')"
proof -
  obtain x b1 where cr: "copy_read size [] b = (x, b1)" by fastforce
  from copy_read_spec [OF assms(1) cr size_pos] assms(2) have "x \<noteq> None" "idx b1 < length (blocks b1)" by auto
  with cr assms(3) show ?thesis by (auto simp: read_eq [OF assms(1)])
qed

lemma get_spec:
  assumes "chain_wf (gi_blocks it)"
  shows "codec_get c it =
    (if size \<le> length (gi_rest it) then Ok (dec (take size (gi_rest it))) else Err get_err)"
  using copy_get_spec [OF assms size_pos, of "[]"] by (simp add: get_eq [OF assms])

lemma bb_get_spec:
  assumes "bb_wf b" and "idx b < length (blocks b)" and "i \<le> length (content b)"
  shows "bb_get i (codec_get c) b =
    (if i + size \<le> length (content b) then Ok (dec (take size (drop i (content b)))) else Err get_err)"
proof -
  obtain it where "bb_get i (codec_get c) b = codec_get c it" "chain_wf (gi_blocks it)"
    "gi_rest it = drop i (content b)"
    using bb_get_Ok [OF assms(1,3,2)] by metis
  with get_spec [of it] assms(3) show ?thesis by auto
qed

end

sublocale fixed_codec \<subseteq> enc_writes c enc
proof
  show "enc v \<noteq> []" for v using size_enc [of v] size_pos by auto
qed (simp_all add: set_eq append_eq prepend_eq size_enc case_prod_beta)

sublocale fixed_codec \<subseteq> codec_laws c valid enc
proof
  show "enc v \<noteq> []" for v by (rule enc_not_Nil)
next
  fix b rest v
  assume "bb_wf b" "valid v" "content b = enc v @ rest"
  with read_spec [of b] show "\<exists>b'. bb_read (codec_read c) b = (Ok v, b') \<and> bb_wf b' \<and>
      content b' = rest \<and> growth b' = growth b \<and> tail_live b'"
    by (auto simp: bb_read_def size_enc dec_enc)
next
  fix b i rest v
  assume *: "bb_wf b" "valid v" "drop i (content b) = enc v @ rest"
  then have "length (content b) - i = size + length rest"
    by (metis length_append length_drop size_enc)
  then have "i + size \<le> length (content b)" using size_pos by simp
  moreover then have "idx b < length (blocks b)"
    using size_pos by (intro content_live) auto
  ultimately show "bb_get i (codec_get c) b = Ok v"
    using bb_get_spec [OF *(1)] * by (simp add: size_enc dec_enc)
qed (fact writes_set writes_append writes_prepend)+

end
