(* ===== verification/Codec_Bytes.thy ===== *)
theory Codec_Bytes
  imports Codec
begin

text \<open>
  The byte codecs: \<open>src/buf/codec/u8.rs\<close>, \<open>i8.rs\<close> and \<open>u8s.rs\<close> (byte strings and fillings).
  The modules \<open>u8\<close> and \<open>i8\<close> are records of their five functions; they are shown to be codecs
  of size 1, so they keep \<open>codec_laws\<close>. An \<open>i8\<close> is the integer it denotes.
\<close>

section \<open>One byte\<close>

text \<open>\<open>*ptr.offset(pos)\<close>\<close>

definition block_byte :: "nat \<Rightarrow> block \<Rightarrow> u8" where
  "block_byte pos blk = the (mem blk ! pos)"

definition u8_read :: "u8 reader" where
  "u8_read b =
     (case read_next b of
        (Some i, b1) \<Rightarrow>
          (let blk = blocks b1 ! i; off = read_pos blk; blk' = block_set_read_pos (off + 1) blk
           in (Ok (block_byte off blk'), bb_put i blk' b1))
      | (None, b1) \<Rightarrow> (Err Underflow, b1))"

definition u8_get :: "u8 getter" where
  "u8_get it =
     (case get_next it of
        (Some gb, _) \<Rightarrow> Ok (block_byte (gb_get_pos gb) (gb_inner gb))
      | (None, _) \<Rightarrow> Err IndexOutOfBounds)"

definition u8_set :: "u8 setter" where
  "u8_set v it =
     (case set_next it of
        (Some (i, off), it1) \<Rightarrow>
          (Ok 1, it1\<lparr>si_blocks := (si_blocks it1)[i := block_write off [v] (si_blocks it1 ! i)]\<rparr>)
      | (None, it1) \<Rightarrow> (Err IndexOutOfBounds, it1))"

partial_function (option) u8_append :: "u8 appender" where
  "u8_append v b =
     (if blocks b \<noteq> [] \<and> appendable (last (blocks b)) > 0
      then let blk = last (blocks b); off = write_pos blk
           in Some (Ok 1, bb_put_last (block_set_write_pos (off + 1) (block_write off [v] blk)) b)
      else u8_append v (bb_append_block 0 b))"

partial_function (option) u8_prepend :: "u8 appender" where
  "u8_prepend v b =
     (if blocks b \<noteq> [] \<and> prependable (hd (blocks b)) > 0
      then let blk = hd (blocks b); off = read_pos blk - 1
           in Some (Ok 1, bb_put_first (block_write off [v] (block_set_read_pos off blk)) b)
      else u8_prepend v (bb_prepend_block 0 b))"

definition u8_codec :: "u8 codec" where
  "u8_codec = \<lparr>codec_read = u8_read, codec_get = u8_get, codec_set = u8_set,
     codec_append = u8_append, codec_prepend = u8_prepend\<rparr>"

text \<open>The casts \<open>as iN\<close> and \<open>as uN\<close> around an unsigned codec.\<close>

definition signed_codec :: "'n::len word codec \<Rightarrow> int codec" where
  "signed_codec c =
     \<lparr>codec_read = (\<lambda>b. apfst (map_outcome sint) (codec_read c b)),
      codec_get = (\<lambda>it. map_outcome sint (codec_get c it)),
      codec_set = (\<lambda>v it. codec_set c (word_of_int v) it),
      codec_append = (\<lambda>v b. codec_append c (word_of_int v) b),
      codec_prepend = (\<lambda>v b. codec_prepend c (word_of_int v) b)\<rparr>"

definition i8_codec :: "int codec" where
  "i8_codec = signed_codec u8_codec"

section \<open>Byte strings\<close>

definition u8s_read_exact :: "bytebuf \<Rightarrow> nat \<Rightarrow> (u8 list, buf_error) outcome \<times> bytebuf" where
  "u8s_read_exact b n =
     (if n = 0 then (Ok [], b)
      else case copy_read n [] b of
             (Some buf, b') \<Rightarrow> (Ok buf, b') | (None, b') \<Rightarrow> (Err Underflow, b'))"

definition u8s_read :: "u8 list reader" where
  "u8s_read b = u8s_read_exact b (bb_len b)"

definition u8s_get_exact :: "get_iter \<Rightarrow> nat \<Rightarrow> (u8 list, buf_error) outcome" where
  "u8s_get_exact it n =
     (if n = 0 then Ok []
      else case copy_get n [] it of Some buf \<Rightarrow> Ok buf | None \<Rightarrow> Err IndexOutOfBounds)"

definition u8s_get :: "u8 list getter" where
  "u8s_get it = u8s_get_exact it (get_iter_len it)"

definition u8s_set :: "u8 list setter" where
  "u8s_set v it =
     (case copy_set v it of (ok, it') \<Rightarrow> (if ok then Ok (length v) else Err IndexOutOfBounds, it'))"

definition u8s_append :: "u8 list appender" where
  "u8s_append v b = map_option (Pair (Ok (length v))) (copy_append v b)"

text \<open>\<open>append_bytes\<close> and \<open>prepend_bytes\<close> take a vector: its bytes and its capacity.\<close>

definition u8s_append_bytes :: "(u8 list \<times> nat) appender" where
  "u8s_append_bytes v b =
     (let n = length (fst v)
      in if n < 6 * 1024 then u8s_append (fst v) b
         else Some (Ok n, bb_append_bytes (fst v) (snd v) b))"

definition u8s_prepend :: "u8 list appender" where
  "u8s_prepend v b = map_option (Pair (Ok (length v))) (copy_prepend v b)"

definition u8s_prepend_bytes :: "(u8 list \<times> nat) appender" where
  "u8s_prepend_bytes v b =
     (let n = length (fst v)
      in if n < 6 * 1024 then u8s_prepend (fst v) b
         else Some (Ok n, bb_prepend_bytes (fst v) (snd v) b))"

section \<open>Fillings\<close>

record filling =
  fill_val :: u8
  fill_count :: nat

definition mk_filling :: "u8 \<Rightarrow> nat \<Rightarrow> filling" where
  "mk_filling val count = \<lparr>fill_val = val, fill_count = count\<rparr>"

text \<open>\<open>ptr::write_bytes(ptr.offset(off), v, n)\<close>\<close>

definition block_fill :: "nat \<Rightarrow> u8 \<Rightarrow> nat \<Rightarrow> block \<Rightarrow> block" where
  "block_fill off v n blk = block_write off (replicate n v) blk"

function set_fill_loop :: "u8 \<Rightarrow> nat \<Rightarrow> set_iter \<Rightarrow> bool \<times> set_iter" where
  "set_fill_loop v n it =
     (case set_next it of
        (None, it1) \<Rightarrow> (False, it1)
      | (Some (i, off), it1) \<Rightarrow>
          (let blk = si_blocks it1 ! i; len = write_pos blk - off
           in if len \<ge> n
              then (True, it1\<lparr>si_blocks := (si_blocks it1)[i := block_fill off v n blk]\<rparr>)
              else set_fill_loop v (n - len)
                     (it1\<lparr>si_blocks := (si_blocks it1)[i := block_fill off v len blk]\<rparr>)))"
  by pat_completeness auto
termination
  by (relation "measure (\<lambda>(v, n, it). length (si_blocks it) - si_idx it)")
    (auto dest: set_next_decreases)

declare set_fill_loop.simps [simp del]

definition u8s_set_fill :: "filling setter" where
  "u8s_set_fill f it =
     (case set_fill_loop (fill_val f) (fill_count f) it of
        (ok, it') \<Rightarrow> (if ok then Ok (fill_count f) else Err IndexOutOfBounds, it'))"

partial_function (option) append_fill_loop :: "u8 \<Rightarrow> nat \<Rightarrow> bytebuf \<Rightarrow> bytebuf option" where
  "append_fill_loop v n b =
     (if blocks b = [] then append_fill_loop v n (bb_append_block 0 b)
      else let blk = last (blocks b); off = write_pos blk; room = appendable blk
           in if room \<ge> n
              then Some (bb_put_last (block_set_write_pos (off + n) (block_fill off v n blk)) b)
              else append_fill_loop v (n - room)
                     (bb_append_block 0
                       (bb_put_last (block_set_write_pos (cap blk) (block_fill off v room blk)) b)))"

definition u8s_append_fill :: "filling appender" where
  "u8s_append_fill f b =
     map_option (Pair (Ok (fill_count f))) (append_fill_loop (fill_val f) (fill_count f) b)"

partial_function (option) prepend_fill_loop :: "u8 \<Rightarrow> nat \<Rightarrow> bytebuf \<Rightarrow> bytebuf option" where
  "prepend_fill_loop v n b =
     (if blocks b = [] then prepend_fill_loop v n (bb_prepend_block 0 b)
      else let blk = hd (blocks b); room = prependable blk
           in if room \<ge> n
              then Some (bb_put_first (block_set_read_pos (room - n) (block_fill (room - n) v n blk)) b)
              else prepend_fill_loop v (n - room)
                     (bb_prepend_block 0
                       (bb_put_first (block_set_read_pos 0 (block_fill 0 v room blk)) b)))"

definition u8s_prepend_fill :: "filling appender" where
  "u8s_prepend_fill f b =
     map_option (Pair (Ok (fill_count f))) (prepend_fill_loop (fill_val f) (fill_count f) b)"

section \<open>The one-byte codecs keep the laws\<close>

lemma block_byte_range:
  assumes "block_wf blk" and "k < block_len blk"
  shows "as_bytes_range (read_pos blk + k) (Suc 0) blk = [block_byte (read_pos blk + k) blk]"
proof -
  have "read_pos blk + k < length (mem blk)"
    using assms by (auto simp: block_wf_def block_len_def)
  then show ?thesis
    by (simp add: block_byte_def as_bytes_range_def mem_bytes_def drop_eq_nth_Cons)
qed

lemma u8_read_eq:
  assumes "bb_wf b"
  shows "u8_read b = (case copy_read 1 [] b of
    (Some bs, b') \<Rightarrow> (Ok (hd bs), b') | (None, b') \<Rightarrow> (Err Underflow, b'))"
proof -
  obtain r b1 where rn: "read_next b = (r, b1)" by fastforce
  show ?thesis
  proof (cases r)
    case None
    then show ?thesis by (simp add: u8_read_def copy_read.simps [of "Suc 0" "[]" b] rn)
  next
    case (Some i)
    let ?blk = "blocks b1 ! i"
    have i: "i < length (blocks b1)" "\<not> block_is_empty ?blk"
      using read_next_shape(1,5) [OF rn] Some by auto
    have w: "block_wf ?blk" using read_next_wf(1) [OF rn assms] i(1) by (rule bb_wf_nth)
    have l: "0 < block_len ?blk" using i(2) w block_len_0_iff by blast
    have "block_byte (read_pos ?blk) (block_set_read_pos (Suc (read_pos ?blk)) ?blk) =
        block_byte (read_pos ?blk) ?blk"
      by (simp add: block_byte_def block_set_read_pos_def)
    then show ?thesis
      using Some l block_byte_range [OF w l]
      by (simp add: u8_read_def copy_read.simps [of "Suc 0" "[]" b] rn Let_def Suc_le_eq)
  qed
qed

lemma u8_get_eq:
  assumes "chain_wf (gi_blocks it)"
  shows "u8_get it = (case copy_get 1 [] it of Some bs \<Rightarrow> Ok (hd bs) | None \<Rightarrow> Err IndexOutOfBounds)"
proof -
  obtain r i' p' where cn: "chain_next (gi_blocks it) (gi_idx it) (gi_init_pos it) = (r, i', p')"
    by (metis prod_cases3)
  show ?thesis
  proof (cases r)
    case None
    then show ?thesis
      by (simp add: u8_get_def copy_get.simps [of "Suc 0" "[]" it] get_next_def cn)
  next
    case (Some x)
    obtain j k where j: "x = (j, read_pos (gi_blocks it ! j) + k)" "j < length (gi_blocks it)"
      "k < block_len (gi_blocks it ! j)"
      using chain_next_spec [OF cn assms] Some by (auto split: prod.splits)
    let ?blk = "gi_blocks it ! j"
    have "1 \<le> write_pos ?blk - (read_pos ?blk + k)" using j(3) by (simp add: block_len_def)
    then show ?thesis
      using block_byte_range [OF chain_wf_nth [OF assms j(2)] j(3)]
      by (simp add: u8_get_def copy_get.simps [of "Suc 0" "[]" it] get_next_def cn Some j(1)
          gb_len_def Let_def)
  qed
qed

lemma u8_set_eq:
  assumes "chain_wf (si_blocks it)"
  shows "u8_set v it = (case copy_set [v] it of
    (ok, it') \<Rightarrow> (if ok then Ok 1 else Err IndexOutOfBounds, it'))"
proof -
  obtain r i' p' where cn: "chain_next (si_blocks it) (si_idx it) (si_init_pos it) = (r, i', p')"
    by (metis prod_cases3)
  show ?thesis
  proof (cases r)
    case None
    then show ?thesis
      by (simp add: u8_set_def copy_set.simps [of "[v]" it] set_next_def cn)
  next
    case (Some x)
    obtain j k where j: "x = (j, read_pos (si_blocks it ! j) + k)" "k < block_len (si_blocks it ! j)"
      using chain_next_spec [OF cn assms] Some by (auto split: prod.splits)
    let ?blk = "si_blocks it ! j"
    have "1 \<le> write_pos ?blk - (read_pos ?blk + k)" using j(2) by (simp add: block_len_def)
    then show ?thesis
      by (simp add: u8_set_def copy_set.simps [of "[v]" it] set_next_def cn Some j(1) Let_def)
  qed
qed

text \<open>A full block is left as it is by writing no byte behind its last one.\<close>

lemma put_last_nothing:
  assumes "bb_wf b" and "blocks b \<noteq> []" and "appendable (last (blocks b)) = 0"
  shows "bb_put_last (block_set_write_pos (cap (last (blocks b)))
    (block_write (write_pos (last (blocks b))) [] (last (blocks b)))) b = b"
proof -
  have "cap (last (blocks b)) = write_pos (last (blocks b))"
    using assms by (auto simp: bb_wf_def chain_wf_def block_wf_def appendable_def intro: le_antisym)
  then show ?thesis
    using assms(2) by (simp add: block_write_def mem_write_def block_set_write_pos_def)
qed

lemma put_first_nothing:
  assumes "blocks b \<noteq> []" and "prependable (hd (blocks b)) = 0"
  shows "bb_put_first (block_set_read_pos 0 (block_write 0 [] (hd (blocks b)))) b = b"
proof -
  have same: "block_set_read_pos 0 (block_write 0 [] blk) = blk" if "prependable blk = 0" for blk :: block
    using that by (cases blk)
      (simp add: block_write_def mem_write_def block_set_read_pos_def prependable_def)
  show ?thesis
    unfolding same [OF assms(2)] using assms(1) by simp
qed

lemma u8_append_eq:
  assumes "bb_wf b" and "0 < growth b"
  shows "u8_append v b = map_option (Pair (Ok 1)) (copy_append [v] b)"
proof -
  have room: "u8_append v c = map_option (Pair (Ok 1)) (copy_append [v] c)"
    if "blocks c \<noteq> []" "0 < appendable (last (blocks c))" for c
    using that by (simp add: u8_append.simps [of v c] copy_append.simps [of "[v]" c] Let_def Suc_le_eq)
  let ?b1 = "bb_append_block 0 b"
  have b1: "blocks ?b1 \<noteq> []" "0 < appendable (last (blocks ?b1))"
    using assms(2) by (simp_all add: bb_append_block_def)
  show ?thesis
  proof (cases "blocks b \<noteq> [] \<and> 0 < appendable (last (blocks b))")
    case False
    then have "copy_append [v] b = copy_append [v] ?b1"
      using put_last_nothing [OF assms(1)]
      by (auto simp: copy_append.simps [of "[v]" b] Let_def Suc_le_eq)
    with False room [OF b1] show ?thesis by (auto simp: u8_append.simps [of v b])
  qed (simp add: room)
qed

lemma block_write_set_read_pos:
  "block_write off bs (block_set_read_pos p blk) = block_set_read_pos p (block_write off bs blk)"
  by (simp add: block_write_def block_set_read_pos_def)

lemma u8_prepend_eq:
  assumes "0 < growth b"
  shows "u8_prepend v b = map_option (Pair (Ok 1)) (copy_prepend [v] b)"
proof -
  have room: "u8_prepend v c = map_option (Pair (Ok 1)) (copy_prepend [v] c)"
    if "blocks c \<noteq> []" "0 < prependable (hd (blocks c))" for c
    using that
    by (simp add: u8_prepend.simps [of v c] copy_prepend.simps [of "[v]" c] Let_def Suc_le_eq
        block_write_set_read_pos prependable_def)
  let ?b1 = "bb_prepend_block 0 b"
  have b1: "blocks ?b1 \<noteq> []" "0 < prependable (hd (blocks ?b1))"
    using assms by (simp_all add: bb_prepend_block_def)
  show ?thesis
  proof (cases "blocks b \<noteq> [] \<and> 0 < prependable (hd (blocks b))")
    case False
    then have "copy_prepend [v] b = copy_prepend [v] ?b1"
      using put_first_nothing [of b]
      by (auto simp: copy_prepend.simps [of "[v]" b] Let_def)
    with False room [OF b1] show ?thesis by (auto simp: u8_prepend.simps [of v b])
  qed (simp add: room)
qed

interpretation u8_laws: fixed_codec u8_codec "\<lambda>_. True" "\<lambda>v. [v]" hd 1 IndexOutOfBounds
  by unfold_locales
    (simp_all add: u8_codec_def u8_read_eq u8_get_eq u8_set_eq u8_append_eq u8_prepend_eq)

text \<open>
  The casts: a signed codec keeps the laws of the unsigned one, on the integers in the range
  of the signed type.
\<close>

definition in_signed_range :: "nat \<Rightarrow> int \<Rightarrow> bool" where
  "in_signed_range n v \<longleftrightarrow> - (2 ^ (n - 1)) \<le> v \<and> v < 2 ^ (n - 1)"

lemma sint_word_of_int_range:
  "in_signed_range (LENGTH('n)) v \<Longrightarrow> sint (word_of_int v :: 'n::len word) = v"
  by (simp add: in_signed_range_def sint_sbintrunc' signed_take_bit_int_eq_self)

lemma apfst_map_outcome:
  "apfst (map_outcome f) (case x of (Some bs, b') \<Rightarrow> (Ok (g bs), b') | (None, b') \<Rightarrow> (Err e, b')) =
   (case x of (Some bs, b') \<Rightarrow> (Ok (f (g bs)), b') | (None, b') \<Rightarrow> (Err e, b'))"
  by (auto split: prod.splits option.splits)

lemma signed_fixed_codec:
  fixes c :: "'n::len word codec"
  assumes "fixed_codec c (\<lambda>_. True) enc dec n e"
  shows "fixed_codec (signed_codec c) (in_signed_range (LENGTH('n))) (\<lambda>v. enc (word_of_int v))
    (\<lambda>bs. sint (dec bs)) n e"
proof -
  note l = assms [unfolded fixed_codec_def]
  show ?thesis
  proof unfold_locales
    fix b :: bytebuf assume "bb_wf b"
    with l show "codec_read (signed_codec c) b = (case copy_read n [] b of
        (Some bs, b') \<Rightarrow> (Ok (sint (dec bs)), b') | (None, b') \<Rightarrow> (Err Underflow, b'))"
      by (simp add: signed_codec_def apfst_map_outcome)
  next
    fix gi :: get_iter assume "chain_wf (gi_blocks gi)"
    with l show "codec_get (signed_codec c) gi =
        (case copy_get n [] gi of Some bs \<Rightarrow> Ok (sint (dec bs)) | None \<Rightarrow> Err e)"
      by (simp add: signed_codec_def split: option.splits)
  qed (use l in \<open>simp_all add: signed_codec_def sint_word_of_int_range\<close>)
qed

interpretation i8_laws: fixed_codec i8_codec "in_signed_range 8" "\<lambda>v. [word_of_int v]"
    "\<lambda>bs. sint (hd bs)" 1 IndexOutOfBounds
  using signed_fixed_codec [OF u8_laws.fixed_codec_axioms] by (simp add: i8_codec_def)

section \<open>Byte strings\<close>

lemma u8s_read_exact_spec:
  assumes "bb_wf b" and "u8s_read_exact b n = (r, b')"
  shows "bb_wf b'" and "content b' = drop n (content b)"
    and "r = (if n \<le> length (content b) then Ok (take n (content b)) else Err Underflow)"
  using assms copy_read_spec [OF assms(1), of n "[]"]
  by (cases "n = 0"; force simp: u8s_read_exact_def split: prod.splits option.splits)+

lemma u8s_read_spec:
  assumes "bb_wf b"
  shows "\<exists>b'. u8s_read b = (Ok (content b), b') \<and> bb_wf b' \<and> content b' = []"
proof -
  obtain r b' where e: "u8s_read_exact b (bb_len b) = (r, b')" by fastforce
  show ?thesis
    using u8s_read_exact_spec [OF assms e] e assms by (simp add: u8s_read_def bb_len_content)
qed

lemma u8s_get_exact_spec:
  assumes "bb_wf b" and "i \<le> length (content b)" and "idx b < length (blocks b)"
  shows "bb_get_exact i n u8s_get_exact b =
    (if i + n \<le> length (content b) then Ok (take n (drop i (content b))) else Err IndexOutOfBounds)"
proof -
  obtain it where it: "bb_get_exact i n u8s_get_exact b = u8s_get_exact it n"
    "chain_wf (gi_blocks it)" "gi_rest it = drop i (content b)"
    using bb_get_Ok [OF assms] by metis
  show ?thesis
    using copy_get_spec [OF it(2), of n "[]"] it assms(2)
    by (cases "n = 0") (auto simp: u8s_get_exact_def)
qed

lemma get_iter_len_eq:
  assumes "chain_wf (gi_blocks it)" and "gi_blocks it \<noteq> []" and "gi_idx it = 0"
    and "gi_init_pos it \<le> block_len (hd (gi_blocks it))"
  shows "get_iter_len it = length (gi_rest it)"
proof -
  obtain blk bs where bs: "gi_blocks it = blk # bs" using assms(2) by (cases "gi_blocks it") simp_all
  then show ?thesis
    using assms fold_block_len [of bs 0]
    by (simp add: get_iter_len_def gi_rest_def iter_pos_def)
qed

lemma u8s_get_spec:
  assumes "bb_wf b" and "i \<le> length (content b)" and "idx b < length (blocks b)"
  shows "bb_get i u8s_get b = Ok (drop i (content b))"
proof -
  obtain it where it: "bb_get i u8s_get b = u8s_get it"
    "chain_wf (gi_blocks it)" "gi_rest it = drop i (content b)" "gi_blocks it \<noteq> []"
    "gi_idx it = 0" "gi_init_pos it \<le> block_len (hd (gi_blocks it))"
    using bb_get_Ok [OF assms] by metis
  show ?thesis
    using copy_get_spec [OF it(2), of "length (content b) - i" "[]"] it assms(2)
      get_iter_len_eq [OF it(2,4,5,6)]
    by (cases "i = length (content b)") (auto simp: u8s_get_def u8s_get_exact_def)
qed

lemma u8s_set_spec:
  assumes "bb_wf b" and "i \<le> length (content b)" and "idx b < length (blocks b)" and "v \<noteq> []"
  shows "\<exists>b'. bb_set i v u8s_set b =
      (if i + length v \<le> length (content b) then Ok (length v) else Err IndexOutOfBounds, b') \<and>
    bb_wf b' \<and> content b' = overlay i v (content b)"
proof -
  have "chain_wf (si_blocks it') \<and> length (si_blocks it') = length (si_blocks it) \<and>
      chain_bytes (si_blocks it') =
        overlay (iter_pos (si_blocks it) (si_idx it) (si_init_pos it)) v (chain_bytes (si_blocks it)) \<and>
      r = (if iter_pos (si_blocks it) (si_idx it) (si_init_pos it) + length v
             \<le> length (chain_bytes (si_blocks it)) then Ok (length v) else Err IndexOutOfBounds)"
    if "u8s_set v it = (r, it')" "chain_wf (si_blocks it)" for it r it'
    using that copy_set_spec [OF that(2) _ refl assms(4), of "fst (copy_set v it)" "snd (copy_set v it)"]
    by (auto simp: u8s_set_def split: prod.splits)
  from bb_set_Ok [OF assms(1-3) this] show ?thesis by metis
qed

text \<open>At the very end of the buffer even the empty string cannot be set.\<close>

lemma u8s_set_empty_at_end:
  assumes "bb_wf b" and "idx b < length (blocks b)"
  shows "fst (bb_set (length (content b)) [] u8s_set b) = Err IndexOutOfBounds"
proof -
  obtain j off where l: "locate_idx b (length (content b)) = (Ok j, off)"
    using locate_idx_total [OF assms(1)] assms(2) by blast
  note * = locate_idx_chain [OF l assms(1)] and ** = locate_idx_Ok [OF l assms(1)]
  obtain r i' p' where cn: "chain_next (drop j (blocks b)) 0 off = (r, i', p')"
    by (metis prod_cases3)
  have wf: "chain_wf (drop j (blocks b))" using assms(1) by (simp add: bb_wf_chain chain_wf_take_drop)
  have off: "off = length (chain_bytes (drop j (blocks b)))"
    using **(4) arg_cong [OF *(1), of length] by simp
  have "r = None"
  proof (rule ccontr)
    assume "r \<noteq> None"
    then obtain n k where "n < length (drop j (blocks b))" "k < block_len (drop j (blocks b) ! n)"
      "off = length (chain_bytes (take n (drop j (blocks b)))) + k"
      using chain_next_spec [OF cn wf] *(3) by (auto split: prod.splits)
    moreover have "length (chain_bytes (take n bs)) + block_len (bs ! n) \<le> length (chain_bytes bs)"
      if "n < length bs" "chain_wf bs" for bs n
      using arg_cong [OF chain_bytes_split [OF that(1)], of length] chain_wf_nth [OF that(2,1)]
      by simp
    ultimately show False
      using off wf by (metis add_le_cancel_left not_le)
  qed
  then show ?thesis
    by (simp add: bb_set_def l u8s_set_def bb_set_iter_def set_next_def cn
        copy_set.simps [of "[]" "\<lparr>si_blocks = drop j (blocks b), si_idx = 0, si_init_pos = off\<rparr>"])
qed

lemma u8s_append_bytes_spec:
  assumes "bb_wf b" and "0 < growth b" and "tail_live b" and "length v \<le> vcap"
  shows "\<exists>b'. bb_append (v, vcap) u8s_append_bytes b = Some (Ok (length v), b') \<and>
    bb_wf b' \<and> content b' = content b @ v"
  using copy_append_spec [OF assms(1-3), of v] bb_append_bytes_spec [OF assms(1,4)]
  by (auto simp: bb_append_def u8s_append_bytes_def u8s_append_def Let_def)

lemma u8s_prepend_bytes_spec:
  assumes "bb_wf b" and "0 < growth b" and "idx b = 0" and "length v \<le> vcap"
  shows "\<exists>b'. bb_prepend (v, vcap) u8s_prepend_bytes b = Some (Ok (length v), b') \<and>
    bb_wf b' \<and> content b' = v @ content b"
  using copy_prepend_spec [OF assms(1-3), of v] bb_prepend_bytes_spec [OF assms(1,4,3)]
  by (auto simp: bb_prepend_def u8s_prepend_bytes_def u8s_prepend_def Let_def)

section \<open>Fillings\<close>

text \<open>A filling does what writing so many copies of its byte does.\<close>

lemma set_fill_loop_eq: "set_fill_loop v n it = copy_set (replicate n v) it"
proof (induction v n it rule: set_fill_loop.induct)
  case (1 v n it)
  then show ?case
    by (auto simp: set_fill_loop.simps [of v n it] copy_set.simps [of "replicate n v" it]
        block_fill_def Let_def min_def not_le split: prod.splits option.splits)
qed

lemma append_fill_loop_le:
  assumes "append_fill_loop v n b = Some r"
  shows "copy_append (replicate n v) b = Some r"
  using assms
proof (induction v n b r rule: append_fill_loop.raw_induct)
  case (1 f v n b r)
  then show ?case
    by (simp add: copy_append.simps [of "replicate n v" b] append_fill_loop.simps [of v n b]
        block_fill_def Let_def min_def split: if_splits)
qed (use assms in simp)

lemma copy_append_le_fill:
  assumes "copy_append src b = Some r"
  shows "src = replicate n v \<Longrightarrow> append_fill_loop v n b = Some r"
  using assms
proof (induction src b r arbitrary: n rule: copy_append.raw_induct)
  case (1 f src b r)
  show ?case
  proof (cases "blocks b = []")
    case True
    then have "f src (bb_append_block 0 b) = Some r" "copy_append src (bb_append_block 0 b) = Some r"
      using 1(2,4) by (simp_all add: copy_append.simps [of src b])
    from 1(1) [OF this(1) 1(3) this(2)] True show ?thesis
      by (simp add: append_fill_loop.simps [of v n b])
  next
    case False
    show ?thesis
    proof (cases "n \<le> appendable (last (blocks b))")
      case True
      with 1 False show ?thesis
        by (simp add: append_fill_loop.simps [of v n b] block_fill_def Let_def)
    next
      case small: False
      let ?l = "last (blocks b)"
      let ?b1 = "bb_append_block 0 (bb_put_last (block_set_write_pos (cap ?l)
        (block_write (write_pos ?l) (take (appendable ?l) src) ?l)) b)"
      have len: "length src = n" using 1(3) by simp
      have "f (drop (appendable ?l) src) ?b1 = Some r"
        using 1(2) len False small by (simp add: Let_def)
      moreover have "copy_append (drop (appendable ?l) src) ?b1 = Some r"
        using 1(4) len False small by (simp add: copy_append.simps [of src b] Let_def)
      moreover have "drop (appendable ?l) src = replicate (n - appendable ?l) v"
        using 1(3) by simp
      ultimately have "append_fill_loop v (n - appendable ?l) ?b1 = Some r"
        using 1(1) by blast
      then show ?thesis
        using False small 1(3)
        by (simp add: append_fill_loop.simps [of v n b] block_fill_def Let_def min_def)
    qed
  qed
qed (use assms in simp)

lemma append_fill_loop_eq: "append_fill_loop v n b = copy_append (replicate n v) b"
  using append_fill_loop_le [of v n b] copy_append_le_fill [of "replicate n v" b _ n v]
  by (cases "append_fill_loop v n b"; cases "copy_append (replicate n v) b") auto

lemma prepend_fill_loop_le:
  assumes "prepend_fill_loop v n b = Some r"
  shows "copy_prepend (replicate n v) b = Some r"
  using assms
proof (induction v n b r rule: prepend_fill_loop.raw_induct)
  case (1 f v n b r)
  then show ?case
    by (simp add: copy_prepend.simps [of "replicate n v" b] prepend_fill_loop.simps [of v n b]
        block_fill_def Let_def min_def split: if_splits)
qed (use assms in simp)

lemma copy_prepend_le_fill:
  assumes "copy_prepend src b = Some r"
  shows "src = replicate n v \<Longrightarrow> prepend_fill_loop v n b = Some r"
  using assms
proof (induction src b r arbitrary: n rule: copy_prepend.raw_induct)
  case (1 f src b r)
  have len: "length src = n" using 1(3) by simp
  show ?case
  proof (cases "blocks b = []")
    case True
    then have "f src (bb_prepend_block 0 b) = Some r" "copy_prepend src (bb_prepend_block 0 b) = Some r"
      using 1(2,4) by (simp_all add: copy_prepend.simps [of src b])
    from 1(1) [OF this(1) 1(3) this(2)] True show ?thesis
      by (simp add: prepend_fill_loop.simps [of v n b])
  next
    case False
    let ?f = "hd (blocks b)"
    show ?thesis
    proof (cases "n \<le> prependable ?f")
      case True
      with 1 False show ?thesis
        by (simp add: prepend_fill_loop.simps [of v n b] block_fill_def Let_def)
    next
      case small: False
      let ?k = "n - prependable ?f"
      let ?b1 = "bb_prepend_block 0 (bb_put_first (block_set_read_pos 0
        (block_write 0 (drop ?k src) ?f)) b)"
      have "f (take ?k src) ?b1 = Some r"
        using 1(2) len False small by (simp add: Let_def)
      moreover have "copy_prepend (take ?k src) ?b1 = Some r"
        using 1(4) len False small by (simp add: copy_prepend.simps [of src b] Let_def)
      moreover have "take ?k src = replicate ?k v"
        using 1(3) small by (simp add: min_def)
      ultimately have "prepend_fill_loop v ?k ?b1 = Some r"
        using 1(1) by blast
      then show ?thesis
        using False small 1(3)
        by (simp add: prepend_fill_loop.simps [of v n b] block_fill_def Let_def)
    qed
  qed
qed (use assms in simp)

lemma prepend_fill_loop_eq: "prepend_fill_loop v n b = copy_prepend (replicate n v) b"
  using prepend_fill_loop_le [of v n b] copy_prepend_le_fill [of "replicate n v" b _ n v]
  by (cases "prepend_fill_loop v n b"; cases "copy_prepend (replicate n v) b") auto

lemma fillings_eq:
  "u8s_append_fill (mk_filling v n) = u8s_append (replicate n v)"
  "u8s_prepend_fill (mk_filling v n) = u8s_prepend (replicate n v)"
  "u8s_set_fill (mk_filling v n) = u8s_set (replicate n v)"
  by (simp_all add: fun_eq_iff mk_filling_def u8s_append_fill_def u8s_append_def append_fill_loop_eq
      u8s_prepend_fill_def u8s_prepend_def prepend_fill_loop_eq u8s_set_fill_def u8s_set_def
      set_fill_loop_eq case_prod_beta)

end
