(* ===== verification/Codec_Scalar.thy ===== *)
theory Codec_Scalar
  imports Codec_Bytes
begin

text \<open>
  The fixed-width scalar codecs: \<open>src/buf/codec/{u16,u32,u64,i16,i32,i64,f32,f64}\<close>, each in
  \<open>big_endian.rs\<close> and \<open>little_endian.rs\<close>. The files differ in the type only, so the functions
  are written once over the word length and each module is an instance. They copy the value's
  memory, whose byte order is the host's: \<open>little\<close> is \<open>cfg!(target_endian = "little")\<close>. A float
  is its bit pattern, the only thing the code touches.
\<close>

section \<open>Bytes of a word in memory\<close>

definition word_bytes :: "'n::len itself \<Rightarrow> nat" where
  "word_bytes t = LENGTH('n) div 8"

definition le_bytes :: "'n::len word \<Rightarrow> u8 list" where
  "le_bytes v = map (\<lambda>i. ucast (drop_bit (8 * i) v)) [0..<word_bytes TYPE('n)]"

primrec of_le_bytes :: "u8 list \<Rightarrow> 'n::len word" where
  "of_le_bytes [] = 0"
| "of_le_bytes (b # bs) = ucast b OR push_bit 8 (of_le_bytes bs)"

definition be_bytes :: "'n::len word \<Rightarrow> u8 list" where
  "be_bytes v = rev (le_bytes v)"

text \<open>The memory of a scalar on the host, and the scalar that memory holds.\<close>

definition host_bytes :: "bool \<Rightarrow> 'n::len word \<Rightarrow> u8 list" where
  "host_bytes little v = (if little then le_bytes v else be_bytes v)"

definition host_word :: "bool \<Rightarrow> u8 list \<Rightarrow> 'n::len word" where
  "host_word little bs = of_le_bytes (if little then bs else rev bs)"

text \<open>\<open>reverse(p, len)\<close> of \<open>src/buf/codec/mod.rs\<close>: swap \<open>i\<close> and \<open>len - 1 - i\<close>.\<close>

definition reverse_bytes :: "u8 list \<Rightarrow> u8 list" where
  "reverse_bytes p =
     (let len = length p; j = len - 1; n = len div 2
      in fold (\<lambda>i xs. xs[i := xs ! (j - i), j - i := xs ! i]) [0..<n] p)"

section \<open>The modules\<close>

definition be_read :: "bool \<Rightarrow> 'n::len word reader" where
  "be_read little b =
     (case copy_read (word_bytes TYPE('n)) [] b of
        (Some v, b') \<Rightarrow> (Ok (host_word little (if little then reverse_bytes v else v)), b')
      | (None, b') \<Rightarrow> (Err Underflow, b'))"

definition be_get :: "bool \<Rightarrow> 'n::len word getter" where
  "be_get little it =
     (case copy_get (word_bytes TYPE('n)) [] it of
        Some v \<Rightarrow> Ok (host_word little (if little then reverse_bytes v else v))
      | None \<Rightarrow> Err IndexOutOfBounds)"

definition be_set :: "bool \<Rightarrow> 'n::len word setter" where
  "be_set little v it =
     (let src = (if little then reverse_bytes (host_bytes little v) else host_bytes little v)
      in case copy_set src it of
           (ok, it') \<Rightarrow> (if ok then Ok (word_bytes TYPE('n)) else Err IndexOutOfBounds, it'))"

definition be_append :: "bool \<Rightarrow> 'n::len word appender" where
  "be_append little v b =
     (let src = (if little then reverse_bytes (host_bytes little v) else host_bytes little v)
      in map_option (Pair (Ok (word_bytes TYPE('n)))) (copy_append src b))"

definition be_prepend :: "bool \<Rightarrow> 'n::len word appender" where
  "be_prepend little v b =
     (let src = (if little then reverse_bytes (host_bytes little v) else host_bytes little v)
      in map_option (Pair (Ok (word_bytes TYPE('n)))) (copy_prepend src b))"

definition be_codec :: "bool \<Rightarrow> 'n::len word codec" where
  "be_codec little = \<lparr>codec_read = be_read little, codec_get = be_get little,
     codec_set = be_set little, codec_append = be_append little, codec_prepend = be_prepend little\<rparr>"

text \<open>\<open>get_err\<close> is the error of \<open>get\<close>, the one place where the little-endian files differ.\<close>

definition le_read :: "bool \<Rightarrow> 'n::len word reader" where
  "le_read little b =
     (case copy_read (word_bytes TYPE('n)) [] b of
        (Some v, b') \<Rightarrow> (Ok (host_word little (if \<not> little then reverse_bytes v else v)), b')
      | (None, b') \<Rightarrow> (Err Underflow, b'))"

definition le_get :: "buf_error \<Rightarrow> bool \<Rightarrow> 'n::len word getter" where
  "le_get get_err little it =
     (case copy_get (word_bytes TYPE('n)) [] it of
        Some v \<Rightarrow> Ok (host_word little (if \<not> little then reverse_bytes v else v))
      | None \<Rightarrow> Err get_err)"

definition le_set :: "bool \<Rightarrow> 'n::len word setter" where
  "le_set little v it =
     (let src = (if \<not> little then reverse_bytes (host_bytes little v) else host_bytes little v)
      in case copy_set src it of
           (ok, it') \<Rightarrow> (if ok then Ok (word_bytes TYPE('n)) else Err IndexOutOfBounds, it'))"

definition le_append :: "bool \<Rightarrow> 'n::len word appender" where
  "le_append little v b =
     (let src = (if \<not> little then reverse_bytes (host_bytes little v) else host_bytes little v)
      in map_option (Pair (Ok (word_bytes TYPE('n)))) (copy_append src b))"

definition le_prepend :: "bool \<Rightarrow> 'n::len word appender" where
  "le_prepend little v b =
     (let src = (if \<not> little then reverse_bytes (host_bytes little v) else host_bytes little v)
      in map_option (Pair (Ok (word_bytes TYPE('n)))) (copy_prepend src b))"

definition le_codec :: "buf_error \<Rightarrow> bool \<Rightarrow> 'n::len word codec" where
  "le_codec get_err little = \<lparr>codec_read = le_read little, codec_get = le_get get_err little,
     codec_set = le_set little, codec_append = le_append little, codec_prepend = le_prepend little\<rparr>"

definition u16_big_endian :: "bool \<Rightarrow> u16 codec" where
  "u16_big_endian little = be_codec little"

definition u16_little_endian :: "bool \<Rightarrow> u16 codec" where
  "u16_little_endian little = le_codec IndexOutOfBounds little"

definition u32_big_endian :: "bool \<Rightarrow> u32 codec" where
  "u32_big_endian little = be_codec little"

definition u32_little_endian :: "bool \<Rightarrow> u32 codec" where
  "u32_little_endian little = le_codec IndexOutOfBounds little"

definition u64_big_endian :: "bool \<Rightarrow> u64 codec" where
  "u64_big_endian little = be_codec little"

definition u64_little_endian :: "bool \<Rightarrow> u64 codec" where
  "u64_little_endian little = le_codec Underflow little"

definition f32_big_endian :: "bool \<Rightarrow> 32 word codec" where
  "f32_big_endian little = be_codec little"

definition f32_little_endian :: "bool \<Rightarrow> 32 word codec" where
  "f32_little_endian little = le_codec IndexOutOfBounds little"

definition f64_big_endian :: "bool \<Rightarrow> 64 word codec" where
  "f64_big_endian little = be_codec little"

definition f64_little_endian :: "bool \<Rightarrow> 64 word codec" where
  "f64_little_endian little = le_codec IndexOutOfBounds little"

definition i16_big_endian :: "bool \<Rightarrow> int codec" where
  "i16_big_endian little = signed_codec (u16_big_endian little)"

definition i16_little_endian :: "bool \<Rightarrow> int codec" where
  "i16_little_endian little = signed_codec (u16_little_endian little)"

definition i32_big_endian :: "bool \<Rightarrow> int codec" where
  "i32_big_endian little = signed_codec (u32_big_endian little)"

definition i32_little_endian :: "bool \<Rightarrow> int codec" where
  "i32_little_endian little = signed_codec (u32_little_endian little)"

definition i64_big_endian :: "bool \<Rightarrow> int codec" where
  "i64_big_endian little = signed_codec (u64_big_endian little)"

definition i64_little_endian :: "bool \<Rightarrow> int codec" where
  "i64_little_endian little = signed_codec (u64_little_endian little)"

section \<open>Byte order\<close>

lemma reverse_bytes_eq: "reverse_bytes p = rev p"
proof -
  let ?n = "length p"
  let ?swap = "\<lambda>i xs. xs[i := xs ! (?n - 1 - i), ?n - 1 - i := xs ! i]"
  have inv: "length (fold ?swap [0..<k] p) = ?n \<and> (\<forall>i < ?n. fold ?swap [0..<k] p ! i =
      (if i < k \<or> ?n - k \<le> i then p ! (?n - 1 - i) else p ! i))"
    if "k \<le> ?n div 2" for k
    using that
  proof (induction k)
    case (Suc k)
    let ?xs = "fold ?swap [0..<k] p"
    have xs: "length ?xs = ?n" "\<And>i. i < ?n \<Longrightarrow> ?xs ! i =
        (if i < k \<or> ?n - k \<le> i then p ! (?n - 1 - i) else p ! i)"
      using Suc by simp_all
    have k: "2 * Suc k \<le> ?n" using Suc.prems by simp
    have "fold ?swap [0..<Suc k] p = ?swap k ?xs" by simp
    moreover have "?swap k ?xs ! i =
        (if i < Suc k \<or> ?n - Suc k \<le> i then p ! (?n - 1 - i) else p ! i)" if i: "i < ?n" for i
    proof -
      consider "i = k" | "i = ?n - 1 - k" "i \<noteq> k" | "i \<noteq> k" "i \<noteq> ?n - 1 - k" by blast
      then show ?thesis
      proof cases
        case 1
        then have "?swap k ?xs ! i = ?xs ! (?n - 1 - k)" using xs(1) k by (simp add: nth_list_update)
        also have "\<dots> = p ! (?n - 1 - k)"
        proof -
          have "\<not> (?n - 1 - k < k \<or> ?n - k \<le> ?n - 1 - k)" "?n - 1 - k < ?n" using k by auto
          from xs(2) [OF this(2), unfolded if_not_P [OF this(1)]] show ?thesis .
        qed
        finally show ?thesis using 1 by simp
      next
        case 2
        then have "?swap k ?xs ! i = ?xs ! k" using xs(1) k by (simp add: nth_list_update)
        also have "\<dots> = p ! k"
        proof -
          have "\<not> (k < k \<or> ?n - k \<le> k)" "k < ?n" using k by auto
          from xs(2) [OF this(2), unfolded if_not_P [OF this(1)]] show ?thesis .
        qed
        finally have "?swap k ?xs ! i = p ! k" .
        moreover have "?n - 1 - i = k" "?n - Suc k \<le> i" using 2(1) k by auto
        ultimately show ?thesis by (simp only: simp_thms if_True)
      next
        case 3
        then have "?swap k ?xs ! i = ?xs ! i" using xs(1) by (simp add: nth_list_update)
        moreover have "(i < k \<or> ?n - k \<le> i) = (i < Suc k \<or> ?n - Suc k \<le> i)"
          using 3 k i by linarith
        ultimately show ?thesis using xs(2) [OF i] by simp
      qed
    qed
    ultimately show ?case using xs(1) by simp
  qed simp
  have "fold ?swap [0..<?n div 2] p = rev p"
  proof (rule nth_equalityI)
    fix i assume "i < length (fold ?swap [0..<?n div 2] p)"
    then have i: "i < ?n" using inv [of "?n div 2"] by simp
    have "p ! (?n - 1 - i) = p ! i" if "\<not> (i < ?n div 2 \<or> ?n - ?n div 2 \<le> i)"
    proof -
      have "?n - 1 - i = i" using that i by linarith
      then show ?thesis by simp
    qed
    then show "fold ?swap [0..<?n div 2] p ! i = rev p ! i"
      using inv [of "?n div 2"] i by (auto simp: rev_nth)
  qed (use inv [of "?n div 2"] in simp)
  then show ?thesis by (simp add: reverse_bytes_def Let_def)
qed

lemma length_le_bytes [simp]: "length (le_bytes (v :: 'n::len word)) = word_bytes TYPE('n)"
  by (simp add: le_bytes_def)

lemma bit_of_le_bytes:
  "bit (of_le_bytes bs :: 'n::len word) n \<longleftrightarrow>
     n < LENGTH('n) \<and> n div 8 < length bs \<and> bit (bs ! (n div 8)) (n mod 8)"
proof (induction bs arbitrary: n)
  case (Cons b bs)
  show ?case
  proof (cases "n < 8")
    case True
    then show ?thesis
      by (auto simp: bit_or_iff bit_push_bit_iff bit_unsigned_iff)
  next
    case False
    then obtain m where "n = 8 + m" using le_Suc_ex not_less by blast
    then have n: "n div 8 = Suc ((n - 8) div 8)" "n mod 8 = (n - 8) mod 8" by simp_all
    have "bit (of_le_bytes (b # bs) :: 'n word) n \<longleftrightarrow> n < LENGTH('n) \<and> bit (of_le_bytes bs :: 'n word) (n - 8)"
    proof -
      have "\<not> bit b n" using False bit_imp_le_length [of b n] by auto
      then have "\<not> bit (ucast b :: 'n word) n" by (simp only: bit_unsigned_iff simp_thms)
      moreover have "bit (push_bit 8 (of_le_bytes bs) :: 'n word) n \<longleftrightarrow>
          n < LENGTH('n) \<and> bit (of_le_bytes bs :: 'n word) (n - 8)"
        using False by (simp only: bit_push_bit_iff possible_bit_word not_less simp_thms)
      ultimately show ?thesis by (simp only: of_le_bytes.simps bit_or_iff simp_thms)
    qed
    also have "\<dots> \<longleftrightarrow> n < LENGTH('n) \<and> (n - 8) div 8 < length bs \<and> bit (bs ! ((n - 8) div 8)) ((n - 8) mod 8)"
      using Cons.IH [of "n - 8"] by auto
    finally show ?thesis by (simp only: n length_Cons Suc_less_eq nth_Cons_Suc)
  qed
qed simp

lemma of_le_bytes_le_bytes:
  assumes "8 dvd LENGTH('n)"
  shows "of_le_bytes (le_bytes v) = (v :: 'n::len word)"
proof (rule bit_word_eqI)
  fix n assume n: "n < LENGTH('n)"
  then have "n div 8 < word_bytes TYPE('n)"
    using assms by (auto simp: word_bytes_def)
  moreover then have "le_bytes v ! (n div 8) = ucast (drop_bit (8 * (n div 8)) v)"
    by (simp add: le_bytes_def)
  ultimately show "bit (of_le_bytes (le_bytes v) :: 'n word) n = bit v n"
    using n by (simp add: bit_of_le_bytes bit_unsigned_iff bit_drop_bit_eq)
qed

lemmas byte_order = host_word_def host_bytes_def reverse_bytes_eq be_bytes_def

lemma word_bytes_pos:
  assumes "8 dvd LENGTH('n)"
  shows "0 < word_bytes TYPE('n::len)"
proof -
  obtain k where k: "LENGTH('n) = 8 * k" using assms by (elim dvdE)
  then have "k \<noteq> 0" by (metis len_not_eq_0 mult_0_right)
  with k show ?thesis by (simp add: word_bytes_def)
qed

lemma be_fixed_codec:
  assumes "8 dvd LENGTH('n)"
  shows "fixed_codec (be_codec little :: 'n::len word codec) (\<lambda>_. True) be_bytes
    (\<lambda>bs. of_le_bytes (rev bs)) (word_bytes TYPE('n)) IndexOutOfBounds"
proof unfold_locales
  show "0 < word_bytes TYPE('n)"
    using assms by (rule word_bytes_pos)
qed (simp_all add: be_codec_def be_read_def be_get_def be_set_def be_append_def be_prepend_def
    byte_order of_le_bytes_le_bytes assms split: option.splits prod.splits)

lemma le_fixed_codec:
  assumes "8 dvd LENGTH('n)"
  shows "fixed_codec (le_codec e little :: 'n::len word codec) (\<lambda>_. True) le_bytes
    of_le_bytes (word_bytes TYPE('n)) e"
proof unfold_locales
  show "0 < word_bytes TYPE('n)"
    using assms by (rule word_bytes_pos)
qed (simp_all add: le_codec_def le_read_def le_get_def le_set_def le_append_def le_prepend_def
    byte_order of_le_bytes_le_bytes assms split: option.splits prod.splits)


section \<open>The instances\<close>

interpretation u16_be_laws: fixed_codec "u16_big_endian little" "\<lambda>_. True" be_bytes
    "\<lambda>bs. of_le_bytes (rev bs)" 2 IndexOutOfBounds
  using be_fixed_codec [where 'n = 16 and little = little] by (simp add: u16_big_endian_def word_bytes_def)

interpretation u16_le_laws: fixed_codec "u16_little_endian little" "\<lambda>_. True" le_bytes
    of_le_bytes 2 IndexOutOfBounds
  using le_fixed_codec [where 'n = 16 and little = little and e = IndexOutOfBounds] by (simp add: u16_little_endian_def word_bytes_def)

interpretation u32_be_laws: fixed_codec "u32_big_endian little" "\<lambda>_. True" be_bytes
    "\<lambda>bs. of_le_bytes (rev bs)" 4 IndexOutOfBounds
  using be_fixed_codec [where 'n = 32 and little = little] by (simp add: u32_big_endian_def word_bytes_def)

interpretation u32_le_laws: fixed_codec "u32_little_endian little" "\<lambda>_. True" le_bytes
    of_le_bytes 4 IndexOutOfBounds
  using le_fixed_codec [where 'n = 32 and little = little and e = IndexOutOfBounds] by (simp add: u32_little_endian_def word_bytes_def)

interpretation u64_be_laws: fixed_codec "u64_big_endian little" "\<lambda>_. True" be_bytes
    "\<lambda>bs. of_le_bytes (rev bs)" 8 IndexOutOfBounds
  using be_fixed_codec [where 'n = 64 and little = little] by (simp add: u64_big_endian_def word_bytes_def)

interpretation u64_le_laws: fixed_codec "u64_little_endian little" "\<lambda>_. True" le_bytes
    of_le_bytes 8 Underflow
  using le_fixed_codec [where 'n = 64 and little = little and e = Underflow] by (simp add: u64_little_endian_def word_bytes_def)

interpretation f32_be_laws: fixed_codec "f32_big_endian little" "\<lambda>_. True" be_bytes
    "\<lambda>bs. of_le_bytes (rev bs)" 4 IndexOutOfBounds
  using be_fixed_codec [where 'n = 32 and little = little] by (simp add: f32_big_endian_def word_bytes_def)

interpretation f32_le_laws: fixed_codec "f32_little_endian little" "\<lambda>_. True" le_bytes
    of_le_bytes 4 IndexOutOfBounds
  using le_fixed_codec [where 'n = 32 and little = little and e = IndexOutOfBounds] by (simp add: f32_little_endian_def word_bytes_def)

interpretation f64_be_laws: fixed_codec "f64_big_endian little" "\<lambda>_. True" be_bytes
    "\<lambda>bs. of_le_bytes (rev bs)" 8 IndexOutOfBounds
  using be_fixed_codec [where 'n = 64 and little = little] by (simp add: f64_big_endian_def word_bytes_def)

interpretation f64_le_laws: fixed_codec "f64_little_endian little" "\<lambda>_. True" le_bytes
    of_le_bytes 8 IndexOutOfBounds
  using le_fixed_codec [where 'n = 64 and little = little and e = IndexOutOfBounds] by (simp add: f64_little_endian_def word_bytes_def)

interpretation i16_be_laws: fixed_codec "i16_big_endian little" "in_signed_range 16"
    "\<lambda>v. be_bytes (word_of_int v :: u16)" "\<lambda>bs. sint (of_le_bytes (rev bs) :: u16)" 2 IndexOutOfBounds
  using signed_fixed_codec [OF u16_be_laws.fixed_codec_axioms] by (simp add: i16_big_endian_def)

interpretation i16_le_laws: fixed_codec "i16_little_endian little" "in_signed_range 16"
    "\<lambda>v. le_bytes (word_of_int v :: u16)" "\<lambda>bs. sint (of_le_bytes bs :: u16)" 2 IndexOutOfBounds
  using signed_fixed_codec [OF u16_le_laws.fixed_codec_axioms] by (simp add: i16_little_endian_def)

interpretation i32_be_laws: fixed_codec "i32_big_endian little" "in_signed_range 32"
    "\<lambda>v. be_bytes (word_of_int v :: u32)" "\<lambda>bs. sint (of_le_bytes (rev bs) :: u32)" 4 IndexOutOfBounds
  using signed_fixed_codec [OF u32_be_laws.fixed_codec_axioms] by (simp add: i32_big_endian_def)

interpretation i32_le_laws: fixed_codec "i32_little_endian little" "in_signed_range 32"
    "\<lambda>v. le_bytes (word_of_int v :: u32)" "\<lambda>bs. sint (of_le_bytes bs :: u32)" 4 IndexOutOfBounds
  using signed_fixed_codec [OF u32_le_laws.fixed_codec_axioms] by (simp add: i32_little_endian_def)

interpretation i64_be_laws: fixed_codec "i64_big_endian little" "in_signed_range 64"
    "\<lambda>v. be_bytes (word_of_int v :: u64)" "\<lambda>bs. sint (of_le_bytes (rev bs) :: u64)" 8 IndexOutOfBounds
  using signed_fixed_codec [OF u64_be_laws.fixed_codec_axioms] by (simp add: i64_big_endian_def)

interpretation i64_le_laws: fixed_codec "i64_little_endian little" "in_signed_range 64"
    "\<lambda>v. le_bytes (word_of_int v :: u64)" "\<lambda>bs. sint (of_le_bytes bs :: u64)" 8 Underflow
  using signed_fixed_codec [OF u64_le_laws.fixed_codec_axioms] by (simp add: i64_little_endian_def)

end
