(* ===== verification/Codec_Varint.thy ===== *)
theory Codec_Varint
  imports Codec_Scalar
begin

text \<open>
  The variable-length codecs \<open>src/buf/codec/{u16,u32,u64,i16,i32,i64}/varint.rs\<close>: seven bits a
  byte, least significant first, the top bit set on every byte but the last. The files differ in
  the type only. The reference encoding is \<open>varint_bytes\<close>; the loops of the code, which go
  through the blocks byte by byte, are shown to read and write exactly it. \<open>prepend\<close> finds the
  last group first and writes backwards.
\<close>

section \<open>The loops\<close>

text \<open>\<open>wrapping_shl\<close> masks the shift count, \<open>shift.wrapping_add(7)\<close> is addition of \<open>u32\<close>.\<close>

definition wrapping_shl :: "'n::len word \<Rightarrow> u32 \<Rightarrow> 'n word" where
  "wrapping_shl v shift = push_bit (unat shift mod LENGTH('n)) v"

text \<open>
  The inner \<open>for pos in read_pos..write_pos\<close> of \<open>read\<close> and \<open>get\<close> over a block's bytes: \<open>Inl\<close> is
  the value and the position of its last byte, \<open>Inr\<close> the running value and shift at the end.
\<close>

fun varint_scan :: "'n::len word \<Rightarrow> u32 \<Rightarrow> nat \<Rightarrow> u8 list \<Rightarrow> ('n word \<times> nat) + ('n word \<times> u32)" where
  "varint_scan v shift pos [] = Inr (v, shift)"
| "varint_scan v shift pos (x # xs) =
     (let b = ucast x; v' = v OR wrapping_shl (b AND 0x7F) shift
      in if b AND NOT 0x7F = 0 then Inl (v', pos) else varint_scan v' (shift + 7) (pos + 1) xs)"

function varint_read_loop :: "'n::len word \<Rightarrow> u32 \<Rightarrow> 'n word reader" where
  "varint_read_loop v shift b =
     (case read_next b of
        (None, b1) \<Rightarrow> (Err Underflow, b1)
      | (Some i, b1) \<Rightarrow>
          (let blk = blocks b1 ! i
           in case varint_scan v shift (read_pos blk) (as_bytes_range (read_pos blk) (write_pos blk - read_pos blk) blk) of
                Inl (v', pos) \<Rightarrow> (Ok v', bb_put i (block_set_read_pos (pos + 1) blk) b1)
              | Inr (v', shift') \<Rightarrow>
                  varint_read_loop v' shift' (bb_put i (block_set_read_pos (write_pos blk) blk) b1)))"
  by pat_completeness auto
termination
  by (relation "measure (\<lambda>(v, shift, b). read_fuel b)") (auto dest: read_fuel_loop)

declare varint_read_loop.simps [simp del]

definition varint_read :: "'n::len word reader" where
  "varint_read b = varint_read_loop 0 0 b"

function varint_get_loop :: "'n::len word \<Rightarrow> u32 \<Rightarrow> 'n word getter" where
  "varint_get_loop v shift it =
     (case get_next it of
        (None, it1) \<Rightarrow> Err IndexOutOfBounds
      | (Some gb, it1) \<Rightarrow>
          (case varint_scan v shift (gb_get_pos gb) (as_bytes_range (gb_get_pos gb) (gb_len gb) (gb_inner gb)) of
             Inl (v', pos) \<Rightarrow> Ok v'
           | Inr (v', shift') \<Rightarrow> varint_get_loop v' shift' it1))"
  by pat_completeness auto
termination
  by (relation "measure (\<lambda>(v, shift, it). length (gi_blocks it) - gi_idx it)")
    (auto dest: get_next_decreases)

declare varint_get_loop.simps [simp del]

definition varint_get :: "'n::len word getter" where
  "varint_get it = varint_get_loop 0 0 it"

text \<open>
  The inner loop of \<open>set\<close> and \<open>append\<close> over \<open>m\<close> positions from \<open>pos\<close> on: \<open>Inl\<close> is the count
  of bytes and the position of the last one, \<open>Inr\<close> the rest of the value and the count so far.
\<close>

fun varint_fill :: "'n::len word \<Rightarrow> nat \<Rightarrow> nat \<Rightarrow> nat \<Rightarrow> block \<Rightarrow>
    ((nat \<times> nat) + ('n word \<times> nat)) \<times> block" where
  "varint_fill v n pos 0 blk = (Inr (v, n), blk)"
| "varint_fill v n pos (Suc m) blk =
     (if v AND NOT 0x7F = 0 then (Inl (n + 1, pos), block_write pos [ucast v] blk)
      else varint_fill (drop_bit 7 v) (n + 1) (pos + 1) m (block_write pos [ucast (v OR 0x80)] blk))"

function varint_set_loop :: "'n::len word \<Rightarrow> nat \<Rightarrow> set_iter \<Rightarrow> (nat, buf_error) outcome \<times> set_iter" where
  "varint_set_loop v n it =
     (case set_next it of
        (None, it1) \<Rightarrow> (Err IndexOutOfBounds, it1)
      | (Some (i, off), it1) \<Rightarrow>
          (let blk = si_blocks it1 ! i
           in case varint_fill v n off (write_pos blk - off) blk of
                (Inl (n', pos), blk') \<Rightarrow> (Ok n', it1\<lparr>si_blocks := (si_blocks it1)[i := blk']\<rparr>)
              | (Inr (v', n'), blk') \<Rightarrow>
                  varint_set_loop v' n' (it1\<lparr>si_blocks := (si_blocks it1)[i := blk']\<rparr>)))"
  by pat_completeness auto
termination
  by (relation "measure (\<lambda>(v, n, it). length (si_blocks it) - si_idx it)")
    (auto dest: set_next_decreases)

declare varint_set_loop.simps [simp del]

definition varint_set :: "'n::len word setter" where
  "varint_set v it = varint_set_loop v 0 it"

partial_function (option) varint_append_loop ::
  "'n::len word \<Rightarrow> nat \<Rightarrow> bytebuf \<Rightarrow> ((nat, unit) outcome \<times> bytebuf) option" where
  "varint_append_loop v n b =
     (if blocks b = [] then varint_append_loop v n (bb_append_block 0 b)
      else let blk = last (blocks b)
           in case varint_fill v n (write_pos blk) (cap blk - write_pos blk) blk of
                (Inl (n', pos), blk') \<Rightarrow>
                  Some (Ok n', bb_put_last (block_set_write_pos (pos + 1) blk') b)
              | (Inr (v', n'), blk') \<Rightarrow>
                  varint_append_loop v' n'
                    (bb_append_block 0 (bb_put_last (block_set_write_pos (cap blk) blk') b)))"

definition varint_append :: "'n::len word appender" where
  "varint_append v b = varint_append_loop v 0 b"

lemma unat_drop_7: "(w :: 'n::len word) \<noteq> 0 \<Longrightarrow> unat (drop_bit 7 w) < unat w"
  unfolding unat_drop_bit_eq by (simp add: drop_bit_eq_div unat_gt_0)

text \<open>\<open>prepend\<close>: the shift of the last group, and the loop that writes backwards.\<close>

function varint_shift :: "'n::len word \<Rightarrow> nat \<Rightarrow> nat" where
  "varint_shift v shift = (if drop_bit shift v > 0x7F then varint_shift v (shift + 7) else shift)"
  by pat_completeness auto
termination
proof (relation "measure (\<lambda>(v, shift). unat (drop_bit shift v))")
  fix v :: "'a word" and shift :: nat
  assume "drop_bit shift v > 0x7F"
  then have "drop_bit shift v \<noteq> 0" by auto
  then have "unat (drop_bit 7 (drop_bit shift v)) < unat (drop_bit shift v)"
    by (rule unat_drop_7)
  then show "((v, shift + 7), v, shift) \<in> measure (\<lambda>(v, shift). unat (drop_bit shift v))"
    by (simp add: add.commute)
qed simp

declare varint_shift.simps [simp del]

text \<open>
  The inner \<open>for pos in (0..read_pos).rev()\<close> over the first \<open>p\<close> positions: \<open>Inl\<close> is the count
  and the position of the first byte, \<open>Inr\<close> the shift, flag and count so far.
\<close>

fun varint_fill_back :: "'n::len word \<Rightarrow> nat \<Rightarrow> 'n word \<Rightarrow> nat \<Rightarrow> nat \<Rightarrow> block \<Rightarrow>
    ((nat \<times> nat) + (nat \<times> 'n word \<times> nat)) \<times> block" where
  "varint_fill_back v shift flag n 0 blk = (Inr (shift, flag, n), blk)"
| "varint_fill_back v shift flag n (Suc p) blk =
     (let blk' = block_write p [ucast (drop_bit shift v OR flag)] blk
      in if shift = 0 then (Inl (n + 1, p), blk')
         else varint_fill_back v (shift - 7) 0x80 (n + 1) p blk')"

partial_function (option) varint_prepend_loop ::
  "'n::len word \<Rightarrow> nat \<Rightarrow> 'n word \<Rightarrow> nat \<Rightarrow> bytebuf \<Rightarrow> ((nat, unit) outcome \<times> bytebuf) option" where
  "varint_prepend_loop v shift flag n b =
     (if blocks b = [] then varint_prepend_loop v shift flag n (bb_prepend_block 0 b)
      else let blk = hd (blocks b)
           in case varint_fill_back v shift flag n (read_pos blk) blk of
                (Inl (n', pos), blk') \<Rightarrow> Some (Ok n', bb_put_first (block_set_read_pos pos blk') b)
              | (Inr (shift', flag', n'), blk') \<Rightarrow>
                  varint_prepend_loop v shift' flag' n'
                    (bb_prepend_block 0 (bb_put_first (block_set_read_pos 0 blk') b)))"

definition varint_prepend :: "'n::len word appender" where
  "varint_prepend v b = varint_prepend_loop v (varint_shift v 0) 0 0 b"

section \<open>The reference encoding\<close>

function varint_bytes :: "'n::len word \<Rightarrow> u8 list" where
  "varint_bytes v =
     (if v AND NOT 0x7F = 0 then [ucast v] else ucast (v OR 0x80) # varint_bytes (drop_bit 7 v))"
  by pat_completeness auto
termination
  by (relation "measure unat") (auto intro: unat_drop_7)

declare varint_bytes.simps [simp del]

lemma varint_bytes_nonempty: "varint_bytes v \<noteq> []"
  by (subst varint_bytes.simps) simp

lemma bit_7F: "bit (0x7F :: 'n::len word) i \<longleftrightarrow> i < 7 \<and> i < LENGTH('n)"
proof -
  have *: "(0x7F :: 'n word) = mask 7" by (simp add: mask_eq_exp_minus_1)
  show ?thesis unfolding * bit_mask_iff by auto
qed

lemma bit_80: "bit (0x80 :: 'n::len word) i \<longleftrightarrow> i = 7 \<and> i < LENGTH('n)"
proof -
  have *: "(0x80 :: 'n word) = 2 ^ 7" by simp
  show ?thesis unfolding * bit_exp_iff by auto
qed

lemma no_high_bits:
  "(v :: 'n::len word) AND NOT 0x7F = 0 \<longleftrightarrow> (\<forall>i \<ge> 7. \<not> bit v i)"
  unfolding bit_eq_iff bit_and_iff bit_not_iff bit_7F by (auto dest: bit_imp_le_length) (meson leI)

lemma no_high_bits_drop: "(v :: 'n::len word) AND NOT 0x7F = 0 \<longleftrightarrow> drop_bit 7 v = 0"
proof
  assume *: "v AND NOT 0x7F = 0"
  show "drop_bit 7 v = 0"
    by (rule bit_word_eqI) (use * [unfolded no_high_bits] in \<open>simp add: bit_drop_bit_eq\<close>)
next
  assume *: "drop_bit 7 v = 0"
  have "\<not> bit v i" if "7 \<le> i" for i
  proof -
    have "\<not> bit (drop_bit 7 v) (i - 7)" using * by simp
    with that show ?thesis by (simp add: bit_drop_bit_eq)
  qed
  then show "v AND NOT 0x7F = 0" unfolding no_high_bits by blast
qed

text \<open>What a byte of the encoding is to the reader.\<close>

lemma group_bits:
  assumes "8 \<le> LENGTH('n)"
  shows "ucast (ucast (v OR 0x80) :: u8) AND 0x7F = (v AND 0x7F :: 'n::len word)"
    and "ucast (ucast (v OR 0x80) :: u8) AND NOT 0x7F \<noteq> (0 :: 'n word)"
proof -
  show "ucast (ucast (v OR 0x80) :: u8) AND 0x7F = (v AND 0x7F :: 'n word)"
    by (rule bit_word_eqI)
      (unfold bit_and_iff bit_or_iff bit_unsigned_iff bit_7F bit_80, use assms in auto)
  have "bit (ucast (ucast (v OR 0x80) :: u8) :: 'n word) 7"
    unfolding bit_or_iff bit_unsigned_iff bit_80 using assms by simp
  then show "ucast (ucast (v OR 0x80) :: u8) AND NOT 0x7F \<noteq> (0 :: 'n word)"
    unfolding no_high_bits by blast
qed

lemma last_group_bits:
  assumes "v AND NOT 0x7F = 0" and "8 \<le> LENGTH('n)"
  shows "ucast (ucast v :: u8) = (v :: 'n::len word)" and "v AND 0x7F = v"
proof -
  have high: "\<not> bit v i" if "7 \<le> i" for i
    using assms(1) [unfolded no_high_bits] that by blast
  show "ucast (ucast v :: u8) = v"
  proof (rule bit_word_eqI)
    fix i assume "i < LENGTH('n)"
    with high [of i] assms(2) show "bit (ucast (ucast v :: u8) :: 'n word) i = bit v i"
      by (cases "7 \<le> i") (auto simp: bit_unsigned_iff)
  qed
  show "v AND 0x7F = v"
  proof (rule bit_word_eqI)
    fix i assume "i < LENGTH('n)"
    with high [of i] show "bit (v AND 0x7F) i = bit v i"
      unfolding bit_and_iff bit_7F by (cases "7 \<le> i") auto
  qed
qed

lemma push_split:
  "push_bit s (v AND 0x7F) OR push_bit (s + 7) (drop_bit 7 v) = push_bit s (v :: 'n::len word)"
proof (rule bit_word_eqI)
  fix i assume "i < LENGTH('n)"
  moreover have "7 + (i - (s + 7)) = i - s" if "s + 7 \<le> i" using that by simp
  ultimately show "bit (push_bit s (v AND 0x7F) OR push_bit (s + 7) (drop_bit 7 v)) i = bit (push_bit s v) i"
    unfolding bit_or_iff bit_push_bit_iff bit_and_iff bit_7F bit_drop_bit_eq by (cases "s + 7 \<le> i") auto
qed

text \<open>Reading back what \<open>varint_bytes\<close> gives, from any shift at which the value still fits.\<close>

lemma varint_scan_bytes:
  fixes v acc :: "'n::len word"
  assumes "8 \<le> LENGTH('n)" and "LENGTH('n) \<le> 64"
    and "unat shift < LENGTH('n)" and "drop_bit (LENGTH('n) - unat shift) v = 0"
  shows "varint_scan acc shift pos (varint_bytes v @ rest) =
    Inl (acc OR push_bit (unat shift) v, pos + length (varint_bytes v) - 1)"
  using assms
proof (induction v arbitrary: acc shift pos rule: varint_bytes.induct)
  case (1 v)
  show ?case
  proof (cases "v AND NOT 0x7F = 0")
    case True
    then have "ucast (ucast v :: u8) AND NOT 0x7F = (0 :: 'n word)"
      using last_group_bits(1) [OF True "1.prems"(1)] by simp
    moreover have "ucast (ucast v :: u8) AND 0x7F = v"
      using last_group_bits [OF True "1.prems"(1)] by simp
    ultimately show ?thesis
      using True "1.prems"(3)
      by (simp add: varint_bytes.simps [of v] wrapping_shl_def Let_def del: push_bit_and)
  next
    case False
    note g = group_bits [OF "1.prems"(1), of v]
    have s7: "unat (shift + 7) = unat shift + 7"
      using "1.prems"(2,3) by (simp add: unat_word_ariths)
    have fit: "drop_bit (LENGTH('n) - unat (shift + 7)) (drop_bit 7 v) = 0 \<and> unat (shift + 7) < LENGTH('n)"
    proof (cases "unat shift + 7 < LENGTH('n)")
      case True
      then have "LENGTH('n) - (unat shift + 7) + 7 = LENGTH('n) - unat shift" by simp
      then have "drop_bit (LENGTH('n) - (unat shift + 7)) (drop_bit 7 v) =
          drop_bit (LENGTH('n) - unat shift) v"
        by (simp only: drop_bit_drop_bit)
      with "1.prems"(4) True show ?thesis by (simp only: s7 simp_thms)
    next
      case small: False
      have "drop_bit 7 v = 0"
      proof (rule bit_word_eqI)
        fix i
        have "\<not> bit (drop_bit (LENGTH('n) - unat shift) v) (i + 7 - (LENGTH('n) - unat shift))"
          using "1.prems"(4) by simp
        with small show "bit (drop_bit 7 v) i = bit (0 :: 'n word) i"
          by (simp add: bit_drop_bit_eq add.commute)
      qed
      with False [unfolded no_high_bits_drop] show ?thesis by blast
    qed
    have "varint_scan acc shift pos (varint_bytes v @ rest) =
        varint_scan (acc OR push_bit (unat shift) (v AND 0x7F)) (shift + 7) (pos + 1)
          (varint_bytes (drop_bit 7 v) @ rest)"
      using False g "1.prems"(3)
      by (simp add: varint_bytes.simps [of v] wrapping_shl_def Let_def del: push_bit_and)
    also have "\<dots> = Inl ((acc OR push_bit (unat shift) (v AND 0x7F)) OR push_bit (unat (shift + 7)) (drop_bit 7 v),
        pos + 1 + length (varint_bytes (drop_bit 7 v)) - 1)"
      using fit "1.IH" [OF False "1.prems"(1,2)] by blast
    also have "(acc OR push_bit (unat shift) (v AND 0x7F)) OR push_bit (unat (shift + 7)) (drop_bit 7 v) =
        acc OR push_bit (unat shift) v"
      unfolding s7 or.assoc push_split ..
    finally show ?thesis
      using False varint_bytes_nonempty [of "drop_bit 7 v"] by (simp add: varint_bytes.simps [of v])
  qed
qed

section \<open>Reading\<close>

lemma varint_scan_append:
  "varint_scan v s p (xs @ ys) = (case varint_scan v s p xs of
     Inl r \<Rightarrow> Inl r | Inr (v', s') \<Rightarrow> varint_scan v' s' (p + length xs) ys)"
  by (induction v s p xs rule: varint_scan.induct) (auto simp: Let_def split: sum.splits)

lemma varint_scan_shift:
  "varint_scan v s (k + p) xs = map_sum (\<lambda>(v', q). (v', k + q)) id (varint_scan v s p xs)"
  by (induction v s p xs rule: varint_scan.induct) (simp_all add: Let_def)

lemma varint_scan_range:
  "varint_scan v s p xs = Inl (v', q) \<Longrightarrow> p \<le> q \<and> q < p + length xs"
  by (induction v s p xs rule: varint_scan.induct) (fastforce simp: Let_def split: if_splits)+

text \<open>The loop over the blocks reads the content as one byte string.\<close>

lemma varint_read_loop_spec:
  assumes "bb_wf b" and "varint_read_loop v s b = (r, b')"
  shows "bb_wf b' \<and> growth b' = growth b \<and>
    (case varint_scan v s 0 (content b) of
       Inl (v', q) \<Rightarrow> r = Ok v' \<and> content b' = drop (Suc q) (content b) \<and> tail_live b'
     | Inr _ \<Rightarrow> r = Err Underflow \<and> content b' = [])"
  using assms
proof (induction v s b arbitrary: r b' rule: varint_read_loop.induct)
  case (1 v s b)
  obtain x b1 where rn: "read_next b = (x, b1)" by fastforce
  note sh = read_next_shape [OF rn] and wf = read_next_wf [OF rn "1.prems"(1)]
  show ?case
  proof (cases x)
    case None
    with "1.prems" rn wf sh show ?thesis
      by (auto simp: varint_read_loop.simps [of v s b])
  next
    case (Some i)
    let ?blk = "blocks b1 ! i"
    let ?rest = "chain_bytes (drop (Suc i) (blocks b1))"
    have i: "i = idx b1" "i < length (blocks b1)"
      using sh(5) [OF Some] unfolding sh(1) by auto
    have w: "block_wf ?blk" using wf(1) i(2) by (rule bb_wf_nth)
    note step = consume_step [OF wf(1) i refl]
    have c: "content b = as_bytes ?blk @ ?rest"
      using content_at_idx [of b1] i wf(2) by simp
    have bytes: "as_bytes_range (read_pos ?blk) (write_pos ?blk - read_pos ?blk) ?blk = as_bytes ?blk"
      by (simp add: as_bytes_range_def as_bytes_def block_len_def)
    show ?thesis
    proof (cases "varint_scan v s 0 (as_bytes ?blk)")
      case (Inl y)
      obtain v' q where y: "y = (v', q)" by fastforce
      have q: "q < block_len ?blk" using varint_scan_range [OF Inl [unfolded y]] w by simp
      have "varint_scan v s (read_pos ?blk) (as_bytes ?blk) = Inl (v', read_pos ?blk + q)"
        using varint_scan_shift [of v s "read_pos ?blk" 0 "as_bytes ?blk"] Inl y by simp
      then have "r = Ok v'" "b' = bb_put i (block_set_read_pos (read_pos ?blk + Suc q) ?blk) b1"
        using "1.prems"(2) rn Some bytes
        by (simp_all add: varint_read_loop.simps [of v s b] Let_def)
      moreover have "varint_scan v s 0 (content b) = Inl (v', q)"
        unfolding c varint_scan_append Inl y by simp
      ultimately show ?thesis
        using step [of "Suc q"] q wf(2) sh(2) i by (simp add: tail_live_def)
    next
      case (Inr y)
      obtain v' s' where y: "y = (v', s')" by fastforce
      let ?b2 = "bb_put i (block_set_read_pos (write_pos ?blk) ?blk) b1"
      have scan: "varint_scan v s (read_pos ?blk) (as_bytes ?blk) = Inr (v', s')"
        using varint_scan_shift [of v s "read_pos ?blk" 0 "as_bytes ?blk"] Inr y by simp
      then have rec: "varint_read_loop v' s' ?b2 = (r, b')"
        using "1.prems"(2) rn Some bytes
        by (simp add: varint_read_loop.simps [of v s b] Let_def)
      have b2: "bb_wf ?b2" "content ?b2 = ?rest"
        using step [of "block_len ?blk"] wf(2) c w by (simp_all add: consume_all_eq [OF w])
      have IH: "bb_wf b' \<and> growth b' = growth ?b2 \<and>
          (case varint_scan v' s' 0 (content ?b2) of
             Inl (v', q) \<Rightarrow> r = Ok v' \<and> content b' = drop (Suc q) (content ?b2) \<and> tail_live b'
           | Inr _ \<Rightarrow> r = Err Underflow \<and> content b' = [])"
        using scan bytes by (intro "1.IH" [OF rn [symmetric] Some refl _ refl b2(1) rec]) simp
      have "varint_scan v s 0 (content b) =
          map_sum (\<lambda>(w, q). (w, length (as_bytes ?blk) + q)) id (varint_scan v' s' 0 ?rest)"
        unfolding c varint_scan_append Inr y
        using varint_scan_shift [of v' s' "length (as_bytes ?blk)" 0 ?rest] by simp
      with IH [unfolded b2(2)] sh(2) show ?thesis
        by (cases "varint_scan v' s' 0 ?rest") (auto simp: c)
    qed
  qed
qed

lemma varint_get_loop_spec:
  assumes "chain_wf (gi_blocks it)"
  shows "varint_get_loop v s it = (case varint_scan v s 0 (gi_rest it) of
    Inl (v', _) \<Rightarrow> Ok v' | Inr _ \<Rightarrow> Err IndexOutOfBounds)"
  using assms
proof (induction v s it rule: varint_get_loop.induct)
  case (1 v s it)
  obtain x it1 where gn: "get_next it = (x, it1)" by fastforce
  show ?case
  proof (cases x)
    case None
    with gn get_next_None [of it it1] "1.prems" show ?thesis
      by (simp add: varint_get_loop.simps [of v s it])
  next
    case (Some gb)
    note spec = get_next_Some [OF gn [unfolded Some] "1.prems"]
    let ?xs = "take (gb_len gb) (gi_rest it)"
    have bytes: "as_bytes_range (gb_get_pos gb) (gb_len gb) (gb_inner gb) = ?xs"
      using spec(3) by simp
    have rest: "gi_rest it = ?xs @ gi_rest it1" using spec(4) by simp
    have shift: "varint_scan v s (gb_get_pos gb) ?xs =
        map_sum (\<lambda>(w, q). (w, gb_get_pos gb + q)) id (varint_scan v s 0 ?xs)"
      using varint_scan_shift [of v s "gb_get_pos gb" 0 ?xs] by simp
    show ?thesis
    proof (cases "varint_scan v s 0 ?xs")
      case (Inl y)
      then show ?thesis
        by (subst rest, subst varint_scan_append)
          (auto simp: varint_get_loop.simps [of v s it] gn Some bytes shift split: prod.splits)
    next
      case (Inr y)
      obtain v' s' where y: "y = (v', s')" by fastforce
      have "varint_get_loop v s it = varint_get_loop v' s' it1"
        using Inr y by (simp add: varint_get_loop.simps [of v s it] gn Some bytes shift)
      moreover have "\<dots> = (case varint_scan v' s' 0 (gi_rest it1) of
          Inl (w, _) \<Rightarrow> Ok w | Inr _ \<Rightarrow> Err IndexOutOfBounds)"
        using "1.IH" [OF gn [symmetric] Some _ refl] "1.prems" spec(1) Inr y bytes shift by simp
      moreover have "varint_scan v s 0 (gi_rest it) =
          map_sum (\<lambda>(w, q). (w, length ?xs + q)) id (varint_scan v' s' 0 (gi_rest it1))"
        using varint_scan_shift [of v' s' "length ?xs" 0 "gi_rest it1"] Inr y
        by (subst rest, subst varint_scan_append) simp
      ultimately show ?thesis
        by (cases "varint_scan v' s' 0 (gi_rest it1)") (auto split: prod.splits)
    qed
  qed
qed

section \<open>Writing forwards\<close>

lemma block_write_Nil [simp]: "block_write off [] blk = blk"
  by (cases blk) (simp add: block_write_def mem_write_def)

lemma block_write_Cons:
  assumes "off \<le> length (mem blk)"
  shows "block_write (Suc off) bs (block_write off [x] blk) = block_write off (x # bs) blk"
proof -
  have "drop (Suc off + length bs) (mem_write (mem blk) off [x]) = drop (off + length (x # bs)) (mem blk)"
    using assms by (simp add: mem_write_def add.commute)
  moreover have "take (Suc off) (mem_write (mem blk) off [x]) = take off (mem blk) @ [Some x]"
    using assms by (simp add: mem_write_def)
  ultimately show ?thesis
    by (simp add: block_write_def mem_write_def)
qed

lemma varint_fill_fits:
  assumes "length (varint_bytes v) \<le> m" and "pos + m \<le> length (mem blk)"
  shows "varint_fill v n pos m blk =
    (Inl (n + length (varint_bytes v), pos + length (varint_bytes v) - 1),
     block_write pos (varint_bytes v) blk)"
  using assms
proof (induction v n pos m blk rule: varint_fill.induct)
  case (2 v n pos m blk)
  show ?case
  proof (cases "v AND NOT 0x7F = 0")
    case True
    then show ?thesis by (simp add: varint_bytes.simps [of v])
  next
    case False
    have "pos + 1 + m \<le> length (mem (block_write pos [ucast (v OR 0x80)] blk))"
      using "2.prems"(2) by (simp add: block_write_def)
    then show ?thesis
      using "2.IH" [OF False] "2.prems" False varint_bytes_nonempty [of "drop_bit 7 v"]
      by (simp add: varint_bytes.simps [of v] block_write_Cons)
  qed
qed (simp add: varint_bytes_nonempty)

lemma varint_fill_rest:
  assumes "m < length (varint_bytes v)" and "pos + m \<le> length (mem blk)"
  shows "\<exists>v'. varint_fill v n pos m blk =
    (Inr (v', n + m), block_write pos (take m (varint_bytes v)) blk) \<and>
    varint_bytes v' = drop m (varint_bytes v)"
  using assms
proof (induction v n pos m blk rule: varint_fill.induct)
  case (2 v n pos m blk)
  have f: "v AND NOT 0x7F \<noteq> 0"
    using "2.prems"(1) by (auto simp: varint_bytes.simps [of v] split: if_splits)
  have "pos + 1 + m \<le> length (mem (block_write pos [ucast (v OR 0x80)] blk))"
    using "2.prems"(2) by (simp add: block_write_def)
  moreover have "m < length (varint_bytes (drop_bit 7 v))"
    using "2.prems"(1) f by (simp add: varint_bytes.simps [of v])
  ultimately obtain v' where "varint_fill (drop_bit 7 v) (n + 1) (pos + 1) m
      (block_write pos [ucast (v OR 0x80)] blk) = (Inr (v', n + 1 + m),
        block_write (pos + 1) (take m (varint_bytes (drop_bit 7 v)))
          (block_write pos [ucast (v OR 0x80)] blk))"
    "varint_bytes v' = drop m (varint_bytes (drop_bit 7 v))"
    using "2.IH" [OF f] by blast
  then show ?case
    using f "2.prems"(2) by (simp add: varint_bytes.simps [of v] block_write_Cons)
qed simp

lemma varint_set_loop_eq:
  assumes "chain_wf (si_blocks it)"
  shows "varint_set_loop v n it = (case copy_set (varint_bytes v) it of
    (ok, it') \<Rightarrow> (if ok then Ok (n + length (varint_bytes v)) else Err IndexOutOfBounds, it'))"
  using assms
proof (induction v n it rule: varint_set_loop.induct)
  case (1 v n it)
  let ?bs = "si_blocks it"
  obtain r i' p' where cn: "chain_next ?bs (si_idx it) (si_init_pos it) = (r, i', p')"
    by (metis prod_cases3)
  show ?case
  proof (cases r)
    case None
    then show ?thesis
      by (simp add: varint_set_loop.simps [of v n it] copy_set.simps [of "varint_bytes v" it]
          set_next_def cn)
  next
    case (Some x)
    obtain j k where j: "x = (j, read_pos (?bs ! j) + k)" "j < length ?bs" "k < block_len (?bs ! j)"
      using chain_next_spec [OF cn "1.prems"] Some by (auto split: prod.splits)
    let ?blk = "?bs ! j" and ?pos = "read_pos (?bs ! j) + k"
    let ?it1 = "it\<lparr>si_idx := i', si_init_pos := p'\<rparr>"
    let ?len = "write_pos ?blk - ?pos"
    have sn: "set_next it = (Some (j, ?pos), ?it1)" by (simp add: set_next_def cn Some j(1))
    have w: "block_wf ?blk" using "1.prems" j(2) by (rule chain_wf_nth)
    have mem: "?pos + ?len \<le> length (mem ?blk)"
      using w j(3) by (auto simp: block_wf_def block_len_def)
    show ?thesis
    proof (cases "length (varint_bytes v) \<le> ?len")
      case True
      then show ?thesis
        by (simp add: varint_set_loop.simps [of v n it] copy_set.simps [of "varint_bytes v" it] sn
            Let_def varint_fill_fits [OF True mem])
    next
      case False
      then obtain v' where v': "varint_fill v n ?pos ?len ?blk =
          (Inr (v', n + ?len), block_write ?pos (take ?len (varint_bytes v)) ?blk)"
        "varint_bytes v' = drop ?len (varint_bytes v)"
        using varint_fill_rest [OF _ mem, of v n] by auto
      let ?it2 = "?it1\<lparr>si_blocks := (si_blocks ?it1)[j := block_write ?pos (take ?len (varint_bytes v)) ?blk]\<rparr>"
      have wf2: "chain_wf (si_blocks ?it2)"
        using chain_overwrite(1) [OF "1.prems" j(2), of k "take ?len (varint_bytes v)"] j(3)
        by (simp add: block_len_def)
      have "varint_set_loop v n it = varint_set_loop v' (n + ?len) ?it2"
        by (simp add: varint_set_loop.simps [of v n it] sn Let_def v'(1))
      also have "\<dots> = (case copy_set (varint_bytes v') ?it2 of
          (ok, it') \<Rightarrow> (if ok then Ok (n + ?len + length (varint_bytes v')) else Err IndexOutOfBounds, it'))"
        using v'(1) wf2 by (intro "1.IH" [OF sn [symmetric] refl refl refl]) simp_all
      also have "copy_set (varint_bytes v') ?it2 = copy_set (varint_bytes v) it"
        using False v'(2) by (simp add: copy_set.simps [of "varint_bytes v" it] sn Let_def)
      also have "n + ?len + length (varint_bytes v') = n + length (varint_bytes v)"
        using v'(2) False by simp
      finally show ?thesis .
    qed
  qed
qed

lemma varint_append_loop_eq:
  assumes "chain_wf (blocks b)" and "0 < growth b"
  shows "varint_append_loop v n b =
    map_option (Pair (Ok (n + length (varint_bytes v)))) (copy_append (varint_bytes v) b)"
  using assms
proof (induction "2 * length (varint_bytes v) + (if tail_room b = 0 then 1 else 0)" arbitrary: v n b
    rule: less_induct)
  case less
  have grown: "tail_room (bb_append_block 0 c) = growth c" for c
    by (simp_all add: tail_room_def bb_append_block_def)
  show ?case
  proof (cases "blocks b = []")
    case True
    let ?b1 = "bb_append_block 0 b"
    have m: "2 * length (varint_bytes v) + (if tail_room ?b1 = 0 then 1 else 0)
        < 2 * length (varint_bytes v) + (if tail_room b = 0 then 1 else 0)"
      using True less.prems(2) grown [of b] by (simp add: tail_room_def)
    show ?thesis
      using less.hyps [OF m, of n] less.prems True
      by (simp add: copy_append.simps [of "varint_bytes v" b] varint_append_loop.simps [of v n b]
          bb_append_block_def block_with_capacity_wf)
  next
    case False
    let ?l = "last (blocks b)"
    let ?room = "appendable ?l"
    have w: "block_wf ?l" using less.prems(1) False by (simp add: chain_wf_def)
    then have mem: "write_pos ?l + (cap ?l - write_pos ?l) \<le> length (mem ?l)"
      by (auto simp: block_wf_def)
    have room: "cap ?l - write_pos ?l = ?room" by (simp add: appendable_def)
    show ?thesis
    proof (cases "length (varint_bytes v) \<le> ?room")
      case True
      then show ?thesis
        using varint_fill_fits [OF True [folded room] mem, of n] False varint_bytes_nonempty [of v]
        by (simp add: copy_append.simps [of "varint_bytes v" b] varint_append_loop.simps [of v n b]
            Let_def room)
    next
      case small: False
      then obtain v' where v': "varint_fill v n (write_pos ?l) ?room ?l =
          (Inr (v', n + ?room), block_write (write_pos ?l) (take ?room (varint_bytes v)) ?l)"
        "varint_bytes v' = drop ?room (varint_bytes v)"
        using varint_fill_rest [OF _ mem, of v n] unfolding room by auto
      let ?b1 = "bb_put_last (block_set_write_pos (cap ?l)
        (block_write (write_pos ?l) (take ?room (varint_bytes v)) ?l)) b"
      let ?b2 = "bb_append_block 0 ?b1"
      have "block_wf (block_set_write_pos (cap ?l) (block_write (write_pos ?l) (take ?room (varint_bytes v)) ?l))"
        using block_append_wf [OF w, of "take ?room (varint_bytes v)"] small w
        by (simp add: appendable_def block_wf_def)
      moreover have "chain_wf (butlast (blocks b))"
        using less.prems(1) by (auto simp: chain_wf_def dest: in_set_butlastD)
      ultimately have wf2: "chain_wf (blocks ?b2)"
        by (simp add: bb_append_block_def block_with_capacity_wf)
      have m: "2 * length (varint_bytes v') + (if tail_room ?b2 = 0 then 1 else 0)
          < 2 * length (varint_bytes v) + (if tail_room b = 0 then 1 else 0)"
        using less.prems(2) False small v'(2) grown [of ?b1] by (auto simp: tail_room_def)
      have "varint_append_loop v n b = varint_append_loop v' (n + ?room) ?b2"
        using False v'(1) by (simp add: varint_append_loop.simps [of v n b] Let_def room)
      also have "\<dots> = map_option (Pair (Ok (n + ?room + length (varint_bytes v')))) (copy_append (varint_bytes v') ?b2)"
        using less.hyps [OF m wf2] less.prems(2) by simp
      also have "copy_append (varint_bytes v') ?b2 = copy_append (varint_bytes v) b"
        using False small v'(2) by (simp add: copy_append.simps [of "varint_bytes v" b] Let_def)
      also have "n + ?room + length (varint_bytes v') = n + length (varint_bytes v)"
        using v'(2) small by simp
      finally show ?thesis .
    qed
  qed
qed

section \<open>Writing backwards\<close>

text \<open>The groups of \<open>v\<close> up to the \<open>k\<close>-th, which is written with \<open>flag\<close>.\<close>

definition groups :: "'n::len word \<Rightarrow> nat \<Rightarrow> 'n word \<Rightarrow> u8 list" where
  "groups v k flag = map (\<lambda>i. ucast (drop_bit (7 * i) v OR 0x80)) [0..<k] @
     [ucast (drop_bit (7 * k) v OR flag)]"

lemma groups_Suc: "groups v (Suc k) flag = groups v k 0x80 @ [ucast (drop_bit (7 * Suc k) v OR flag)]"
  by (simp add: groups_def)

lemma length_groups [simp]: "length (groups v k flag) = Suc k"
  by (simp add: groups_def)

lemma more_groups:
  assumes "8 \<le> LENGTH('n)"
  shows "(w :: 'n::len word) > 0x7F \<longleftrightarrow> w AND NOT 0x7F \<noteq> 0"
proof -
  have "(2 :: nat) ^ 8 \<le> 2 ^ LENGTH('n)" using assms by (intro power_increasing) simp_all
  then have "unat (0x7F :: 'n word) = 127"
    by (simp add: take_bit_eq_mod)
  then have "w > 0x7F \<longleftrightarrow> unat w div 128 \<noteq> 0"
    by (auto simp: word_less_nat_alt div_eq_0_iff)
  also have "\<dots> \<longleftrightarrow> drop_bit 7 w \<noteq> 0"
  proof -
    have "unat (drop_bit 7 w) = unat w div 128"
      unfolding unat_drop_bit_eq by (simp add: drop_bit_eq_div)
    then show ?thesis by (simp only: unat_eq_zero [symmetric] simp_thms)
  qed
  finally show ?thesis unfolding no_high_bits_drop .
qed

lemma varint_shift_drop: "varint_shift v (s + 7) = 7 + varint_shift (drop_bit 7 v) s"
proof (induction "drop_bit 7 v" s rule: varint_shift.induct)
  case (1 s)
  have "drop_bit s (drop_bit 7 v) = drop_bit (s + 7) v" by (simp only: drop_bit_drop_bit)
  with 1 show ?case
    by (cases "drop_bit (s + 7) v > 0x7F")
      (simp_all only: varint_shift.simps [of v "s + 7"] varint_shift.simps [of "drop_bit 7 v" s]
        if_True if_False simp_thms add.commute)
qed

lemma varint_bytes_groups:
  fixes v :: "'n::len word"
  assumes "8 \<le> LENGTH('n)"
  shows "\<exists>k. varint_shift v 0 = 7 * k \<and> varint_bytes v = groups v k 0"
proof (induction v rule: varint_bytes.induct)
  case (1 v)
  show ?case
  proof (cases "v AND NOT 0x7F = 0")
    case True
    then have "varint_shift v 0 = 7 * 0" "varint_bytes v = groups v 0 0"
      using more_groups [OF assms, of v]
      by (simp_all add: varint_shift.simps [of v 0] varint_bytes.simps [of v] groups_def)
    then show ?thesis by blast
  next
    case False
    obtain k where k: "varint_shift (drop_bit 7 v) 0 = 7 * k"
      "varint_bytes (drop_bit 7 v) = groups (drop_bit 7 v) k 0"
      using 1 [OF False] by blast
    have "varint_shift v 0 = 7 * Suc k"
      using False more_groups [OF assms, of v] varint_shift_drop [of v 0] k(1)
      by (simp add: varint_shift.simps [of v 0])
    moreover have "varint_bytes v = groups v (Suc k) 0"
    proof -
      have "map (\<lambda>i. ucast (drop_bit (7 * i) v OR 0x80)) [0..<Suc k] =
          (ucast (v OR 0x80) :: u8) # map (\<lambda>i. ucast (drop_bit (7 * i) (drop_bit 7 v) OR 0x80)) [0..<k]"
        by (simp add: upt_conv_Cons map_Suc_upt [symmetric] o_def add.commute [of 7] del: upt_Suc)
      then show ?thesis
        using False k(2)
        by (simp add: varint_bytes.simps [of v] groups_def add.commute [of 7] del: upt_Suc)
    qed
    ultimately show ?thesis by blast
  qed
qed

lemma block_write_snoc:
  assumes "off + length bs < length (mem blk)"
  shows "block_write off bs (block_write (off + length bs) [x] blk) = block_write off (bs @ [x]) blk"
  using assms by (simp add: block_write_def mem_write_def min_def)

lemma varint_fill_back_fits:
  assumes "Suc k \<le> p" and "p \<le> length (mem blk)"
  shows "varint_fill_back v (7 * k) flag n p blk =
    (Inl (n + Suc k, p - Suc k), block_write (p - Suc k) (groups v k flag) blk)"
  using assms
proof (induction p arbitrary: k flag n blk)
  case (Suc p)
  show ?case
  proof (cases k)
    case 0
    then show ?thesis by (simp add: groups_def)
  next
    case (Suc j)
    have "p - Suc j + length (groups v j 0x80) = p" using Suc.prems(1) Suc by simp
    then have "block_write (p - Suc j) (groups v j 0x80)
        (block_write p [ucast (drop_bit (7 * k) v OR flag)] blk) =
        block_write (p - Suc j) (groups v k flag) blk"
      using block_write_snoc [of "p - Suc j" "groups v j 0x80" blk] Suc.prems(2) Suc
      by (simp only: groups_Suc)
    then show ?thesis
      using Suc.IH [of j "block_write p [ucast (drop_bit (7 * k) v OR flag)] blk" "0x80" "n + 1"]
        Suc.prems Suc by (simp add: block_write_def)
  qed
qed simp

lemma varint_fill_back_rest:
  assumes "p \<le> k" and "p \<le> length (mem blk)"
  shows "\<exists>flag'. varint_fill_back v (7 * k) flag n p blk =
    (Inr (7 * (k - p), flag', n + p), block_write 0 (drop (Suc k - p) (groups v k flag)) blk) \<and>
    groups v (k - p) flag' = take (Suc k - p) (groups v k flag)"
  using assms
proof (induction p arbitrary: k flag n blk)
  case (Suc p)
  then obtain j where j: "k = Suc j" by (cases k) simp_all
  let ?blk = "block_write p [ucast (drop_bit (7 * k) v OR flag)] blk"
  have "length (mem ?blk) = length (mem blk)" using Suc.prems by (simp add: block_write_def)
  then obtain flag' where f: "varint_fill_back v (7 * j) 0x80 (n + 1) p ?blk =
      (Inr (7 * (j - p), flag', n + 1 + p), block_write 0 (drop (Suc j - p) (groups v j 0x80)) ?blk)"
    "groups v (j - p) flag' = take (Suc j - p) (groups v j 0x80)"
    using Suc.IH [of j ?blk "0x80" "n + 1"] Suc.prems j by auto
  have "length (drop (Suc j - p) (groups v j 0x80)) = p" using Suc.prems(1) j by simp
  then have "block_write 0 (drop (Suc j - p) (groups v j 0x80)) ?blk =
      block_write 0 (drop (Suc k - Suc p) (groups v k flag)) blk"
    using block_write_snoc [of 0 "drop (Suc j - p) (groups v j 0x80)" blk] Suc.prems j
    by (simp add: groups_Suc)
  with f j Suc.prems show ?case by (intro exI [of _ flag']) (simp add: groups_Suc)
qed simp

lemma varint_prepend_loop_eq:
  assumes "chain_wf (blocks b)" and "0 < growth b"
  shows "varint_prepend_loop v (7 * k) flag n b =
    map_option (Pair (Ok (n + Suc k))) (copy_prepend (groups v k flag) b)"
  using assms
proof (induction "2 * k + (if head_room b = 0 then 1 else 0)" arbitrary: k flag n b
    rule: less_induct)
  case less
  have grown: "head_room (bb_prepend_block 0 c) = growth c" for c
    by (simp add: head_room_def bb_prepend_block_def)
  show ?case
  proof (cases "blocks b = []")
    case True
    let ?b1 = "bb_prepend_block 0 b"
    have m: "2 * k + (if head_room ?b1 = 0 then 1 else 0) < 2 * k + (if head_room b = 0 then 1 else 0)"
      using True less.prems(2) grown [of b] by (simp add: head_room_def)
    show ?thesis
      using less.hyps [OF m, of flag n] less.prems True
      by (simp add: copy_prepend.simps [of "groups v k flag" b]
          varint_prepend_loop.simps [of v "7 * k" flag n b] bb_prepend_block_def
          block_for_prependable_wf)
  next
    case False
    let ?f = "hd (blocks b)"
    let ?room = "prependable ?f"
    have w: "block_wf ?f" using less.prems(1) False by (simp add: chain_wf_def)
    then have mem: "?room \<le> length (mem ?f)"
      by (auto simp: block_wf_def prependable_def)
    show ?thesis
    proof (cases "Suc k \<le> ?room")
      case True
      then show ?thesis
        using varint_fill_back_fits [OF True mem, of v flag n] False
        by (simp add: copy_prepend.simps [of "groups v k flag" b] Let_def
            varint_prepend_loop.simps [of v "7 * k" flag n b] prependable_def)
    next
      case small: False
      then obtain flag' where f: "varint_fill_back v (7 * k) flag n ?room ?f =
          (Inr (7 * (k - ?room), flag', n + ?room),
           block_write 0 (drop (Suc k - ?room) (groups v k flag)) ?f)"
        "groups v (k - ?room) flag' = take (Suc k - ?room) (groups v k flag)"
        using varint_fill_back_rest [OF _ mem, of k v flag n] by auto
      let ?b1 = "bb_put_first (block_set_read_pos 0
        (block_write 0 (drop (Suc k - ?room) (groups v k flag)) ?f)) b"
      let ?b2 = "bb_prepend_block 0 ?b1"
      have "block_wf (block_set_read_pos 0 (block_write 0 (drop (Suc k - ?room) (groups v k flag)) ?f))"
        using block_prepend_wf [OF w, of "drop (Suc k - ?room) (groups v k flag)"] small
        by (simp add: prependable_def)
      moreover have "chain_wf (tl (blocks b))"
        using less.prems(1) by (cases "blocks b") simp_all
      ultimately have wf2: "chain_wf (blocks ?b2)"
        by (simp add: bb_prepend_block_def block_for_prependable_wf)
      have m: "2 * (k - ?room) + (if head_room ?b2 = 0 then 1 else 0)
          < 2 * k + (if head_room b = 0 then 1 else 0)"
        using less.prems(2) False small grown [of ?b1] by (auto simp: head_room_def)
      have "varint_prepend_loop v (7 * k) flag n b =
          varint_prepend_loop v (7 * (k - ?room)) flag' (n + ?room) ?b2"
        using False f(1) [unfolded prependable_def]
        by (simp add: varint_prepend_loop.simps [of v "7 * k" flag n b] Let_def prependable_def)
      also have "\<dots> = map_option (Pair (Ok (n + ?room + Suc (k - ?room))))
          (copy_prepend (groups v (k - ?room) flag') ?b2)"
        using less.hyps [OF m wf2] less.prems(2) by (simp add: bb_prepend_block_def)
      also have "copy_prepend (groups v (k - ?room) flag') ?b2 = copy_prepend (groups v k flag) b"
        using False small f(2) by (simp add: copy_prepend.simps [of "groups v k flag" b] Let_def)
      also have "n + ?room + Suc (k - ?room) = n + Suc k"
        using small by simp
      finally show ?thesis .
    qed
  qed
qed

section \<open>The modules\<close>

definition varint_codec :: "'n::len word codec" where
  "varint_codec = \<lparr>codec_read = varint_read, codec_get = varint_get, codec_set = varint_set,
     codec_append = varint_append, codec_prepend = varint_prepend\<rparr>"

definition u16_varint :: "u16 codec" where
  "u16_varint = varint_codec"

definition u32_varint :: "u32 codec" where
  "u32_varint = varint_codec"

definition u64_varint :: "u64 codec" where
  "u64_varint = varint_codec"

definition i16_varint :: "int codec" where
  "i16_varint = signed_codec u16_varint"

definition i32_varint :: "int codec" where
  "i32_varint = signed_codec u32_varint"

definition i64_varint :: "int codec" where
  "i64_varint = signed_codec u64_varint"

lemma varint_enc_writes:
  assumes "8 \<le> LENGTH('n)"
  shows "enc_writes (varint_codec :: 'n::len word codec) varint_bytes"
proof
  fix v :: "'n word" and b :: bytebuf
  assume wf: "bb_wf b" "0 < growth b"
  then show "codec_append varint_codec v b =
      map_option (Pair (Ok (length (varint_bytes v)))) (copy_append (varint_bytes v) b)"
    by (simp add: varint_codec_def varint_append_def varint_append_loop_eq bb_wf_chain)
  obtain k where "varint_shift v 0 = 7 * k" "varint_bytes v = groups v k 0"
    using varint_bytes_groups [OF assms] by blast
  with wf show "codec_prepend varint_codec v b =
      map_option (Pair (Ok (length (varint_bytes v)))) (copy_prepend (varint_bytes v) b)"
    by (simp add: varint_codec_def varint_prepend_def varint_prepend_loop_eq bb_wf_chain)
qed (simp_all add: varint_bytes_nonempty varint_codec_def varint_set_def varint_set_loop_eq
    case_prod_beta)


text \<open>
  The laws: what is written is \<open>varint_bytes\<close>, and reading scans it back. The codec has no
  fixed size, so \<open>read\<close> and \<open>get\<close> are argued over \<open>varint_scan\<close>.
\<close>

lemma varint_codec_laws:
  assumes "8 \<le> LENGTH('n)" and "LENGTH('n) \<le> 64"
  shows "codec_laws (varint_codec :: 'n::len word codec) (\<lambda>_. True) varint_bytes"
proof -
  note writes = varint_enc_writes [OF assms(1)]
  have scan: "varint_scan 0 0 0 (varint_bytes v @ rest) = Inl (v, length (varint_bytes v) - 1)"
    for v :: "'n word" and rest
    using varint_scan_bytes [OF assms, of 0 v 0 0 rest] by (simp add: drop_bit_eq_div)
  show ?thesis
  proof unfold_locales
    fix b :: bytebuf and v :: "'n word" and rest
    assume *: "bb_wf b" "content b = varint_bytes v @ rest"
    obtain r b' where r: "varint_read_loop (0 :: 'n word) 0 b = (r, b')" by fastforce
    show "\<exists>b'. bb_read (codec_read varint_codec) b = (Ok v, b') \<and> bb_wf b' \<and> content b' = rest \<and>
        growth b' = growth b \<and> tail_live b'"
      using varint_read_loop_spec [OF *(1) r, unfolded *(2) scan] r varint_bytes_nonempty [of v]
      by (simp add: bb_read_def varint_codec_def varint_read_def)
  next
    fix b :: bytebuf and v :: "'n word" and i rest
    assume *: "bb_wf b" "drop i (content b) = varint_bytes v @ rest"
    then have i: "i < length (content b)"
      using varint_bytes_nonempty [of v] by (metis append_is_Nil_conv drop_all leI)
    then have live: "idx b < length (blocks b)"
      by (cases "idx b < length (blocks b)") (simp_all add: content_def)
    obtain it where "bb_get i varint_get b = (varint_get it :: ('n word, buf_error) outcome)"
      "chain_wf (gi_blocks it)" "gi_rest it = drop i (content b)"
      using bb_get_Ok [OF *(1) less_imp_le [OF i] live] by metis
    then show "bb_get i (codec_get varint_codec) b = Ok v"
      by (simp add: varint_codec_def varint_get_def varint_get_loop_spec *(2) scan)
  qed (fact varint_bytes_nonempty enc_writes.writes_set [OF writes]
      enc_writes.writes_append [OF writes] enc_writes.writes_prepend [OF writes])+
qed

text \<open>A signed module keeps the laws of the unsigned one.\<close>

lemma signed_codec_laws:
  fixes c :: "'n::len word codec"
  assumes "codec_laws c (\<lambda>_. True) enc"
  shows "codec_laws (signed_codec c) (in_signed_range (LENGTH('n))) (\<lambda>v. enc (word_of_int v))"
proof -
  note l = assms [unfolded codec_laws_def]
  have get: "bb_get i (\<lambda>it. map_outcome sint (codec_get c it)) b = map_outcome sint (bb_get i (codec_get c) b)"
    for i b by (auto simp: bb_get_def split: prod.splits outcome.splits)
  have set: "bb_set i v (\<lambda>v. codec_set c (word_of_int v)) b = bb_set i (word_of_int v) (codec_set c) b"
    for i b and v :: int by (auto simp: bb_set_def split: prod.splits outcome.splits)
  show ?thesis
  proof unfold_locales
    fix b rest v
    assume "bb_wf b" "in_signed_range LENGTH('n) v" "content b = enc (word_of_int v) @ rest"
    with l show "\<exists>b'. bb_read (codec_read (signed_codec c)) b = (Ok v, b') \<and> bb_wf b' \<and>
        content b' = rest \<and> growth b' = growth b \<and> tail_live b'"
      by (fastforce simp: signed_codec_def bb_read_def sint_word_of_int_range)
  next
    fix b i rest v
    assume *: "bb_wf b" "in_signed_range LENGTH('n) v" "drop i (content b) = enc (word_of_int v) @ rest"
    with l have "bb_get i (codec_get c) b = Ok (word_of_int v)" by blast
    then show "bb_get i (codec_get (signed_codec c)) b = Ok v"
      by (simp add: signed_codec_def get sint_word_of_int_range [OF *(2)])
  qed (use l in \<open>simp_all add: signed_codec_def set bb_append_def bb_prepend_def\<close>)
qed

interpretation u16_varint_laws: codec_laws u16_varint "\<lambda>_. True" varint_bytes
  unfolding u16_varint_def by (rule varint_codec_laws) simp_all

interpretation u32_varint_laws: codec_laws u32_varint "\<lambda>_. True" varint_bytes
  unfolding u32_varint_def by (rule varint_codec_laws) simp_all

interpretation u64_varint_laws: codec_laws u64_varint "\<lambda>_. True" varint_bytes
  unfolding u64_varint_def by (rule varint_codec_laws) simp_all

interpretation i16_varint_laws: codec_laws i16_varint "in_signed_range 16"
    "\<lambda>v. varint_bytes (word_of_int v :: u16)"
  using signed_codec_laws [OF u16_varint_laws.codec_laws_axioms] by (simp add: i16_varint_def)

interpretation i32_varint_laws: codec_laws i32_varint "in_signed_range 32"
    "\<lambda>v. varint_bytes (word_of_int v :: u32)"
  using signed_codec_laws [OF u32_varint_laws.codec_laws_axioms] by (simp add: i32_varint_def)

interpretation i64_varint_laws: codec_laws i64_varint "in_signed_range 64"
    "\<lambda>v. varint_bytes (word_of_int v :: u64)"
  using signed_codec_laws [OF u64_varint_laws.codec_laws_axioms] by (simp add: i64_varint_def)

section \<open>Length of an encoding\<close>

lemma length_varint_bytes_le:
  fixes v :: "'n::len word"
  assumes "drop_bit (7 * k) v = 0" and "0 < k"
  shows "length (varint_bytes v) \<le> k"
  using assms
proof (induction k arbitrary: v)
  case (Suc k)
  show ?case
  proof (cases "v AND NOT 0x7F = 0")
    case False
    then have "drop_bit 7 v \<noteq> 0" unfolding no_high_bits_drop .
    moreover have "drop_bit (7 * k) (drop_bit 7 v) = 0"
      using Suc.prems(1) by (simp add: add.commute)
    ultimately have "length (varint_bytes (drop_bit 7 v)) \<le> k"
      using Suc.IH [of "drop_bit 7 v"] by (cases k) auto
    with False show ?thesis by (simp add: varint_bytes.simps [of v])
  qed (simp add: varint_bytes.simps [of v])
qed simp

text \<open>Three, five and ten bytes are enough for the three widths.\<close>

lemma length_varint_bytes:
  fixes v :: "'n::len word"
  shows "length (varint_bytes v) \<le> (LENGTH('n) + 6) div 7"
proof (rule length_varint_bytes_le)
  have "LENGTH('n) \<le> 7 * ((LENGTH('n) + 6) div 7)" by simp
  then show "drop_bit (7 * ((LENGTH('n) + 6) div 7)) v = 0"
    by (intro bit_word_eqI) (auto simp: bit_drop_bit_eq dest!: bit_imp_le_length)
  show "0 < (LENGTH('n) + 6) div 7"
    by (simp add: div_greater_zero_iff Suc_le_eq)
qed

end
