(* ===== verification/Buf_View.thy ===== *)
theory Buf_View
  imports Codec_Bytes
begin

text \<open>
  Ways of looking at a whole \<open>ByteBuf\<close>: \<open>as_bytes\<close> and \<open>try_as_bytes\<close> of \<open>src/buf/mod.rs\<close>, the
  byte iterator of \<open>bytes.rs\<close>, and the \<open>io::Read\<close> and \<open>io::Write\<close> adapters of \<open>reader.rs\<close> and
  \<open>writer.rs\<close>. Each is shown to present \<open>content\<close>.
\<close>

section \<open>As one slice\<close>

datatype cow = Borrowed "u8 list" | Owned "u8 list"

fun cow_bytes :: "cow \<Rightarrow> u8 list" where
  "cow_bytes (Borrowed bs) = bs"
| "cow_bytes (Owned bs) = bs"

text \<open>
  The \<open>while\<close> loop of both: \<open>Inl i\<close> when a second non-empty block is met, \<open>i\<close> the first one,
  and \<open>Inr n\<close> at the end of the chain.
\<close>

function slice_loop :: "block list \<Rightarrow> nat \<Rightarrow> nat option \<Rightarrow> nat + nat option" where
  "slice_loop bs i n =
     (if i < length bs then
        (if \<not> block_is_empty (bs ! i) then
           (case n of Some j \<Rightarrow> Inl j | None \<Rightarrow> slice_loop bs (i + 1) (Some i))
         else slice_loop bs (i + 1) n)
      else Inr n)"
  by pat_completeness auto
termination
  by (relation "measure (\<lambda>(bs, i, n). length bs - i)") auto

declare slice_loop.simps [simp del]

definition bb_as_bytes :: "bytebuf \<Rightarrow> (cow, buf_error) outcome" where
  "bb_as_bytes b =
     (case slice_loop (blocks b) (idx b) None of
        Inl i \<Rightarrow> (case u8s_get (bb_get_iter b i 0) of Ok v \<Rightarrow> Ok (Owned v) | _ \<Rightarrow> Panic)
      | Inr (Some i) \<Rightarrow> Ok (Borrowed (as_bytes (blocks b ! i)))
      | Inr None \<Rightarrow> Ok (Borrowed []))"

definition bb_try_as_bytes :: "bytebuf \<Rightarrow> u8 list option" where
  "bb_try_as_bytes b =
     (case slice_loop (blocks b) (idx b) None of
        Inl i \<Rightarrow> None
      | Inr (Some i) \<Rightarrow> Some (as_bytes (blocks b ! i))
      | Inr None \<Rightarrow> Some [])"

lemma slice_loop_spec:
  assumes "slice_loop bs i n = r" and "i \<le> length bs"
  shows "case n of
      None \<Rightarrow> (case r of
          Inr None \<Rightarrow> chain_bytes (drop i bs) = []
        | Inr (Some j) \<Rightarrow> j < length bs \<and> chain_bytes (drop i bs) = as_bytes (bs ! j)
        | Inl j \<Rightarrow> j < length bs \<and> i \<le> j \<and> \<not> block_is_empty (bs ! j) \<and>
            chain_bytes (drop i bs) = chain_bytes (drop j bs))
    | Some k \<Rightarrow> r = Inl k \<or> (r = Inr (Some k) \<and> chain_bytes (drop i bs) = [])"
  using assms
proof (induction bs i n arbitrary: r rule: slice_loop.induct)
  case (1 bs i n)
  show ?case
  proof (cases "i < length bs")
    case False
    with 1 show ?thesis by (auto simp: slice_loop.simps [of bs i n] split: option.splits)
  next
    case i: True
    have d: "drop i bs = bs ! i # drop (Suc i) bs" using i by (rule drop_eq_nth_Cons)
    show ?thesis
    proof (cases "block_is_empty (bs ! i)")
      case True
      then have "slice_loop bs (i + 1) n = r" using "1.prems"(1) i by (simp add: slice_loop.simps [of bs i n])
      from "1.IH"(2) [OF i _ this] True i show ?thesis
        by (auto simp: d split: option.splits sum.splits)
    next
      case False
      show ?thesis
      proof (cases n)
        case None
        then have "slice_loop bs (i + 1) (Some i) = r"
          using "1.prems"(1) i False by (simp add: slice_loop.simps [of bs i None])
        from "1.IH"(1) [OF i False None this] i None False show ?thesis by (auto simp: d)
      next
        case (Some k)
        with "1.prems"(1) i False show ?thesis by (simp add: slice_loop.simps [of bs i "Some k"])
      qed
    qed
  qed
qed

lemma bb_as_bytes_spec:
  assumes "bb_wf b"
  shows "\<exists>c. bb_as_bytes b = Ok c \<and> cow_bytes c = content b"
proof -
  obtain r where r: "slice_loop (blocks b) (idx b) None = r" by blast
  have idx: "idx b \<le> length (blocks b)" using assms by (simp add: bb_wf_def)
  note spec = slice_loop_spec [OF r idx, simplified]
  show ?thesis
  proof (cases r)
    case (Inl j)
    let ?it = "bb_get_iter b j 0"
    have j: "j < length (blocks b)" "content b = chain_bytes (drop j (blocks b))"
      "\<not> block_is_empty (blocks b ! j)"
      using spec Inl by (auto simp: content_def)
    have it: "chain_wf (gi_blocks ?it)" "gi_blocks ?it \<noteq> []" "gi_idx ?it = 0" "gi_init_pos ?it = 0"
      using assms j(1) by (simp_all add: bb_get_iter_def bb_wf_chain chain_wf_take_drop)
    have rest: "gi_rest ?it = content b"
      using j by (simp add: gi_rest_def bb_get_iter_def iter_pos_def)
    have "content b \<noteq> []"
      using j as_bytes_Nil_iff [OF bb_wf_nth [OF assms j(1)]] by (simp add: drop_eq_nth_Cons)
    moreover have "get_iter_len ?it = length (content b)"
      using get_iter_len_eq [OF it(1,2,3)] it(4) rest by simp
    ultimately have "u8s_get ?it = Ok (content b)"
      using copy_get_spec [OF it(1), of "length (content b)" "[]"]
      by (simp add: u8s_get_def u8s_get_exact_def rest)
    with r Inl show ?thesis by (simp add: bb_as_bytes_def)
  next
    case (Inr y)
    with r spec show ?thesis
      by (cases y) (simp_all add: bb_as_bytes_def content_def)
  qed
qed

text \<open>\<open>try_as_bytes\<close> gives up exactly when the bytes are in more than one block.\<close>

definition live_blocks :: "bytebuf \<Rightarrow> nat" where
  "live_blocks b = length (filter (\<lambda>blk. \<not> block_is_empty blk) (drop (idx b) (blocks b)))"

lemma slice_loop_count:
  assumes "i \<le> length bs"
  shows "(\<exists>j. slice_loop bs i n = Inl j) \<longleftrightarrow>
    1 < (if n = None then 0 else 1) + length (filter (\<lambda>blk. \<not> block_is_empty blk) (drop i bs))"
  using assms
proof (induction bs i n rule: slice_loop.induct)
  case (1 bs i n)
  show ?case
  proof (cases "i < length bs")
    case True
    then have "slice_loop bs i n = (if block_is_empty (bs ! i) then slice_loop bs (Suc i) n
        else case n of Some j \<Rightarrow> Inl j | None \<Rightarrow> slice_loop bs (Suc i) (Some i))"
      by (simp add: slice_loop.simps [of bs i n] split: option.split)
    with 1 True show ?thesis
      by (cases "block_is_empty (bs ! i)"; cases n) (simp_all add: drop_eq_nth_Cons)
  next
    case False
    then have "slice_loop bs i n = Inr n" by (simp add: slice_loop.simps [of bs i n])
    with False "1.prems" show ?thesis by simp
  qed
qed

lemma bb_try_as_bytes_spec:
  assumes "bb_wf b"
  shows "bb_try_as_bytes b = (if live_blocks b \<le> 1 then Some (content b) else None)"
proof -
  obtain r where r: "slice_loop (blocks b) (idx b) None = r" by blast
  have idx: "idx b \<le> length (blocks b)" using assms by (simp add: bb_wf_def)
  note spec = slice_loop_spec [OF r idx, simplified] and count = slice_loop_count [OF idx, of None]
  show ?thesis
  proof (cases r)
    case (Inr y)
    then show ?thesis
      using r spec count by (cases y) (auto simp: bb_try_as_bytes_def live_blocks_def content_def)
  qed (use r count in \<open>auto simp: bb_try_as_bytes_def live_blocks_def\<close>)
qed

section \<open>The byte iterator\<close>

record bytes_iter =
  iter_inner :: "block list"
  iter_u8 :: "u8 list option"

definition bytes_new :: "bytebuf \<Rightarrow> bytes_iter" where
  "bytes_new b =
     (case drop (idx b) (blocks b) of
        inner # rest \<Rightarrow>
          \<lparr>iter_inner = rest, iter_u8 = Some (mem_bytes (mem inner) (read_pos inner) (block_len inner))\<rparr>
      | [] \<Rightarrow> \<lparr>iter_inner = [], iter_u8 = None\<rparr>)"

function bytes_next :: "bytes_iter \<Rightarrow> u8 option \<times> bytes_iter" where
  "bytes_next it =
     (case iter_u8 it of
        Some (x # xs) \<Rightarrow> (Some x, it\<lparr>iter_u8 := Some xs\<rparr>)
      | None \<Rightarrow> (None, it)
      | Some [] \<Rightarrow>
          (case iter_inner it of
             inner # rest \<Rightarrow> bytes_next (it\<lparr>iter_inner := rest, iter_u8 := Some (as_bytes inner)\<rparr>)
           | [] \<Rightarrow> bytes_next (it\<lparr>iter_u8 := None\<rparr>)))"
  by pat_completeness auto
termination
  by (relation "measure (\<lambda>it. 2 * length (iter_inner it) + (if iter_u8 it = None then 0 else 1))") auto

declare bytes_next.simps [simp del]

text \<open>What is still to come; after the end there are no blocks left either.\<close>

definition bytes_rest :: "bytes_iter \<Rightarrow> u8 list" where
  "bytes_rest it = (case iter_u8 it of None \<Rightarrow> [] | Some xs \<Rightarrow> xs @ chain_bytes (iter_inner it))"

lemma bytes_new_rest: "bytes_rest (bytes_new b) = content b"
  by (simp add: bytes_new_def bytes_rest_def content_def as_bytes_def split: list.splits)

lemma bytes_next_spec:
  "\<exists>it'. bytes_next it = ((case bytes_rest it of [] \<Rightarrow> None | x # _ \<Rightarrow> Some x), it') \<and>
    bytes_rest it' = tl (bytes_rest it)"
proof (induction it rule: bytes_next.induct)
  case (1 it)
  show ?case
  proof (cases "iter_u8 it")
    case None
    then show ?thesis by (simp add: bytes_next.simps [of it] bytes_rest_def)
  next
    case (Some ys)
    show ?thesis
    proof (cases ys)
      case Nil
      show ?thesis
      proof (cases "iter_inner it")
        case Nil
        with Some \<open>ys = []\<close> show ?thesis
          by (simp add: bytes_next.simps [of it] bytes_next.simps [of "it\<lparr>iter_u8 := None\<rparr>"]
              bytes_rest_def)
      next
        case (Cons inner rest)
        with 1(2) [OF Some \<open>ys = []\<close> Cons] Some \<open>ys = []\<close> show ?thesis
          by (auto simp: bytes_next.simps [of it] bytes_rest_def)
      qed
    next
      case (Cons x xs)
      with Some show ?thesis by (simp add: bytes_next.simps [of it] bytes_rest_def)
    qed
  qed
qed

section \<open>\<open>io::Read\<close> and \<open>io::Write\<close>\<close>

text \<open>\<open>read(buf)\<close> with \<open>n = buf.len()\<close>: the bytes copied, whose number is the result.\<close>

function reader_read :: "nat \<Rightarrow> u8 list \<Rightarrow> bytebuf \<Rightarrow> u8 list \<times> bytebuf" where
  "reader_read n dst b =
     (case read_next b of
        (None, b1) \<Rightarrow> (dst, b1)
      | (Some i, b1) \<Rightarrow>
          (let blk = blocks b1 ! i; len = block_len blk; src_off = read_pos blk
           in if len \<ge> n
              then (dst @ as_bytes_range src_off n blk, bb_put i (block_set_read_pos (src_off + n) blk) b1)
              else reader_read (n - len) (dst @ as_bytes_range src_off len blk)
                     (bb_put i (block_set_read_pos (write_pos blk) blk) b1)))"
  by pat_completeness auto
termination
  by (relation "measure (\<lambda>(n, dst, b). read_fuel b)") (auto dest: read_fuel_loop)

declare reader_read.simps [simp del]

lemma reader_read_spec:
  assumes "bb_wf b" and "reader_read n dst b = (r, b')"
  shows "bb_wf b' \<and> content b' = drop n (content b) \<and> r = dst @ take n (content b)"
  using assms
proof (induction n dst b arbitrary: r b' rule: reader_read.induct)
  case (1 n dst b)
  obtain q b1 where rn: "read_next b = (q, b1)" by fastforce
  note sh = read_next_shape [OF rn] and wf = read_next_wf [OF rn "1.prems"(1)]
  show ?case
  proof (cases q)
    case None
    with "1.prems" rn wf show ?thesis by (auto simp: reader_read.simps [of n dst b])
  next
    case (Some i)
    let ?blk = "blocks b1 ! i"
    let ?len = "block_len ?blk"
    have i: "i = idx b1" "i < length (blocks b1)"
      using sh(5) [OF Some] unfolding sh(1) by auto
    have w: "block_wf ?blk" using wf(1) i(2) by (rule bb_wf_nth)
    note step = consume_step [OF wf(1) i refl]
    have c: "content b = as_bytes ?blk @ chain_bytes (drop (Suc i) (blocks b1))"
      using content_at_idx [of b1] i wf(2) by simp
    have len: "length (as_bytes ?blk) = ?len" using w by simp
    have bytes: "as_bytes_range (read_pos ?blk) k ?blk = take k (as_bytes ?blk)" if "k \<le> ?len" for k
      using that by (simp add: as_bytes_range_def as_bytes_def mem_bytes_take [symmetric])
    show ?thesis
    proof (cases "?len \<ge> n")
      case True
      then have "r = dst @ take n (content b)"
        "b' = bb_put i (block_set_read_pos (read_pos ?blk + n) ?blk) b1"
        using "1.prems"(2) rn Some bytes c len
        by (simp_all add: reader_read.simps [of n dst b] Let_def)
      then show ?thesis
        using True step [of n] wf(2) by simp
    next
      case False
      let ?b2 = "bb_put i (block_set_read_pos (write_pos ?blk) ?blk) b1"
      have rec: "reader_read (n - ?len) (dst @ as_bytes ?blk) ?b2 = (r, b')"
        using "1.prems"(2) rn Some bytes [of ?len] len False
        by (simp add: reader_read.simps [of n dst b] Let_def)
      have b2: "bb_wf ?b2" "content ?b2 = drop ?len (content b)"
        using step [of ?len] wf(2) by (simp_all add: consume_all_eq [OF w])
      have "bb_wf b' \<and> content b' = drop (n - ?len) (content ?b2) \<and>
        r = (dst @ as_bytes ?blk) @ take (n - ?len) (content ?b2)"
        using "1.IH" [OF rn [symmetric] Some refl refl refl False] b2(1) rec
          bytes [of ?len] len by simp
      then show ?thesis
        using b2(2) False c len by auto
    qed
  qed
qed

text \<open>\<open>Write::write\<close> has the loop of \<open>u8s::append\<close>.\<close>

definition writer_write :: "u8 list \<Rightarrow> bytebuf \<Rightarrow> (nat \<times> bytebuf) option" where
  "writer_write buf b = map_option (Pair (length buf)) (copy_append buf b)"

end
