(* ===== verification/Buf_Search.thy ===== *)
theory Buf_Search
  imports ByteBuf "HOL-Library.Sublist"
begin

text \<open>
  Searching and comparing the bytes of a \<open>ByteBuf\<close> where they lie, block by block
  (\<open>starts_with\<close>, \<open>ends_with\<close>, \<open>find_from\<close>, \<open>rfind_from\<close> and \<open>Ord\<close> of \<open>src/buf/mod.rs\<close>). The
  reference is the same question about the byte string \<open>content\<close>.
\<close>

section \<open>Definitions\<close>

text \<open>\<open>windows(n).position(|w| w == needle)\<close> and \<open>rposition\<close> of the standard library.\<close>

definition occurs_at :: "u8 list \<Rightarrow> u8 list \<Rightarrow> nat \<Rightarrow> bool" where
  "occurs_at needle xs p \<longleftrightarrow> take (length needle) (drop p xs) = needle"

definition slice_position :: "u8 list \<Rightarrow> u8 list \<Rightarrow> nat option" where
  "slice_position needle bs = find (occurs_at needle bs) [0..<length bs - length needle + 1]"

definition slice_rposition :: "u8 list \<Rightarrow> u8 list \<Rightarrow> nat option" where
  "slice_rposition needle bs = find (occurs_at needle bs) (rev [0..<length bs - length needle + 1])"

fun starts_with_internal :: "u8 list \<Rightarrow> block list \<Rightarrow> bool" where
  "starts_with_internal needle [] = False"
| "starts_with_internal needle (blk # bs) =
     (if block_len blk < length needle
      then let l = take (block_len blk) needle; r = drop (block_len blk) needle
           in if \<not> block_starts_with l blk then False else starts_with_internal r bs
      else block_starts_with needle blk)"

definition bb_starts_with :: "u8 list \<Rightarrow> bytebuf \<Rightarrow> bool" where
  "bb_starts_with needle b =
     (if needle = [] then True else starts_with_internal needle (drop (idx b) (blocks b)))"

text \<open>The argument is the slice \<open>self.blocks[self.idx..rpos]\<close>, taken in reverse.\<close>

fun ends_with_internal :: "u8 list \<Rightarrow> block list \<Rightarrow> bool" where
  "ends_with_internal needle [] = False"
| "ends_with_internal needle (blk # bs) =
     (if block_len blk < length needle
      then let l = take (length needle - block_len blk) needle;
               r = drop (length needle - block_len blk) needle
           in if \<not> block_ends_with r blk then False else ends_with_internal l bs
      else block_ends_with needle blk)"

definition bb_ends_with :: "u8 list \<Rightarrow> bytebuf \<Rightarrow> bool" where
  "bb_ends_with needle b =
     (if needle = [] then True else ends_with_internal needle (rev (drop (idx b) (blocks b))))"

text \<open>The \<open>loop\<close> of \<open>find_from\<close>, with its variables \<open>idx\<close>, \<open>bytes\<close> and \<open>pos\<close>.\<close>

function find_loop :: "u8 list \<Rightarrow> block list \<Rightarrow> nat \<Rightarrow> u8 list \<Rightarrow> nat \<Rightarrow> nat option" where
  "find_loop needle bs i bytes pos =
     (case (if length bytes \<ge> length needle
            then case slice_position needle bytes of
                   Some n \<Rightarrow> Inl (pos + n)
                 | None \<Rightarrow> let n = length bytes - length needle + 1 in Inr (pos + n, drop n bytes)
            else Inr (pos, bytes)) of
        Inl p \<Rightarrow> Some p
      | Inr (pos, bytes) \<Rightarrow>
          (if i + 1 \<ge> length bs then None
           else case find (\<lambda>m. drop m bytes = take (length bytes - m) needle \<and>
                    starts_with_internal (drop (length bytes - m) needle) (drop (i + 1) bs))
                  [0..<length bytes] of
                  Some m \<Rightarrow> Some (pos + m)
                | None \<Rightarrow> find_loop needle bs (i + 1) (as_bytes (bs ! (i + 1))) (pos + length bytes)))"
  by pat_completeness auto
termination
  by (relation "measure (\<lambda>(needle, bs, i, bytes, pos). length bs - i)") auto

declare find_loop.simps [simp del]

definition bb_find_from :: "u8 list \<Rightarrow> nat \<Rightarrow> bytebuf \<Rightarrow> nat option" where
  "bb_find_from needle pos b =
     (case locate_idx b pos of
        (Ok i, off) \<Rightarrow>
          (if needle = [] then Some pos
           else find_loop needle (blocks b) i (as_bytes_from off (blocks b ! i)) pos)
      | _ \<Rightarrow> None)"

definition bb_find :: "u8 list \<Rightarrow> bytebuf \<Rightarrow> nat option" where
  "bb_find needle b = bb_find_from needle 0 b"

text \<open>
  The \<open>loop\<close> of \<open>rfind_from\<close> in a buffer whose \<open>idx\<close> is \<open>start\<close>. \<open>Panic\<close> is an arithmetic
  underflow of \<open>idx\<close> or \<open>rpos\<close>.
\<close>

function rfind_loop :: "u8 list \<Rightarrow> block list \<Rightarrow> nat \<Rightarrow> nat \<Rightarrow> u8 list \<Rightarrow> nat \<Rightarrow> (nat option, unit) outcome" where
  "rfind_loop needle bs start i bytes rpos =
     (case (if length bytes \<ge> length needle
            then case slice_rposition needle bytes of
                   Some n \<Rightarrow> Inl (rpos + n)
                 | None \<Rightarrow> Inr (take (length needle - 1) bytes)
            else Inr bytes) of
        Inl p \<Rightarrow> Ok (Some p)
      | Inr bytes \<Rightarrow>
          (if i = start then Ok None
           else case find (\<lambda>m. take m bytes = drop (length needle - m) needle \<and>
                    ends_with_internal (take (length needle - m) needle)
                      (rev (drop start (take i bs))))
                  (rev [1..<length bytes + 1]) of
                  Some m \<Rightarrow> Ok (Some (rpos + m - length needle))
                | None \<Rightarrow>
                    (if i = 0 then Panic
                     else let bytes = as_bytes (bs ! (i - 1))
                          in if rpos < length bytes then Panic
                             else rfind_loop needle bs start (i - 1) bytes (rpos - length bytes))))"
  by pat_completeness auto
termination
  by (relation "measure (\<lambda>(needle, bs, start, i, bytes, rpos). i)") auto

declare rfind_loop.simps [simp del]

definition bb_rfind_from :: "u8 list \<Rightarrow> nat \<Rightarrow> bytebuf \<Rightarrow> (nat option, unit) outcome" where
  "bb_rfind_from needle rpos b =
     (if rpos + length needle > usize_max then Panic
      else let rpos = rpos + length needle;
               (i, bytes, off, rpos) =
                 (case locate_idx b rpos of
                    (Ok i, off) \<Rightarrow> (i, as_bytes_to off (blocks b ! i), off, rpos)
                  | (_, off) \<Rightarrow>
                      (if blocks b \<noteq> []
                       then (length (blocks b) - 1, as_bytes (last (blocks b)),
                             block_len (last (blocks b)), rpos - off)
                       else (idx b, [], off, rpos - off)))
           in if needle = [] then Ok (Some rpos)
              else if rpos < off then Panic
              else rfind_loop needle (blocks b) (idx b) i bytes (rpos - off))"

definition bb_rfind :: "u8 list \<Rightarrow> bytebuf \<Rightarrow> (nat option, unit) outcome" where
  "bb_rfind needle b = bb_rfind_from needle usize_max b"

section \<open>Prefixes and suffixes\<close>

lemma starts_with_internal_iff:
  assumes "chain_wf bs" and "needle \<noteq> []"
  shows "starts_with_internal needle bs \<longleftrightarrow> occurs_at needle (chain_bytes bs) 0"
  using assms
proof (induction needle bs rule: starts_with_internal.induct)
  case (2 needle blk bs)
  have len: "length (as_bytes blk) = block_len blk" using "2.prems"(1) by simp
  show ?case
  proof (cases "block_len blk < length needle")
    case True
    have "occurs_at needle (chain_bytes (blk # bs)) 0 \<longleftrightarrow>
        as_bytes blk = take (block_len blk) needle \<and>
        occurs_at (drop (block_len blk) needle) (chain_bytes bs) 0"
      using True len
        append_eq_append_conv [of "as_bytes blk" "take (block_len blk) needle"
          "take (length needle - block_len blk) (chain_bytes bs)" "drop (block_len blk) needle"]
      by (simp add: occurs_at_def)
    with 2 True len show ?thesis
      by (auto simp: block_starts_with_def Let_def)
  next
    case False
    with len show ?thesis by (simp add: occurs_at_def block_starts_with_def)
  qed
qed (simp add: occurs_at_def)

lemma bb_starts_with_iff:
  assumes "bb_wf b"
  shows "bb_starts_with needle b \<longleftrightarrow> occurs_at needle (content b) 0"
  using assms starts_with_internal_iff [of "drop (idx b) (blocks b)" needle]
  by (auto simp: bb_starts_with_def content_def bb_wf_def chain_wf_take_drop occurs_at_def)

lemma ends_with_internal_iff:
  assumes "chain_wf bs" and "needle \<noteq> []"
  shows "ends_with_internal needle bs \<longleftrightarrow> suffix needle (chain_bytes (rev bs))"
  using assms
proof (induction needle bs rule: ends_with_internal.induct)
  case (2 needle blk bs)
  have len: "length (as_bytes blk) = block_len blk" using "2.prems"(1) by simp
  let ?k = "length needle - block_len blk"
  show ?case
  proof (cases "block_len blk < length needle")
    case True
    let ?xs = "chain_bytes (rev bs)"
    have "suffix needle (?xs @ as_bytes blk) \<longleftrightarrow>
        (\<exists>pre. ?xs @ as_bytes blk = (pre @ take ?k needle) @ drop ?k needle)"
      by (simp add: suffix_def)
    also have "\<dots> \<longleftrightarrow> as_bytes blk = drop ?k needle \<and> suffix (take ?k needle) ?xs"
      using True len by (auto simp: suffix_def append_eq_append_conv simp del: append_assoc)
    finally show ?thesis
      using 2 True len by (auto simp: block_ends_with_def Let_def)
  next
    case False
    with len have "suffix needle (ys @ as_bytes blk) \<longleftrightarrow> suffix needle (as_bytes blk)" for ys
      by (auto simp: suffix_append dest: suffix_length_le)
    moreover have "suffix needle (as_bytes blk) \<longleftrightarrow>
        drop (length (as_bytes blk) - length needle) (as_bytes blk) = needle"
      using False len by (metis append_take_drop_id not_less suffixI suffix_take append_eq_conv_conj
          length_take suffix_length_le append_same_eq)
    ultimately show ?thesis using False len by (simp add: block_ends_with_def)
  qed
qed simp

lemma bb_ends_with_iff:
  assumes "bb_wf b"
  shows "bb_ends_with needle b \<longleftrightarrow> suffix needle (content b)"
proof -
  have "chain_wf (rev (drop (idx b) (blocks b)))"
    using assms by (auto simp: bb_wf_def chain_wf_def dest: in_set_dropD)
  from ends_with_internal_iff [OF this] show ?thesis
    by (auto simp: bb_ends_with_def content_def suffix_def)
qed

section \<open>The first occurrence\<close>

definition first_occ :: "u8 list \<Rightarrow> u8 list \<Rightarrow> nat option" where
  "first_occ needle xs = find (occurs_at needle xs) [0..<length xs + 1]"

lemma find_upt_Some:
  "find P [a..<n] = Some k \<longleftrightarrow> a \<le> k \<and> k < n \<and> P k \<and> (\<forall>j. a \<le> j \<and> j < k \<longrightarrow> \<not> P j)"
proof
  assume "find P [a..<n] = Some k"
  then obtain i where i: "i < n - a" "P (a + i)" "k = a + i" "\<forall>j<i. \<not> P (a + j)"
    by (auto simp: find_Some_iff)
  have "\<not> P j" if "a \<le> j" "j < k" for j
    using i(3,4) that by (metis le_add_diff_inverse nat_add_left_cancel_less)
  with i show "a \<le> k \<and> k < n \<and> P k \<and> (\<forall>j. a \<le> j \<and> j < k \<longrightarrow> \<not> P j)" by auto
next
  assume "a \<le> k \<and> k < n \<and> P k \<and> (\<forall>j. a \<le> j \<and> j < k \<longrightarrow> \<not> P j)"
  then show "find P [a..<n] = Some k"
    unfolding find_Some_iff by (intro exI [of _ "k - a"]) auto
qed

lemma find_upt_None: "find P [a..<n] = None \<longleftrightarrow> (\<forall>k. a \<le> k \<and> k < n \<longrightarrow> \<not> P k)"
  by (auto simp: find_None_iff)

lemma find_map_eq: "find P (map f xs) = map_option f (find (P \<circ> f) xs)"
  by (induction xs) simp_all

lemma occurs_at_length: "occurs_at needle xs p \<Longrightarrow> needle \<noteq> [] \<Longrightarrow> p + length needle \<le> length xs"
  unfolding occurs_at_def by (drule arg_cong [where f = length]) (cases "length xs - p", auto simp: min_def split: if_splits)

lemma occurs_at_drop: "occurs_at needle (drop k xs) p \<longleftrightarrow> occurs_at needle xs (k + p)"
  by (simp add: occurs_at_def add.commute)

lemma occurs_at_left:
  "p + length needle \<le> length xs \<Longrightarrow> occurs_at needle (xs @ ys) p \<longleftrightarrow> occurs_at needle xs p"
  by (simp add: occurs_at_def)

lemma occurs_at_across:
  assumes "p < length xs" and "length xs < p + length needle"
  shows "occurs_at needle (xs @ ys) p \<longleftrightarrow> drop p xs = take (length xs - p) needle \<and>
    occurs_at (drop (length xs - p) needle) ys 0"
proof -
  let ?k = "length xs - p"
  have "occurs_at needle (xs @ ys) p \<longleftrightarrow> drop p xs @ take (length needle - ?k) ys = take ?k needle @ drop ?k needle"
    using assms by (simp add: occurs_at_def)
  also have "\<dots> \<longleftrightarrow> drop p xs = take ?k needle \<and> take (length needle - ?k) ys = drop ?k needle"
    using assms by (intro append_eq_append_conv) auto
  finally show ?thesis by (simp add: occurs_at_def)
qed

lemma first_occ_hit:
  assumes "occurs_at needle xs p" and "p \<le> length xs" and "\<And>q. q < p \<Longrightarrow> \<not> occurs_at needle xs q"
  shows "first_occ needle xs = Some p"
  using assms by (simp add: first_occ_def find_upt_Some del: upt_Suc)

lemma first_occ_skip:
  assumes "\<And>q. q < k \<Longrightarrow> \<not> occurs_at needle xs q" and "k \<le> length xs"
  shows "first_occ needle xs = map_option ((+) k) (first_occ needle (drop k xs))"
proof (cases "first_occ needle (drop k xs)")
  case None
  have "\<not> occurs_at needle xs q" if "q \<le> length xs" for q
  proof (cases "q < k")
    case False
    then show ?thesis
      using None that by (simp add: first_occ_def find_upt_None occurs_at_drop del: upt_Suc)
        (metis le_add_diff_inverse less_Suc_eq_le diff_le_mono not_less)
  qed (use assms(1) in simp)
  then have "first_occ needle xs = None" by (simp add: first_occ_def find_upt_None del: upt_Suc)
  with None show ?thesis by simp
next
  case (Some p)
  then have p: "p \<le> length xs - k" "occurs_at needle xs (k + p)"
    "\<And>q. q < p \<Longrightarrow> \<not> occurs_at needle xs (k + q)"
    by (auto simp: first_occ_def find_upt_Some occurs_at_drop simp del: upt_Suc)
  have "\<not> occurs_at needle xs q" if "q < k + p" for q
    using assms(1) p(3) [of "q - k"] that by (cases "q < k") auto
  then have "first_occ needle xs = Some (k + p)"
    using p assms(2) by (intro first_occ_hit) auto
  with Some show ?thesis by simp
qed

lemma find_loop_spec:
  assumes "chain_wf bs" and "needle \<noteq> []" and "i < length bs"
  shows "find_loop needle bs i bytes pos =
    map_option ((+) pos) (first_occ needle (bytes @ chain_bytes (drop (Suc i) bs)))"
  using assms
proof (induction needle bs i bytes pos rule: find_loop.induct)
  case (1 needle bs i bytes pos)
  let ?n = "length needle" and ?rest = "chain_bytes (drop (Suc i) bs)"
  have n: "0 < ?n" using "1.prems"(2) by simp
  define k where "k = (if ?n \<le> length bytes then length bytes - ?n + 1 else 0)"
  have k: "k \<le> length bytes" "length (drop k bytes) < ?n" using n unfolding k_def by (simp_all, linarith+)
  show ?case
  proof (cases "?n \<le> length bytes \<and> slice_position needle bytes \<noteq> None")
    case True
    then obtain p where p: "slice_position needle bytes = Some p" by auto
    then have q: "occurs_at needle bytes p" "p + ?n \<le> length bytes"
      "\<And>q. q < p \<Longrightarrow> \<not> occurs_at needle bytes q"
      using True by (auto simp: slice_position_def find_upt_Some simp del: upt_Suc)
    have "first_occ needle (bytes @ ?rest) = Some p"
      using q by (intro first_occ_hit) (simp_all add: occurs_at_left)
    with True p show ?thesis by (simp add: find_loop.simps [of needle bs i bytes pos])
  next
    case False
    let ?b = "drop k bytes"
    have none: "\<not> occurs_at needle (bytes @ ?rest) q" if "q < k" for q
    proof -
      have "?n \<le> length bytes" "q + ?n \<le> length bytes" using that by (auto simp: k_def split: if_splits)
      moreover have "\<not> occurs_at needle bytes q"
        using False that calculation
        by (auto simp: k_def slice_position_def find_upt_None simp del: upt_Suc)
      ultimately show ?thesis by (simp add: occurs_at_left)
    qed
    have skip: "first_occ needle (bytes @ ?rest) = map_option ((+) k) (first_occ needle (?b @ ?rest))"
      using first_occ_skip [OF none, of k] k(1) by simp
    let ?P = "\<lambda>m. drop m ?b = take (length ?b - m) needle \<and>
      starts_with_internal (drop (length ?b - m) needle) (drop (i + 1) bs)"
    have inr: "(if ?n \<le> length bytes
        then case slice_position needle bytes of Some n \<Rightarrow> Inl (pos + n)
          | None \<Rightarrow> let n = length bytes - ?n + 1 in Inr (pos + n, drop n bytes)
        else Inr (pos, bytes)) = (Inr (pos + k, ?b) :: nat + nat \<times> u8 list)"
      using False by (auto simp: k_def Let_def)
    have unfold: "find_loop needle bs i bytes pos =
        (if i + 1 \<ge> length bs then None
         else case find ?P [0..<length ?b] of
                Some m \<Rightarrow> Some (pos + k + m)
              | None \<Rightarrow> find_loop needle bs (i + 1) (as_bytes (bs ! (i + 1))) (pos + k + length ?b))"
      by (subst find_loop.simps) (simp only: inr sum.case prod.case)
    show ?thesis
    proof (cases "length bs \<le> i + 1")
      case True
      have "first_occ needle ?b = None"
        using k(2) occurs_at_length [OF _ "1.prems"(2), of ?b]
        by (fastforce simp: first_occ_def find_upt_None simp del: upt_Suc)
      with True skip show ?thesis by (simp add: unfold)
    next
      case more: False
      have P: "?P m \<longleftrightarrow> occurs_at needle (?b @ ?rest) m" if "m < length ?b" for m
        using occurs_at_across [OF that, of needle ?rest] k(2) that "1.prems"(1)
          starts_with_internal_iff [of "drop (i + 1) bs" "drop (length ?b - m) needle"]
        by (simp add: chain_wf_take_drop)
      have nxt: "?rest = as_bytes (bs ! Suc i) @ chain_bytes (drop (Suc (Suc i)) bs)"
        using more by (simp add: drop_eq_nth_Cons)
      show ?thesis
      proof (cases "find ?P [0..<length ?b]")
        case (Some m)
        then have m: "m < length ?b" "?P m" "\<And>q. q < m \<Longrightarrow> \<not> ?P q"
          unfolding find_upt_Some by auto
        have "\<not> occurs_at needle (?b @ ?rest) q" if "q < m" for q
        proof -
          have "q < length ?b" using m(1) that by simp
          from P [OF this] m(3) [OF that] show ?thesis by blast
        qed
        then have "first_occ needle (?b @ ?rest) = Some m"
          using m P [OF m(1)] by (intro first_occ_hit) auto
        with Some more show ?thesis by (simp add: unfold skip)
      next
        case None
        then have "\<not> ?P q" if "q < length ?b" for q
          using that unfolding find_upt_None by blast
        then have none2: "\<not> occurs_at needle (?b @ ?rest) q" if "q < length ?b" for q
          using P [OF that] that by blast
        have "find_loop needle bs i bytes pos =
            find_loop needle bs (i + 1) (as_bytes (bs ! (i + 1))) (pos + k + length ?b)"
          using None more by (simp add: unfold)
        also have "\<dots> = map_option ((+) (pos + k + length ?b))
            (first_occ needle (as_bytes (bs ! (i + 1)) @ chain_bytes (drop (Suc (i + 1)) bs)))"
          using "1.IH" [OF inr refl _ None "1.prems"(1,2)] more by simp
        also have "\<dots> = map_option ((+) pos) (map_option ((+) k) (map_option ((+) (length ?b))
            (first_occ needle (drop (length ?b) (?b @ ?rest)))))"
          unfolding nxt
          by (cases "first_occ needle (as_bytes (bs ! Suc i) @ chain_bytes (drop (Suc (Suc i)) bs))")
            (simp_all add: add.assoc)
        also have "map_option ((+) (length ?b)) (first_occ needle (drop (length ?b) (?b @ ?rest))) =
            first_occ needle (?b @ ?rest)"
          using first_occ_skip [OF none2, of "length ?b"] by simp
        finally show ?thesis by (simp add: skip)
      qed
    qed
  qed
qed

lemma bb_find_from_spec:
  assumes "bb_wf b" and "idx b < length (blocks b)"
  shows "bb_find_from needle pos b =
    find (occurs_at needle (content b)) [pos..<length (content b) + 1]"
proof (cases "pos \<le> length (content b)")
  case True
  then obtain i off where l: "locate_idx b pos = (Ok i, off)"
    using locate_idx_total assms by blast
  note loc = locate_idx_Ok [OF l assms(1)]
  have wf: "chain_wf (blocks b)" using assms(1) by (rule bb_wf_chain)
  have w: "block_wf (blocks b ! i)" using wf loc(2) by (rule chain_wf_nth)
  have tail: "drop pos (content b) = as_bytes_from off (blocks b ! i) @ chain_bytes (drop (Suc i) (blocks b))"
    using content_split [OF loc(1,2)] loc(3,4) w by (simp add: as_bytes_from_eq)
  have shift: "find (occurs_at needle (content b)) [pos..<length (content b) + 1] =
      map_option ((+) pos) (first_occ needle (drop pos (content b)))"
  proof -
    have "[pos..<length (content b) + 1] = map ((+) pos) [0..<length (drop pos (content b)) + 1]"
      using True by (intro nth_equalityI) (simp_all del: upt_Suc)
    moreover have "occurs_at needle (drop pos (content b)) = occurs_at needle (content b) \<circ> (+) pos"
      by (simp add: fun_eq_iff occurs_at_drop)
    ultimately show ?thesis by (simp only: first_occ_def find_map_eq)
  qed
  show ?thesis
  proof (cases "needle = []")
    case True
    then have "first_occ needle (drop pos (content b)) = Some 0"
      by (intro first_occ_hit) (simp_all add: occurs_at_def)
    with True shift l show ?thesis by (simp add: bb_find_from_def)
  next
    case False
    with shift l tail find_loop_spec [OF wf False loc(2)] show ?thesis
      by (simp add: bb_find_from_def)
  qed
next
  case False
  then have "\<nexists>i off. locate_idx b pos = (Ok i, off)"
    using locate_idx_total [OF assms(1), of pos] by simp
  with False show ?thesis
    by (auto simp: bb_find_from_def split: prod.splits outcome.splits)
qed

lemma bb_find_from_consumed:
  assumes "bb_wf b" and "\<not> idx b < length (blocks b)"
  shows "bb_find_from needle pos b = None"
proof -
  have "\<nexists>i off. locate_idx b pos = (Ok i, off)"
    using locate_idx_total [OF assms(1), of pos] assms(2) by simp
  then show ?thesis
    by (auto simp: bb_find_from_def split: prod.splits outcome.splits)
qed

section \<open>The last occurrence\<close>

definition last_occ :: "u8 list \<Rightarrow> u8 list \<Rightarrow> nat option" where
  "last_occ needle xs = find (occurs_at needle xs) (rev [0..<length xs + 1])"

lemma find_rev_upt_Some:
  "find P (rev [a..<n]) = Some k \<longleftrightarrow> a \<le> k \<and> k < n \<and> P k \<and> (\<forall>j. k < j \<and> j < n \<longrightarrow> \<not> P j)"
  by (induction n) (auto simp: less_Suc_eq split: if_splits)

lemma find_rev_upt_None: "find P (rev [a..<n]) = None \<longleftrightarrow> (\<forall>k. a \<le> k \<and> k < n \<longrightarrow> \<not> P k)"
  by (auto simp: find_None_iff)

lemma find_upt_cases:
  "case find P [a..<n] of
     Some p \<Rightarrow> a \<le> p \<and> p < n \<and> P p \<and> (\<forall>q. a \<le> q \<and> q < p \<longrightarrow> \<not> P q)
   | None \<Rightarrow> \<forall>q. a \<le> q \<and> q < n \<longrightarrow> \<not> P q"
  using find_upt_Some [of P a n] find_upt_None [of P a n] by (simp split: option.split)

lemma find_rev_upt_cases:
  "case find P (rev [a..<n]) of
     Some p \<Rightarrow> a \<le> p \<and> p < n \<and> P p \<and> (\<forall>q. p < q \<and> q < n \<longrightarrow> \<not> P q)
   | None \<Rightarrow> \<forall>q. a \<le> q \<and> q < n \<longrightarrow> \<not> P q"
  using find_rev_upt_Some [of P a n] find_rev_upt_None [of P a n] by (simp split: option.split)


lemma last_occ_hit:
  assumes "occurs_at needle xs p" and "p \<le> length xs" and "\<And>q. p < q \<Longrightarrow> \<not> occurs_at needle xs q"
  shows "last_occ needle xs = Some p"
  using assms by (simp add: last_occ_def find_rev_upt_Some del: upt_Suc)

lemma last_occ_None:
  assumes "\<And>q. \<not> occurs_at needle xs q"
  shows "last_occ needle xs = None"
  using assms by (simp add: last_occ_def find_rev_upt_None del: upt_Suc)

lemma occurs_at_take:
  "q + length needle \<le> k \<Longrightarrow> occurs_at needle (take k xs) q \<longleftrightarrow> occurs_at needle xs q"
  by (simp add: occurs_at_def drop_take min_def)

lemma suffix_drop_iff:
  assumes "length ys \<le> length xs"
  shows "suffix ys xs \<longleftrightarrow> drop (length xs - length ys) xs = ys"
proof
  assume "drop (length xs - length ys) xs = ys"
  then have "xs = take (length xs - length ys) xs @ ys" by (metis append_take_drop_id)
  then show "suffix ys xs" by (rule suffixI)
qed (auto simp: suffix_def)

text \<open>Bytes that no occurrence reaches may be cut off.\<close>

lemma last_occ_take:
  assumes "needle \<noteq> []" and "\<And>q. occurs_at needle xs q \<Longrightarrow> q + length needle \<le> k"
  shows "last_occ needle xs = last_occ needle (take k xs)"
proof -
  have iff: "occurs_at needle (take k xs) q \<longleftrightarrow> occurs_at needle xs q" for q
  proof
    assume "occurs_at needle (take k xs) q"
    moreover from this have "q + length needle \<le> k"
      using occurs_at_length [OF _ assms(1)] by fastforce
    ultimately show "occurs_at needle xs q" by (simp add: occurs_at_take)
  next
    assume "occurs_at needle xs q"
    with assms(2) [OF this] show "occurs_at needle (take k xs) q" by (simp add: occurs_at_take)
  qed
  show ?thesis
  proof (cases "last_occ needle (take k xs)")
    case None
    have "\<not> occurs_at needle xs q" for q
    proof
      assume "occurs_at needle xs q"
      then have "occurs_at needle (take k xs) q" using iff by simp
      moreover from occurs_at_length [OF this assms(1)]
      have "q < length (take k xs) + 1" by linarith
      ultimately show False
        using None unfolding last_occ_def find_rev_upt_None by blast
    qed
    then have "last_occ needle xs = None" by (rule last_occ_None)
    with None show ?thesis by simp
  next
    case (Some p)
    then have p: "occurs_at needle (take k xs) p"
      "\<And>q. p < q \<Longrightarrow> q < length (take k xs) + 1 \<Longrightarrow> \<not> occurs_at needle (take k xs) q"
      by (auto simp: last_occ_def find_rev_upt_Some simp del: upt_Suc)
    have "last_occ needle xs = Some p"
    proof (rule last_occ_hit)
      show "occurs_at needle xs p" using p(1) iff by simp
      then show "p \<le> length xs" using occurs_at_length [OF _ assms(1)] by fastforce
      show "\<not> occurs_at needle xs q" if "p < q" for q
        using p(2) [OF that] iff [of q] occurs_at_length [OF _ assms(1), of "take k xs" q] by force
    qed
    with Some show ?thesis by simp
  qed
qed

lemma rfind_loop_spec:
  assumes "chain_wf bs" and "needle \<noteq> []" and "start \<le> i" and "i \<le> length bs"
    and "rpos = length (chain_bytes (drop start (take i bs)))"
  shows "rfind_loop needle bs start i bytes rpos =
    Ok (last_occ needle (chain_bytes (drop start (take i bs)) @ bytes))"
  using assms
proof (induction needle bs start i bytes rpos rule: rfind_loop.induct)
  case (1 needle bs start i bytes rpos)
  let ?n = "length needle" and ?pre = "chain_bytes (drop start (take i bs))"
  have n: "0 < ?n" using "1.prems"(2) by simp
  show ?case
  proof (cases "?n \<le> length bytes \<and> slice_rposition needle bytes \<noteq> None")
    case True
    then obtain p where p: "slice_rposition needle bytes = Some p" by auto
    then have q: "occurs_at needle bytes p" "p + ?n \<le> length bytes"
      "\<And>q. p < q \<Longrightarrow> q + ?n \<le> length bytes \<Longrightarrow> \<not> occurs_at needle bytes q"
      using True by (auto simp: slice_rposition_def find_rev_upt_Some simp del: upt_Suc)
    have "last_occ needle (?pre @ bytes) = Some (rpos + p)"
    proof (rule last_occ_hit)
      show "occurs_at needle (?pre @ bytes) (rpos + p)"
        using q(1) "1.prems"(5) occurs_at_drop [of needle "length ?pre" "?pre @ bytes" p] by simp
      show "rpos + p \<le> length (?pre @ bytes)" using q(2) "1.prems"(5) by simp
      show "\<not> occurs_at needle (?pre @ bytes) r" if r: "rpos + p < r" for r
      proof
        assume o: "occurs_at needle (?pre @ bytes) r"
        have "occurs_at needle bytes (r - rpos)"
          using o r "1.prems"(5) occurs_at_drop [of needle "length ?pre" "?pre @ bytes" "r - rpos"] by simp
        moreover from occurs_at_length [OF o "1.prems"(2)]
        have "r - rpos + ?n \<le> length bytes" using r "1.prems"(5) by simp
        ultimately show False using q(3) [of "r - rpos"] r by simp
      qed
    qed
    with True p show ?thesis by (simp add: rfind_loop.simps [of needle bs start i bytes rpos])
  next
    case False
    define bytes' where "bytes' = (if ?n \<le> length bytes then take (?n - 1) bytes else bytes)"
    have b': "length bytes' < ?n"
    proof (cases "?n \<le> length bytes")
      case True
      then have "length bytes' \<le> ?n - 1" by (simp add: bytes'_def)
      with n show ?thesis by linarith
    qed (simp add: bytes'_def)
    have inr: "(if ?n \<le> length bytes
        then case slice_rposition needle bytes of Some n \<Rightarrow> Inl (rpos + n)
          | None \<Rightarrow> Inr (take (?n - 1) bytes)
        else Inr bytes) = (Inr bytes' :: nat + u8 list)"
      using False by (auto simp: bytes'_def)
    have cut: "last_occ needle (?pre @ bytes) = last_occ needle (?pre @ bytes')"
    proof (cases "?n \<le> length bytes")
      case True
      have "q + ?n \<le> length ?pre + (?n - 1)" if o: "occurs_at needle (?pre @ bytes) q" for q
      proof (rule ccontr)
        assume "\<not> q + ?n \<le> length ?pre + (?n - 1)"
        then have ge: "length ?pre \<le> q" using n by simp
        then have "occurs_at needle bytes (q - length ?pre)"
          using o occurs_at_drop [of needle "length ?pre" "?pre @ bytes" "q - length ?pre"] by simp
        moreover have "q - length ?pre < length bytes - ?n + 1"
          using occurs_at_length [OF o "1.prems"(2)] ge by simp
        ultimately show False
          using False True by (auto simp: slice_rposition_def find_rev_upt_None simp del: upt_Suc)
      qed
      from last_occ_take [OF "1.prems"(2) this] True show ?thesis by (simp add: bytes'_def)
    qed (simp add: bytes'_def)
    let ?P = "\<lambda>m. take m bytes' = drop (?n - m) needle \<and>
      ends_with_internal (take (?n - m) needle) (rev (drop start (take i bs)))"
    have unfold: "rfind_loop needle bs start i bytes rpos =
        (if i = start then Ok None
         else case find ?P (rev [1..<length bytes' + 1]) of
                Some m \<Rightarrow> Ok (Some (rpos + m - ?n))
              | None \<Rightarrow>
                  (if i = 0 then Panic
                   else let bytes = as_bytes (bs ! (i - 1))
                        in if rpos < length bytes then Panic
                           else rfind_loop needle bs start (i - 1) bytes (rpos - length bytes)))"
      by (subst rfind_loop.simps) (simp only: inr sum.case)
    show ?thesis
    proof (cases "i = start")
      case True
      have "\<not> occurs_at needle bytes' q" for q
        using occurs_at_length [OF _ "1.prems"(2), of bytes' q] b' by auto
      then have "last_occ needle bytes' = None" by (rule last_occ_None)
      have "rfind_loop needle bs start i bytes rpos = Ok None"
        unfolding unfold by (rule if_P) (rule True)
      moreover have "?pre = []" using True by simp
      ultimately show ?thesis
        using cut \<open>last_occ needle bytes' = None\<close> by (simp only: append_Nil)
    next
      case more: False
      have wf: "chain_wf (rev (drop start (take i bs)))"
        using "1.prems"(1) by (auto simp: chain_wf_def dest!: in_set_dropD in_set_takeD)
      have P: "?P m \<longleftrightarrow> ?n - m \<le> length ?pre \<and> occurs_at needle (?pre @ bytes') (length ?pre - (?n - m))"
        if "1 \<le> m" "m \<le> length bytes'" for m
      proof (cases "?n - m \<le> length ?pre")
        case True
        let ?q = "length ?pre - (?n - m)"
        have m: "m < ?n" "take (?n - m) needle \<noteq> []" using that b' "1.prems"(2) by auto
        have "length ?pre - ?q = ?n - m" "?q < length ?pre" "length ?pre < ?q + ?n"
          using True m(1) that(1) by auto
        then have "occurs_at needle (?pre @ bytes') ?q \<longleftrightarrow>
            drop ?q ?pre = take (?n - m) needle \<and> occurs_at (drop (?n - m) needle) bytes' 0"
          using occurs_at_across [of ?q ?pre needle bytes'] by simp
        moreover have "suffix (take (?n - m) needle) ?pre \<longleftrightarrow> drop ?q ?pre = take (?n - m) needle"
          using suffix_drop_iff [of "take (?n - m) needle" ?pre] True by simp
        moreover have "occurs_at (drop (?n - m) needle) bytes' 0 \<longleftrightarrow> take m bytes' = drop (?n - m) needle"
          using m(1) by (simp add: occurs_at_def)
        ultimately show ?thesis
          using ends_with_internal_iff [OF wf m(2)] True by auto
      next
        case False
        then have "take (?n - m) needle \<noteq> []" by auto
        with False ends_with_internal_iff [OF wf this] show ?thesis
          by (auto dest: suffix_length_le)
      qed
      show ?thesis
      proof (cases "find ?P (rev [1..<length bytes' + 1])")
        case (Some m)
        then have m: "1 \<le> m" "m \<le> length bytes'" "?P m"
          "\<And>j. m < j \<Longrightarrow> j \<le> length bytes' \<Longrightarrow> \<not> ?P j"
          unfolding find_rev_upt_Some by auto
        note Pm = P [OF m(1,2), THEN iffD1, OF m(3)]
        have "last_occ needle (?pre @ bytes') = Some (length ?pre - (?n - m))"
        proof (rule last_occ_hit)
          show "occurs_at needle (?pre @ bytes') (length ?pre - (?n - m))" using Pm by simp
          show "\<not> occurs_at needle (?pre @ bytes') q" if q: "length ?pre - (?n - m) < q" for q
          proof
            assume o: "occurs_at needle (?pre @ bytes') q"
            define j where "j = q + ?n - length ?pre"
            have j: "m < j" "j \<le> length bytes'" "?n - j \<le> length ?pre" "length ?pre - (?n - j) = q"
              using occurs_at_length [OF o "1.prems"(2)] q Pm b' m(2) unfolding j_def by auto
            with m(1) have "?P j" using P [of j] o by simp
            with m(4) [OF j(1,2)] show False by blast
          qed
        qed simp
        moreover have "rpos + m - ?n = length ?pre - (?n - m)"
          using Pm m(2) b' "1.prems"(5) by simp
        ultimately show ?thesis using Some more cut by (simp add: unfold)
      next
        case None
        have none: "q + ?n \<le> length ?pre" if o: "occurs_at needle (?pre @ bytes') q" for q
        proof (rule ccontr)
          assume a: "\<not> q + ?n \<le> length ?pre"
          define j where "j = q + ?n - length ?pre"
          have j: "1 \<le> j" "j \<le> length bytes'" "?n - j \<le> length ?pre" "length ?pre - (?n - j) = q"
            using occurs_at_length [OF o "1.prems"(2)] a b' unfolding j_def by auto
          then have "?P j" using P [of j] o by simp
          with None j show False unfolding find_rev_upt_None by auto
        qed
        have cut2: "last_occ needle (?pre @ bytes') = last_occ needle ?pre"
          using last_occ_take [OF "1.prems"(2) none] by simp
        let ?blk = "bs ! (i - 1)" and ?pre' = "chain_bytes (drop start (take (i - 1) bs))"
        have i: "start \<le> i - 1" "i - 1 < length bs" "i = Suc (i - 1)"
          using "1.prems"(3,4) more by auto
        have pre: "?pre = ?pre' @ as_bytes ?blk"
        proof -
          have "take i bs = take (i - 1) bs @ [?blk]"
            using i(2,3) by (metis take_Suc_conv_app_nth)
          with i(1,2) show ?thesis by simp
        qed
        have "rfind_loop needle bs start i bytes rpos =
            rfind_loop needle bs start (i - 1) (as_bytes ?blk) (rpos - length (as_bytes ?blk))"
        proof -
          have "i \<noteq> 0" "\<not> rpos < length (as_bytes ?blk)" using i(3) "1.prems"(5) pre by simp_all
          with more show ?thesis
            by (subst unfold) (simp only: None Let_def option.case if_False)
        qed
        also have "\<dots> = Ok (last_occ needle (?pre' @ as_bytes ?blk))"
          using i "1.prems"(5) pre
          by (intro "1.IH" [OF inr more None _ refl _ "1.prems"(1,2)]) simp_all
        finally show ?thesis using cut cut2 pre by simp
      qed
    qed
  qed
qed

lemma bb_rfind_from_spec:
  assumes "bb_wf b" and "idx b < length (blocks b)" and "rpos + length needle \<le> usize_max"
  shows "bb_rfind_from needle rpos b =
    Ok (find (occurs_at needle (content b)) (rev [0..<min rpos (length (content b)) + 1]))"
proof -
  let ?n = "length needle" and ?c = "content b"
  have wf: "chain_wf (blocks b)" using assms(1) by (rule bb_wf_chain)
  have fin: "last_occ needle (take (rpos + ?n) ?c) =
      find (occurs_at needle ?c) (rev [0..<min rpos (length ?c) + 1])" if ne: "needle \<noteq> []"
  proof (cases "last_occ needle (take (rpos + ?n) ?c)")
    case None
    have "\<not> occurs_at needle ?c q" if q: "q \<le> rpos" for q
    proof
      assume o: "occurs_at needle ?c q"
      then have "occurs_at needle (take (rpos + ?n) ?c) q" using q by (simp add: occurs_at_take)
      moreover from occurs_at_length [OF this ne] have "q < length (take (rpos + ?n) ?c) + 1" by linarith
      ultimately show False using None unfolding last_occ_def find_rev_upt_None by blast
    qed
    then have "find (occurs_at needle ?c) (rev [0..<min rpos (length ?c) + 1]) = None"
      unfolding find_rev_upt_None by auto
    with None show ?thesis by simp
  next
    case (Some p)
    then have p: "occurs_at needle (take (rpos + ?n) ?c) p"
      "\<And>q. p < q \<Longrightarrow> q < length (take (rpos + ?n) ?c) + 1 \<Longrightarrow> \<not> occurs_at needle (take (rpos + ?n) ?c) q"
      unfolding last_occ_def find_rev_upt_Some by auto
    have pl: "p + ?n \<le> length (take (rpos + ?n) ?c)" using occurs_at_length [OF p(1) ne] .
    then have pr: "p \<le> rpos" "p \<le> length ?c" "occurs_at needle ?c p"
      using p(1) occurs_at_take [of p needle "rpos + ?n" ?c] by auto
    have "\<not> occurs_at needle ?c q" if q: "p < q" "q \<le> rpos" for q
    proof
      assume o: "occurs_at needle ?c q"
      then have o': "occurs_at needle (take (rpos + ?n) ?c) q" using q by (simp add: occurs_at_take)
      from occurs_at_length [OF this ne] have "q < length (take (rpos + ?n) ?c) + 1" by linarith
      with p(2) [OF q(1)] o' show False by blast
    qed
    then have "find (occurs_at needle ?c) (rev [0..<min rpos (length ?c) + 1]) = Some p"
      unfolding find_rev_upt_Some using pr by auto
    with Some show ?thesis by simp
  qed
  have empty: "find (occurs_at [] ?c) (rev [0..<min rpos (length ?c) + 1]) = Some (min rpos (length ?c))"
    unfolding find_rev_upt_Some by (auto simp: occurs_at_def)
  show ?thesis
  proof (cases "rpos + ?n \<le> length ?c")
    case True
    then obtain i off where l: "locate_idx b (rpos + ?n) = (Ok i, off)"
      using locate_idx_total assms(1,2) by blast
    note loc = locate_idx_Ok [OF l assms(1)]
    have w: "block_wf (blocks b ! i)" using wf loc(2) by (rule chain_wf_nth)
    let ?pre = "chain_bytes (drop (idx b) (take i (blocks b)))"
    have tk: "?pre @ as_bytes_to off (blocks b ! i) = take (rpos + ?n) ?c"
      using content_split [OF loc(1,2)] loc(3,4) w by (simp add: as_bytes_to_eq)
    show ?thesis
    proof (cases "needle = []")
      case True
      with l assms(3) empty \<open>rpos + ?n \<le> length ?c\<close> show ?thesis
        by (simp add: bb_rfind_from_def Let_def)
    next
      case False
      have "rfind_loop needle (blocks b) (idx b) i (as_bytes_to off (blocks b ! i)) (rpos + ?n - off) =
          Ok (last_occ needle (?pre @ as_bytes_to off (blocks b ! i)))"
        using loc by (intro rfind_loop_spec [OF wf False]) simp_all
      with l loc(4) assms(3) False tk fin [OF False] show ?thesis
        by (simp add: bb_rfind_from_def Let_def)
    qed
  next
    case False
    then have "\<nexists>i off. locate_idx b (rpos + ?n) = (Ok i, off)"
      using locate_idx_total [OF assms(1), of "rpos + ?n"] by simp
    then obtain off where l: "locate_idx b (rpos + ?n) = (Err (rpos + ?n), off)"
      using locate_idx_not_Panic [of b "rpos + ?n"] locate_idx_Err(1) [OF _ assms(1)]
      by (cases "locate_idx b (rpos + ?n)"; cases "fst (locate_idx b (rpos + ?n))") auto
    have off: "rpos + ?n - off = length ?c" using locate_idx_Err(2) [OF l assms(1)] False by simp
    let ?i = "length (blocks b) - 1" and ?l = "last (blocks b)"
    have ne: "blocks b \<noteq> []" using assms(2) by auto
    have i: "idx b \<le> ?i" "?i < length (blocks b)" "blocks b ! ?i = ?l"
      using assms(2) ne by (auto simp: last_conv_nth)
    let ?pre = "chain_bytes (drop (idx b) (take ?i (blocks b)))"
    have c: "?c = ?pre @ as_bytes ?l"
      using content_split [OF i(1,2)] i(3) by simp
    have w: "block_wf ?l" using chain_wf_nth [OF wf i(2)] i(3) by simp
    have pos: "length ?c - block_len ?l = length ?pre" "block_len ?l \<le> length ?c"
      using c w by simp_all
    show ?thesis
    proof (cases "needle = []")
      case True
      with l off assms(3) empty False ne show ?thesis
        by (simp add: bb_rfind_from_def Let_def)
    next
      case nonempty: False
      have "rfind_loop needle (blocks b) (idx b) ?i (as_bytes ?l) (length ?pre) =
          Ok (last_occ needle (?pre @ as_bytes ?l))"
        using i by (intro rfind_loop_spec [OF wf nonempty]) simp_all
      moreover have "take (rpos + ?n) ?c = ?c" using False by simp
      ultimately show ?thesis
        using l off pos assms(3) nonempty ne c fin [OF nonempty]
        by (simp add: bb_rfind_from_def Let_def)
    qed
  qed
qed

text \<open>What the arithmetic does outside that range.\<close>

lemma bb_rfind_overflow:
  "needle \<noteq> [] \<Longrightarrow> bb_rfind needle b = Panic"
  by (simp add: bb_rfind_def bb_rfind_from_def)

lemma rfind_loop_below:
  assumes "i < start" and "\<forall>j \<le> i. as_bytes (bs ! j) = []" and "needle \<noteq> []"
  shows "rfind_loop needle bs start i [] rpos = Panic"
  using assms
proof (induction i arbitrary: rpos)
  case 0
  then show ?case by (simp add: rfind_loop.simps [of needle bs start 0 "[]" rpos])
next
  case (Suc i)
  have "as_bytes (bs ! i) = []" using Suc.prems(2) by simp
  with Suc show ?case by (simp add: rfind_loop.simps [of needle bs start "Suc i" "[]" rpos])
qed

text \<open>A buffer whose blocks are all consumed makes \<open>rfind_from\<close> walk below \<open>self.idx\<close>.\<close>

lemma bb_rfind_consumed:
  assumes "bb_wf b" and "idx b = length (blocks b)" and "blocks b \<noteq> []"
    and "needle \<noteq> []" and "rpos + length needle \<le> usize_max"
  shows "bb_rfind_from needle rpos b = Panic"
proof -
  have "\<nexists>i off. locate_idx b (rpos + length needle) = (Ok i, off)"
    using locate_idx_total [OF assms(1), of "rpos + length needle"] assms(2) by simp
  then obtain off where l: "locate_idx b (rpos + length needle) = (Err (rpos + length needle), off)"
    using locate_idx_not_Panic [of b "rpos + length needle"] locate_idx_Err(1) [OF _ assms(1)]
    by (cases "locate_idx b (rpos + length needle)"; cases "fst (locate_idx b (rpos + length needle))") auto
  have empties: "\<forall>blk\<in>set (blocks b). block_is_empty blk"
    using assms(1,2) by (simp add: bb_wf_def)
  then have "as_bytes (last (blocks b)) = []" "block_len (last (blocks b)) = 0"
    using assms(3) by (simp_all add: block_is_empty_def block_len_def)
  moreover have "rfind_loop needle (blocks b) (idx b) (length (blocks b) - 1) [] r = Panic" for r
  proof (rule rfind_loop_below)
    show "length (blocks b) - 1 < idx b" using assms(2,3) by simp
    show "\<forall>j \<le> length (blocks b) - 1. as_bytes (blocks b ! j) = []"
    proof (intro allI impI)
      fix j assume "j \<le> length (blocks b) - 1"
      then have "j < length (blocks b)" using assms(3) by (cases "blocks b") simp_all
      then show "as_bytes (blocks b ! j) = []" using empties nth_mem by fastforce
    qed
  qed (rule assms(4))
  ultimately show ?thesis
    using l assms(3-5) by (simp add: bb_rfind_from_def Let_def)
qed

section \<open>Comparing\<close>

datatype ordering = Less | Equal | Greater

text \<open>\<open>Ord for [u8]\<close> of the standard library.\<close>

fun slice_cmp :: "u8 list \<Rightarrow> u8 list \<Rightarrow> ordering" where
  "slice_cmp [] [] = Equal"
| "slice_cmp [] (y # ys) = Less"
| "slice_cmp (x # xs) [] = Greater"
| "slice_cmp (x # xs) (y # ys) =
     (if x < y then Less else if y < x then Greater else slice_cmp xs ys)"

function cmp_loop :: "u8 list \<Rightarrow> block list \<Rightarrow> u8 list \<Rightarrow> block list \<Rightarrow> bool \<Rightarrow> bool \<Rightarrow> ordering" where
  "cmp_loop sl1 blks1 sl2 blks2 none1 none2 =
     (if length sl1 < length sl2 then
        (let s1 = take (length sl1) sl2; s2 = drop (length sl1) sl2; c = slice_cmp sl1 s1
         in if c \<noteq> Equal then c
            else case blks1 of
                   block # blks1' \<Rightarrow> cmp_loop (as_bytes block) blks1' s2 blks2 none1 none2
                 | [] \<Rightarrow> Less)
      else if length sl1 > length sl2 then
        (let s1 = take (length sl2) sl1; s2 = drop (length sl2) sl1; c = slice_cmp s1 sl2
         in if c \<noteq> Equal then c
            else case blks2 of
                   block # blks2' \<Rightarrow> cmp_loop s2 blks1 (as_bytes block) blks2' none1 none2
                 | [] \<Rightarrow> Greater)
      else
        (let c = slice_cmp sl1 sl2
         in if c \<noteq> Equal then c
            else if none1 \<and> none2 then Equal
            else let (sl1', blks1', none1') =
                       (case blks1 of block # r \<Rightarrow> (as_bytes block, r, none1) | [] \<Rightarrow> ([], [], True));
                     (sl2', blks2', none2') =
                       (case blks2 of block # r \<Rightarrow> (as_bytes block, r, none2) | [] \<Rightarrow> ([], [], True))
                 in cmp_loop sl1' blks1' sl2' blks2' none1' none2'))"
  by pat_completeness auto
termination
  by (relation "measure (\<lambda>(s, bs, t, cs, n1, n2). length bs + length cs + (if n1 then 0 else 1)
    + (if n2 then 0 else 1))") (auto split: list.splits)

declare cmp_loop.simps [simp del]

definition bb_cmp :: "bytebuf \<Rightarrow> bytebuf \<Rightarrow> ordering" where
  "bb_cmp b other = cmp_loop [] (blocks b) [] (blocks other) False False"

definition bb_eq :: "bytebuf \<Rightarrow> bytebuf \<Rightarrow> bool" where
  "bb_eq b other \<longleftrightarrow> bb_cmp b other = Equal"

lemma slice_cmp_append:
  "length xs = length ys \<Longrightarrow> slice_cmp (xs @ us) (ys @ vs) =
     (if slice_cmp xs ys \<noteq> Equal then slice_cmp xs ys else slice_cmp us vs)"
  by (induction xs ys rule: list_induct2) simp_all

lemma slice_cmp_Equal: "slice_cmp xs ys = Equal \<longleftrightarrow> xs = ys"
  by (induction xs ys rule: slice_cmp.induct) (auto dest: order.antisym simp: not_less)

lemma cmp_loop_spec:
  assumes "n1 \<Longrightarrow> bs = []" and "n2 \<Longrightarrow> cs = []"
  shows "cmp_loop s bs t cs n1 n2 = slice_cmp (s @ chain_bytes bs) (t @ chain_bytes cs)"
  using assms
proof (induction s bs t cs n1 n2 rule: cmp_loop.induct)
  case (1 s bs t cs n1 n2)
  consider (lt) "length s < length t" | (gt) "length s > length t" | (eq) "length s = length t"
    by linarith
  then show ?case
  proof cases
    case lt
    let ?t1 = "take (length s) t" and ?t2 = "drop (length s) t"
    have sc: "slice_cmp (s @ us) (t @ vs) = (if slice_cmp s ?t1 \<noteq> Equal then slice_cmp s ?t1
        else slice_cmp us (?t2 @ vs))" for us vs
      using lt slice_cmp_append [of s ?t1 us "?t2 @ vs"] by (simp flip: append_assoc)
    have "slice_cmp [] (?t2 @ vs) = Less" for vs
      using lt by (cases ?t2) simp_all
    moreover have "cmp_loop s bs t cs n1 n2 = (if slice_cmp s ?t1 \<noteq> Equal then slice_cmp s ?t1
        else case bs of block # r \<Rightarrow> cmp_loop (as_bytes block) r ?t2 cs n1 n2 | [] \<Rightarrow> Less)"
      using lt by (simp add: cmp_loop.simps [of s bs t cs n1 n2] Let_def)
    ultimately show ?thesis
      using sc sc [of "[]"] "1.IH"(1) [OF lt refl refl refl] "1.prems" by (cases bs; cases n1) auto
  next
    case gt
    let ?s1 = "take (length t) s" and ?s2 = "drop (length t) s"
    have sc: "slice_cmp (s @ us) (t @ vs) = (if slice_cmp ?s1 t \<noteq> Equal then slice_cmp ?s1 t
        else slice_cmp (?s2 @ us) vs)" for us vs
      using gt slice_cmp_append [of ?s1 t "?s2 @ us" vs] by (simp flip: append_assoc)
    have "slice_cmp (?s2 @ us) [] = Greater" for us
      using gt by (cases ?s2) simp_all
    moreover have "cmp_loop s bs t cs n1 n2 = (if slice_cmp ?s1 t \<noteq> Equal then slice_cmp ?s1 t
        else case cs of block # r \<Rightarrow> cmp_loop ?s2 bs (as_bytes block) r n1 n2 | [] \<Rightarrow> Greater)"
      using gt by (simp add: cmp_loop.simps [of s bs t cs n1 n2] Let_def)
    moreover have "\<not> length s < length t" using gt by simp
    ultimately show ?thesis
      using sc sc [of _ "[]"] "1.IH"(2) [OF _ gt refl refl refl] "1.prems" by (cases cs; cases n2) auto
  next
    case eq
    have sc: "slice_cmp (s @ us) (t @ vs) = (if slice_cmp s t \<noteq> Equal then slice_cmp s t
        else slice_cmp us vs)" for us vs
      using eq by (rule slice_cmp_append)
    show ?thesis
    proof (cases "slice_cmp s t = Equal \<and> \<not> (n1 \<and> n2)")
      case True
      then show ?thesis
        using eq sc sc [of "[]"] sc [of _ "[]"] "1.IH"(3) "1.prems"
        by (cases bs; cases cs; cases n1; cases n2) (simp_all add: cmp_loop.simps [of s] Let_def)
    next
      case False
      with eq sc "1.prems" show ?thesis
        by (auto simp: cmp_loop.simps [of s bs t cs n1 n2] Let_def)
    qed
  qed
qed

lemma bb_cmp_spec:
  assumes "bb_wf b" and "bb_wf other"
  shows "bb_cmp b other = slice_cmp (content b) (content other)"
proof -
  have "chain_bytes (blocks c) = content c" if "bb_wf c" for c
  proof -
    have "chain_bytes (blocks c) = chain_bytes (take (idx c) (blocks c)) @ content c"
      unfolding content_def by (metis append_take_drop_id chain_bytes_simps(3))
    moreover have "chain_bytes (take (idx c) (blocks c)) = []"
      using that by (intro chain_bytes_empty) (simp add: bb_wf_def)
    ultimately show ?thesis by simp
  qed
  with assms show ?thesis by (simp add: bb_cmp_def cmp_loop_spec)
qed

end
