(* ===== verification/Buf_Window.thy ===== *)
theory Buf_Window
  imports Buf_View
begin

text \<open>
  Windows over the bytes of a \<open>ByteBuf\<close> (\<open>src/buf/window.rs\<close>): the double-ended iterator
  \<open>Windows\<close> and the views \<open>Window\<close>, which refer to the blocks by an offset from their left or
  right end. \<open>Panic\<close> is the call of \<open>unreachable()\<close>.
\<close>

section \<open>Views\<close>

datatype win_off = OffLeft nat | OffRight nat

record window =
  win_blocks :: "block list"
  win_off :: win_off
  win_size :: nat

fun to_bytes_left :: "block list \<Rightarrow> nat \<Rightarrow> nat \<Rightarrow> u8 list" where
  "to_bytes_left [] off sz = []"
| "to_bytes_left (blk # bs) off sz =
     (let off = read_pos blk + off; len = write_pos blk - off
      in if len \<ge> sz then as_bytes_range off sz blk
         else as_bytes_range off len blk @ to_bytes_left bs 0 (sz - len))"

text \<open>The list of blocks is in reverse.\<close>

fun to_bytes_right :: "block list \<Rightarrow> nat \<Rightarrow> nat \<Rightarrow> u8 list" where
  "to_bytes_right [] off sz = []"
| "to_bytes_right (blk # bs) off sz =
     (let off = write_pos blk - off; len = off - read_pos blk
      in if len \<ge> sz then as_bytes_range (off - sz) sz blk
         else to_bytes_right bs 0 (sz - len) @ as_bytes_range (read_pos blk) len blk)"

definition win_to_bytes :: "window \<Rightarrow> u8 list" where
  "win_to_bytes w =
     (case win_off w of
        OffLeft off \<Rightarrow> to_bytes_left (win_blocks w) off (win_size w)
      | OffRight off \<Rightarrow> to_bytes_right (rev (win_blocks w)) off (win_size w))"

definition win_as_bytes :: "window \<Rightarrow> cow" where
  "win_as_bytes w =
     (if win_size w = 0 then Borrowed []
      else if length (win_blocks w) = 1 then
        (let b = win_blocks w ! 0
         in Borrowed (case win_off w of
              OffLeft off \<Rightarrow> as_bytes_range (read_pos b + off) (win_size w) b
            | OffRight off \<Rightarrow> as_bytes_range (write_pos b - off - win_size w) (win_size w) b))
      else Owned (win_to_bytes w))"

definition win_try_as_bytes :: "window \<Rightarrow> u8 list option" where
  "win_try_as_bytes w =
     (if win_size w = 0 then Some []
      else if length (win_blocks w) = 1 then
        (let b = win_blocks w ! 0
         in Some (case win_off w of
              OffLeft off \<Rightarrow> as_bytes_range (read_pos b + off) (win_size w) b
            | OffRight off \<Rightarrow> as_bytes_range (write_pos b - off - win_size w) (win_size w) b))
      else None)"

text \<open>The loops of \<open>eq_left\<close> and \<open>eq_right\<close>.\<close>

fun eq_left_loop :: "block list \<Rightarrow> nat \<Rightarrow> u8 list \<Rightarrow> bool" where
  "eq_left_loop [] off other = False"
| "eq_left_loop (blk # bs) off other =
     (let off = off + read_pos blk; len = write_pos blk - off
      in if len \<ge> length other then as_bytes_range off (length other) blk = other
         else let left = take len other; right = drop len other
              in if as_bytes_range off len blk \<noteq> left then False else eq_left_loop bs 0 right)"

fun eq_right_loop :: "block list \<Rightarrow> nat \<Rightarrow> u8 list \<Rightarrow> bool" where
  "eq_right_loop [] off other = False"
| "eq_right_loop (blk # bs) off other =
     (let off = write_pos blk - off; len = off - read_pos blk
      in if len \<ge> length other then as_bytes_range (off - length other) (length other) blk = other
         else let left = take (length other - len) other; right = drop (length other - len) other
              in if as_bytes_range (read_pos blk) len blk \<noteq> right then False
                 else eq_right_loop bs 0 left)"

definition win_eq :: "window \<Rightarrow> u8 list \<Rightarrow> bool" where
  "win_eq w other =
     (if win_size w = length other
      then case win_off w of
             OffLeft off \<Rightarrow> eq_left_loop (win_blocks w) off other
           | OffRight off \<Rightarrow> eq_right_loop (rev (win_blocks w)) off other
      else False)"

section \<open>The iterator\<close>

record windows =
  ws_blocks :: "block list"
  ws_off :: nat
  ws_roff :: nat
  ws_len :: nat
  ws_size :: nat

definition windows_new :: "bytebuf \<Rightarrow> nat \<Rightarrow> windows" where
  "windows_new b sz =
     (let bs = drop (idx b) (blocks b); n = fold (\<lambda>blk n. n + block_len blk) bs 0
      in \<lparr>ws_blocks = bs, ws_off = 0, ws_roff = 0,
          ws_len = (if n \<ge> sz then n - sz + 1 else 0), ws_size = sz\<rparr>)"

fun next_loop :: "block list \<Rightarrow> nat \<Rightarrow> nat \<Rightarrow> (window \<times> block list \<times> nat) option" where
  "next_loop [] off sz = None"
| "next_loop (blk # bs) off sz =
     (if block_len blk > off
      then Some (\<lparr>win_blocks = blk # bs, win_off = OffLeft off, win_size = sz\<rparr>, blk # bs, off + 1)
      else next_loop bs 0 sz)"

definition windows_next :: "windows \<Rightarrow> (window option, unit) outcome \<times> windows" where
  "windows_next ws =
     (if ws_len ws = 0 then (Ok None, ws)
      else case next_loop (ws_blocks ws) (ws_off ws) (ws_size ws) of
             Some (w, bs, off) \<Rightarrow>
               (Ok (Some w), ws\<lparr>ws_len := ws_len ws - 1, ws_blocks := bs, ws_off := off\<rparr>)
           | None \<Rightarrow> (Panic, ws\<lparr>ws_len := ws_len ws - 1, ws_blocks := [], ws_off := 0\<rparr>))"

text \<open>The loop of \<open>nth\<close>: how many blocks are skipped, and what is left of \<open>n\<close>.\<close>

fun nth_loop :: "block list \<Rightarrow> nat \<Rightarrow> nat \<Rightarrow> nat \<times> nat" where
  "nth_loop [] n i = (i, n)"
| "nth_loop (blk # bs) n i =
     (if n < block_len blk then (i, n) else nth_loop bs (n - block_len blk) (i + 1))"

definition windows_nth :: "nat \<Rightarrow> windows \<Rightarrow> (window option, unit) outcome \<times> windows" where
  "windows_nth n ws =
     (if n \<ge> ws_len ws then (Ok None, ws\<lparr>ws_len := 0\<rparr>)
      else let (i, n) = nth_loop (ws_blocks ws) n 0
           in windows_next (ws\<lparr>ws_blocks := drop i (ws_blocks ws), ws_off := n,
                ws_len := ws_len ws - n\<rparr>))"

text \<open>The blocks in reverse, as \<open>next_loop\<close> has them forwards.\<close>

fun next_back_loop :: "block list \<Rightarrow> nat \<Rightarrow> nat \<Rightarrow> (window \<times> block list \<times> nat) option" where
  "next_back_loop [] roff sz = None"
| "next_back_loop (blk # bs) roff sz =
     (if block_len blk > roff
      then Some (\<lparr>win_blocks = rev (blk # bs), win_off = OffRight roff, win_size = sz\<rparr>,
             rev (blk # bs), roff + 1)
      else next_back_loop bs 0 sz)"

definition windows_next_back :: "windows \<Rightarrow> (window option, unit) outcome \<times> windows" where
  "windows_next_back ws =
     (if ws_len ws = 0 then (Ok None, ws)
      else case next_back_loop (rev (ws_blocks ws)) (ws_roff ws) (ws_size ws) of
             Some (w, bs, roff) \<Rightarrow>
               (Ok (Some w), ws\<lparr>ws_len := ws_len ws - 1, ws_blocks := bs, ws_roff := roff\<rparr>)
           | None \<Rightarrow> (Panic, ws\<lparr>ws_len := ws_len ws - 1, ws_blocks := [], ws_roff := 0\<rparr>))"

section \<open>What a window shows\<close>

definition win_bytes :: "window \<Rightarrow> u8 list" where
  "win_bytes w =
     (let c = chain_bytes (win_blocks w)
      in case win_off w of
           OffLeft off \<Rightarrow> take (win_size w) (drop off c)
         | OffRight off \<Rightarrow> take (win_size w) (drop (length c - off - win_size w) c))"

definition win_wf :: "window \<Rightarrow> bool" where
  "win_wf w \<longleftrightarrow> chain_wf (win_blocks w) \<and> win_blocks w \<noteq> [] \<and>
     (case win_off w of
        OffLeft off \<Rightarrow> off \<le> block_len (hd (win_blocks w)) \<and>
          off + win_size w \<le> length (chain_bytes (win_blocks w))
      | OffRight off \<Rightarrow> off \<le> block_len (last (win_blocks w)) \<and>
          off + win_size w \<le> length (chain_bytes (win_blocks w)))"

text \<open>A part of a block, counted from its left and from its right end.\<close>

lemma range_left:
  assumes "block_wf blk" and "off + n \<le> block_len blk"
  shows "as_bytes_range (read_pos blk + off) n blk = take n (drop off (as_bytes blk))"
  using block_suffix_bytes [OF assms] .

lemma range_right:
  assumes "block_wf blk" and "off + n \<le> block_len blk"
  shows "as_bytes_range (write_pos blk - off - n) n blk =
    take n (drop (block_len blk - off - n) (as_bytes blk))"
proof -
  have "write_pos blk - off - n = read_pos blk + (block_len blk - off - n)"
    using assms by (auto simp: block_wf_def block_len_def)
  with block_suffix_bytes [OF assms(1), of "block_len blk - off - n" n] assms(2) show ?thesis
    by simp
qed

lemma to_bytes_left_spec:
  assumes "chain_wf bs" and "bs \<noteq> [] \<Longrightarrow> off \<le> block_len (hd bs)"
    and "off + sz \<le> length (chain_bytes bs)"
  shows "to_bytes_left bs off sz = take sz (drop off (chain_bytes bs))"
  using assms
proof (induction bs off sz rule: to_bytes_left.induct)
  case (2 blk bs off sz)
  have w: "block_wf blk" and off: "off \<le> block_len blk" using "2.prems" by simp_all
  have len: "write_pos blk - (read_pos blk + off) = block_len blk - off"
    "write_pos blk - (off + read_pos blk) = block_len blk - off"
    by (simp_all add: block_len_def add.commute)
  show ?case
  proof (cases "block_len blk - off \<ge> sz")
    case True
    with w off range_left [OF w, of off sz] show ?thesis by (simp add: Let_def len)
  next
    case False
    have "to_bytes_left bs 0 (sz - (block_len blk - off)) =
        take (sz - (block_len blk - off)) (drop 0 (chain_bytes bs))"
      using "2.IH" [OF refl refl] "2.prems" False off w by (simp add: len)
    with False w off range_left [OF w, of off "block_len blk - off"] show ?thesis
      by (simp add: Let_def len)
  qed
qed simp

lemma to_bytes_right_spec:
  assumes "chain_wf bs" and "bs \<noteq> [] \<Longrightarrow> off \<le> block_len (hd bs)"
    and "off + sz \<le> length (chain_bytes (rev bs))"
  shows "to_bytes_right bs off sz =
    take sz (drop (length (chain_bytes (rev bs)) - off - sz) (chain_bytes (rev bs)))"
  using assms
proof (induction bs off sz rule: to_bytes_right.induct)
  case (2 blk bs off sz)
  have w: "block_wf blk" and off: "off \<le> block_len blk" using "2.prems" by simp_all
  have len: "write_pos blk - (read_pos blk + off) = block_len blk - off"
    "write_pos blk - (off + read_pos blk) = block_len blk - off"
    by (simp_all add: block_len_def add.commute)
  let ?c = "chain_bytes (rev bs)"
  show ?case
  proof (cases "block_len blk - off \<ge> sz")
    case True
    with w off range_right [OF w, of off sz] show ?thesis by (simp add: Let_def len)
  next
    case False
    have "to_bytes_right bs 0 (sz - (block_len blk - off)) =
        take (sz - (block_len blk - off)) (drop (length ?c - 0 - (sz - (block_len blk - off))) ?c)"
      using "2.IH" [OF refl refl] "2.prems" False off w by (simp add: len)
    moreover have "take sz (drop (length ?c + block_len blk - off - sz) (?c @ as_bytes blk)) =
        drop (length ?c - (sz - (block_len blk - off))) ?c @ take (block_len blk - off) (as_bytes blk)"
      using False off w "2.prems"(3) by (simp add: add.commute [of off])
    ultimately show ?thesis
      using False w off range_left [OF w, of 0 "block_len blk - off"] "2.prems"(3)
      by (simp add: Let_def len)
  qed
qed simp

lemma eq_left_loop_spec:
  assumes "chain_wf bs" and "bs \<noteq> []" and "off \<le> block_len (hd bs)"
    and "off + length other \<le> length (chain_bytes bs)"
  shows "eq_left_loop bs off other \<longleftrightarrow> take (length other) (drop off (chain_bytes bs)) = other"
  using assms
proof (induction bs off other rule: eq_left_loop.induct)
  case (2 blk bs off other)
  have w: "block_wf blk" and off: "off \<le> block_len blk" using "2.prems" by simp_all
  have len: "write_pos blk - (read_pos blk + off) = block_len blk - off"
    "write_pos blk - (off + read_pos blk) = block_len blk - off"
    by (simp_all add: block_len_def add.commute)
  show ?case
  proof (cases "block_len blk - off \<ge> length other")
    case True
    with w off range_left [OF w, of off "length other"] show ?thesis
      by (simp add: Let_def len add.commute [of off])
  next
    case False
    let ?k = "block_len blk - off"
    have bs: "bs \<noteq> []" using "2.prems"(4) False w off by auto
    have "take (length other) (drop off (chain_bytes (blk # bs))) = other \<longleftrightarrow>
        drop off (as_bytes blk) @ take (length other - ?k) (chain_bytes bs) = take ?k other @ drop ?k other"
      using False off w by simp
    also have "\<dots> \<longleftrightarrow> drop off (as_bytes blk) = take ?k other \<and>
        take (length other - ?k) (chain_bytes bs) = drop ?k other"
      using False off w by (intro append_eq_append_conv) simp
    finally show ?thesis
      using False w off range_left [OF w, of off ?k] "2.IH" [OF refl refl _ refl refl] "2.prems" bs
      by (simp add: Let_def len add.commute [of off])
  qed
qed simp

lemma eq_right_loop_spec:
  assumes "chain_wf bs" and "bs \<noteq> []" and "off \<le> block_len (hd bs)"
    and "off + length other \<le> length (chain_bytes (rev bs))"
  shows "eq_right_loop bs off other \<longleftrightarrow>
    take (length other) (drop (length (chain_bytes (rev bs)) - off - length other) (chain_bytes (rev bs))) = other"
  using assms
proof (induction bs off other rule: eq_right_loop.induct)
  case (2 blk bs off other)
  have w: "block_wf blk" and off: "off \<le> block_len blk" using "2.prems" by simp_all
  have len: "write_pos blk - (read_pos blk + off) = block_len blk - off"
    "write_pos blk - (off + read_pos blk) = block_len blk - off"
    by (simp_all add: block_len_def add.commute)
  let ?c = "chain_bytes (rev bs)"
  show ?case
  proof (cases "block_len blk - off \<ge> length other")
    case True
    with w off range_right [OF w, of off "length other"] show ?thesis
      by (simp add: Let_def len)
  next
    case False
    let ?k = "block_len blk - off" and ?m = "length other - (block_len blk - off)"
    have bs: "bs \<noteq> []" using "2.prems"(4) False w off by auto
    have m: "?m \<le> length ?c" using "2.prems"(4) False w off by simp
    have "take (length other) (drop (length (chain_bytes (rev (blk # bs))) - off - length other)
          (chain_bytes (rev (blk # bs)))) =
        drop (length ?c - ?m) ?c @ take ?k (as_bytes blk)"
      using False off w "2.prems"(4) by (simp add: add.commute [of off])
    then have "take (length other) (drop (length (chain_bytes (rev (blk # bs))) - off - length other)
          (chain_bytes (rev (blk # bs)))) = other \<longleftrightarrow>
        drop (length ?c - ?m) ?c @ take ?k (as_bytes blk) = take ?m other @ drop ?m other"
      by simp
    also have "\<dots> \<longleftrightarrow> drop (length ?c - ?m) ?c = take ?m other \<and> take ?k (as_bytes blk) = drop ?m other"
      using m False by (intro append_eq_append_conv) simp
    finally show ?thesis
      using False w off range_left [OF w, of 0 ?k] "2.IH" [OF refl refl _ refl refl] "2.prems" bs m
      by (auto simp: Let_def len)
  qed
qed simp

text \<open>All the ways to look at a window agree.\<close>

lemma window_views:
  assumes "win_wf w"
  shows "win_to_bytes w = win_bytes w" and "cow_bytes (win_as_bytes w) = win_bytes w"
    and "win_try_as_bytes w = (if win_size w = 0 \<or> length (win_blocks w) = 1 then Some (win_bytes w) else None)"
    and "win_eq w other \<longleftrightarrow> win_bytes w = other"
proof -
  have wf: "chain_wf (win_blocks w)" "win_blocks w \<noteq> []"
    "chain_wf (rev (win_blocks w))" "hd (rev (win_blocks w)) = last (win_blocks w)"
    using assms by (auto simp: win_wf_def chain_wf_def hd_rev)
  show to: "win_to_bytes w = win_bytes w"
    using assms wf to_bytes_left_spec [OF wf(1)] to_bytes_right_spec [OF wf(3)]
    by (auto simp: win_wf_def win_to_bytes_def win_bytes_def Let_def split: win_off.splits)
  have one: "(case win_off w of
        OffLeft off \<Rightarrow> as_bytes_range (read_pos b + off) (win_size w) b
      | OffRight off \<Rightarrow> as_bytes_range (write_pos b - off - win_size w) (win_size w) b) = win_bytes w"
    if "win_blocks w = [b]" for b
    using assms that range_left [of b] range_right [of b]
    by (auto simp: win_wf_def win_bytes_def Let_def split: win_off.splits)
  have single: "win_blocks w = [win_blocks w ! 0]" if "length (win_blocks w) = Suc 0"
    using that by (cases "win_blocks w") simp_all
  have zero: "win_bytes w = []" if "win_size w = 0"
    using that by (simp add: win_bytes_def Let_def split: win_off.splits)
  show "cow_bytes (win_as_bytes w) = win_bytes w"
    using one [OF single] to zero by (simp add: win_as_bytes_def Let_def)
  show "win_try_as_bytes w = (if win_size w = 0 \<or> length (win_blocks w) = 1 then Some (win_bytes w) else None)"
    using one [OF single] zero by (simp add: win_try_as_bytes_def Let_def)
  have len: "length (win_bytes w) = win_size w"
    using assms by (auto simp: win_wf_def win_bytes_def Let_def split: win_off.splits)
  show "win_eq w other \<longleftrightarrow> win_bytes w = other"
  proof (cases "win_size w = length other")
    case True
    with assms wf eq_left_loop_spec [OF wf(1,2)] eq_right_loop_spec [OF wf(3)] show ?thesis
      by (auto simp: win_wf_def win_eq_def win_bytes_def Let_def split: win_off.splits)
  qed (use len in \<open>auto simp: win_eq_def\<close>)
qed

section \<open>What the iterator yields\<close>

lemma next_loop_spec:
  assumes "bs \<noteq> [] \<Longrightarrow> off \<le> block_len (hd bs)" and "chain_wf bs" and "off < length (chain_bytes bs)"
  shows "\<exists>n off'. next_loop bs off sz =
      Some (\<lparr>win_blocks = drop n bs, win_off = OffLeft off', win_size = sz\<rparr>, drop n bs, off' + 1) \<and>
    n < length bs \<and> length (chain_bytes (take n bs)) + off' = off \<and> off' < block_len (hd (drop n bs))"
  using assms
proof (induction bs off sz rule: next_loop.induct)
  case (2 blk bs off sz)
  show ?case
  proof (cases "block_len blk > off")
    case True
    then show ?thesis by (intro exI [of _ 0] exI [of _ off]) simp
  next
    case False
    with "2.prems" have "0 < length (chain_bytes bs)" "chain_wf bs" "off = block_len blk" by simp_all
    from "2.IH" [OF False _ this(2,1)] obtain n off' where
      "next_loop bs 0 sz = Some (\<lparr>win_blocks = drop n bs, win_off = OffLeft off', win_size = sz\<rparr>,
        drop n bs, off' + 1)" "n < length bs" "length (chain_bytes (take n bs)) + off' = 0"
      "off' < block_len (hd (drop n bs))" by auto
    with False "2.prems" \<open>off = block_len blk\<close> show ?thesis
      by (intro exI [of _ "Suc n"] exI [of _ off']) simp
  qed
qed simp

text \<open>The two loops are mirror images.\<close>

lemma next_back_loop_eq:
  "next_back_loop bs roff sz =
    map_option (\<lambda>(w, bs', off). (\<lparr>win_blocks = rev bs', win_off = OffRight (off - 1), win_size = sz\<rparr>,
      rev bs', off)) (next_loop bs roff sz)"
  by (induction bs roff sz rule: next_loop.induct) simp_all

text \<open>
  The invariant of \<open>Windows\<close> over the bytes \<open>c\<close>, after \<open>k\<close> windows were taken from the front
  and \<open>j\<close> from the back: what lies before and behind the blocks that are left is bookkeeping
  for \<open>off\<close> and \<open>roff\<close>, and \<open>len\<close> is the number of windows to come.
\<close>

definition ws_inv :: "u8 list \<Rightarrow> nat \<Rightarrow> nat \<Rightarrow> windows \<Rightarrow> bool" where
  "ws_inv c k j ws \<longleftrightarrow>
     chain_wf (ws_blocks ws) \<and> 0 < ws_size ws \<and>
     (ws_blocks ws \<noteq> [] \<longrightarrow> ws_off ws \<le> block_len (hd (ws_blocks ws)) \<and>
       ws_roff ws \<le> block_len (last (ws_blocks ws))) \<and>
     (\<exists>pre post. c = pre @ chain_bytes (ws_blocks ws) @ post \<and>
       length pre + ws_off ws = k \<and> length post + ws_roff ws = j) \<and>
     ws_len ws = length c + 1 - (k + j + ws_size ws)"

lemma ws_invI:
  assumes "c = pre @ chain_bytes (ws_blocks ws) @ post"
    and "length pre + ws_off ws = k" and "length post + ws_roff ws = j"
    and "chain_wf (ws_blocks ws)" and "0 < ws_size ws"
    and "ws_off ws \<le> block_len (hd (ws_blocks ws))" and "ws_roff ws \<le> block_len (last (ws_blocks ws))"
    and "ws_len ws = length c + 1 - (k + j + ws_size ws)"
  shows "ws_inv c k j ws"
  unfolding ws_inv_def using assms by blast

lemma windows_new_inv:
  assumes "bb_wf b" and "0 < n"
  shows "ws_inv (content b) 0 0 (windows_new b n)"
proof -
  have "fold (\<lambda>blk n. n + block_len blk) (drop (idx b) (blocks b)) 0 = length (content b)"
    using assms(1) by (simp add: fold_block_len content_def bb_wf_def chain_wf_take_drop)
  with assms show ?thesis
    by (auto simp: ws_inv_def windows_new_def Let_def content_def bb_wf_def chain_wf_take_drop)
qed

lemma chain_bytes_cut: "chain_bytes bs = chain_bytes (take n bs) @ chain_bytes (drop n bs)"
  by (metis append_take_drop_id chain_bytes_simps(3))

lemma length_chain_bytes_rev [simp]: "length (chain_bytes (rev bs)) = length (chain_bytes bs)"
  by (induction bs) simp_all

lemma windows_next_spec:
  assumes "ws_inv c k j ws" and "0 < ws_len ws"
  shows "\<exists>w ws'. windows_next ws = (Ok (Some w), ws') \<and> ws_inv c (k + 1) j ws' \<and> win_wf w \<and>
    win_bytes w = take (ws_size ws) (drop k c) \<and> ws_size ws' = ws_size ws \<and>
    ws_len ws' = ws_len ws - 1"
proof -
  let ?bs = "ws_blocks ws"
  obtain pre post where c: "c = pre @ chain_bytes ?bs @ post" and k: "length pre + ws_off ws = k"
    and j: "length post + ws_roff ws = j" and wf: "chain_wf ?bs" and sz: "0 < ws_size ws"
    and len: "ws_len ws = length c + 1 - (k + j + ws_size ws)"
    and offs: "?bs \<noteq> [] \<Longrightarrow> ws_off ws \<le> block_len (hd ?bs)"
      "?bs \<noteq> [] \<Longrightarrow> ws_roff ws \<le> block_len (last ?bs)"
    using assms(1) by (auto simp: ws_inv_def)
  have room: "ws_off ws + ws_size ws + ws_roff ws \<le> length (chain_bytes ?bs)"
    using assms(2) len k j c by simp
  then have "ws_off ws < length (chain_bytes ?bs)" using sz by simp
  from next_loop_spec [OF offs(1) wf this, of "ws_size ws"] obtain n off' where
    nl: "next_loop ?bs (ws_off ws) (ws_size ws) = Some (\<lparr>win_blocks = drop n ?bs,
      win_off = OffLeft off', win_size = ws_size ws\<rparr>, drop n ?bs, off' + 1)"
    and n: "n < length ?bs" and off: "length (chain_bytes (take n ?bs)) + off' = ws_off ws"
    and hd: "off' < block_len (hd (drop n ?bs))" by blast
  let ?w = "\<lparr>win_blocks = drop n ?bs, win_off = OffLeft off', win_size = ws_size ws\<rparr>"
  let ?ws = "ws\<lparr>ws_len := ws_len ws - 1, ws_blocks := drop n ?bs, ws_off := off' + 1\<rparr>"
  have split: "chain_bytes ?bs = chain_bytes (take n ?bs) @ chain_bytes (drop n ?bs)"
    by (rule chain_bytes_cut)
  have step: "windows_next ws = (Ok (Some ?w), ?ws)"
    using assms(2) nl by (simp add: windows_next_def)
  have "off' + ws_size ws \<le> length (chain_bytes (drop n ?bs))"
    using room off split by simp
  moreover have "k - (length pre + length (chain_bytes (take n ?bs))) = off'" using k off by simp
  ultimately have w: "win_wf ?w" "win_bytes ?w = take (ws_size ws) (drop k c)"
    using wf n hd k off by (simp_all add: win_wf_def win_bytes_def chain_wf_take_drop c split Let_def)
  have "?bs \<noteq> []" using n by auto
  with c split off k wf sz n hd j len offs(2) have "ws_inv c (k + 1) j ?ws"
    by (intro ws_invI [of _ "pre @ chain_bytes (take n ?bs)" _ post]) (simp_all add: chain_wf_take_drop)
  with step w show ?thesis by auto
qed

lemma windows_next_back_spec:
  assumes "ws_inv c k j ws" and "0 < ws_len ws"
  shows "\<exists>w ws'. windows_next_back ws = (Ok (Some w), ws') \<and> ws_inv c k (j + 1) ws' \<and> win_wf w \<and>
    win_bytes w = take (ws_size ws) (drop (length c - j - ws_size ws) c) \<and>
    ws_size ws' = ws_size ws \<and> ws_len ws' = ws_len ws - 1"
proof -
  let ?bs = "ws_blocks ws"
  obtain pre post where c: "c = pre @ chain_bytes ?bs @ post" and k: "length pre + ws_off ws = k"
    and j: "length post + ws_roff ws = j" and wf: "chain_wf ?bs" and sz: "0 < ws_size ws"
    and len: "ws_len ws = length c + 1 - (k + j + ws_size ws)"
    and offs: "?bs \<noteq> [] \<Longrightarrow> ws_off ws \<le> block_len (hd ?bs)"
      "?bs \<noteq> [] \<Longrightarrow> ws_roff ws \<le> block_len (last ?bs)"
    using assms(1) by (auto simp: ws_inv_def)
  have room: "ws_off ws + ws_size ws + ws_roff ws \<le> length (chain_bytes ?bs)"
    using assms(2) len k j c by simp
  have "ws_roff ws < length (chain_bytes (rev ?bs))" using sz room by simp
  moreover have "chain_wf (rev ?bs)" "rev ?bs \<noteq> [] \<Longrightarrow> ws_roff ws \<le> block_len (hd (rev ?bs))"
    using wf offs(2) by (simp_all add: chain_wf_def hd_rev)
  ultimately obtain n off' where
    nl: "next_loop (rev ?bs) (ws_roff ws) (ws_size ws) = Some (\<lparr>win_blocks = drop n (rev ?bs),
      win_off = OffLeft off', win_size = ws_size ws\<rparr>, drop n (rev ?bs), off' + 1)"
    and n: "n < length ?bs" and off: "length (chain_bytes (take n (rev ?bs))) + off' = ws_roff ws"
    and hd: "off' < block_len (hd (drop n (rev ?bs)))"
    using next_loop_spec [of "rev ?bs" "ws_roff ws" "ws_size ws"] by auto
  define m where "m = length ?bs - n"
  have rv: "rev (drop n (rev ?bs)) = take m ?bs" "take n (rev ?bs) = rev (drop m ?bs)"
    by (simp add: m_def rev_drop, simp add: m_def take_rev)
  have m: "0 < m" "take m ?bs \<noteq> []" using n by (auto simp: m_def)
  let ?w = "\<lparr>win_blocks = take m ?bs, win_off = OffRight off', win_size = ws_size ws\<rparr>"
  let ?ws = "ws\<lparr>ws_len := ws_len ws - 1, ws_blocks := take m ?bs, ws_roff := off' + 1\<rparr>"
  have split: "chain_bytes ?bs = chain_bytes (take m ?bs) @ chain_bytes (drop m ?bs)"
    by (rule chain_bytes_cut)
  have step: "windows_next_back ws = (Ok (Some ?w), ?ws)"
    using assms(2) nl rv(1) by (simp add: windows_next_back_def next_back_loop_eq)
  have off2: "length (chain_bytes (drop m ?bs)) + off' = ws_roff ws"
    using off rv(2) by simp
  have last: "off' < block_len (last (take m ?bs))"
    using hd rv(1) by (metis last_rev m(2) rev_is_Nil_conv)
  have fit: "off' + ws_size ws \<le> length (chain_bytes (take m ?bs))"
    using room off2 split by simp
  have wt: "chain_wf (take m ?bs)" using wf by (rule chain_wf_take_drop)
  have "length c - j - ws_size ws = length pre + (length (chain_bytes (take m ?bs)) - off' - ws_size ws)"
    using fit off2 j by (simp add: c split)
  then have w: "win_wf ?w"
    "win_bytes ?w = take (ws_size ws) (drop (length c - j - ws_size ws) c)"
    using wt m last fit by (simp_all add: win_wf_def win_bytes_def c split Let_def)
  have "?bs \<noteq> []" "hd (take m ?bs) = hd ?bs" using m by auto
  with c split off2 j wt sz last k len offs(1) have "ws_inv c k (j + 1) ?ws"
    by (intro ws_invI [of _ pre _ "chain_bytes (drop m ?bs) @ post"]) simp_all
  with step w show ?thesis by auto
qed

lemma windows_next_done: "ws_len ws = 0 \<Longrightarrow> windows_next ws = (Ok None, ws)"
  "ws_len ws = 0 \<Longrightarrow> windows_next_back ws = (Ok None, ws)"
  by (simp_all add: windows_next_def windows_next_back_def)

text \<open>A run of the iterator: \<open>True\<close> is a call of \<open>next\<close>, \<open>False\<close> a call of \<open>next_back\<close>.\<close>

fun windows_run :: "bool list \<Rightarrow> windows \<Rightarrow> (window option, unit) outcome list" where
  "windows_run [] ws = []"
| "windows_run (front # fs) ws =
     (let (r, ws') = (if front then windows_next ws else windows_next_back ws)
      in r # windows_run fs ws')"

text \<open>The same calls on a deque of all the windows.\<close>

fun deque_run :: "bool list \<Rightarrow> 'a list \<Rightarrow> 'a option list" where
  "deque_run [] xs = []"
| "deque_run (front # fs) xs =
     (if xs = [] then None # deque_run fs []
      else if front then Some (hd xs) # deque_run fs (tl xs)
      else Some (last xs) # deque_run fs (butlast xs))"

definition all_windows :: "nat \<Rightarrow> nat \<Rightarrow> nat \<Rightarrow> u8 list \<Rightarrow> u8 list list" where
  "all_windows n k j c = map (\<lambda>i. take n (drop i c)) [k ..< length c + 1 - (j + n)]"

lemma windows_run_spec:
  "ws_inv c k j ws \<Longrightarrow>
    map (map_outcome (map_option win_to_bytes)) (windows_run fs ws) =
      map Ok (deque_run fs (all_windows (ws_size ws) k j c))"
proof (induction fs arbitrary: k j ws)
  case (Cons f fs)
  let ?n = "ws_size ws" and ?e = "length c + 1 - (j + ws_size ws)"
  have len: "ws_len ws = ?e - k" using Cons.prems by (auto simp: ws_inv_def)
  show ?case
  proof (cases "ws_len ws = 0")
    case True
    with len have "all_windows ?n k j c = []" by (simp add: all_windows_def)
    with Cons.IH [OF Cons.prems] True show ?thesis by (simp add: windows_next_done)
  next
    case False
    with len have lt: "k < ?e" by simp
    then have front: "all_windows ?n k j c = take ?n (drop k c) # all_windows ?n (k + 1) j c"
      by (simp add: all_windows_def upt_conv_Cons)
    have "?e = Suc (length c - j - ?n)" using lt by simp
    then have bk: "all_windows ?n k j c = all_windows ?n k (j + 1) c @ [take ?n (drop (length c - j - ?n) c)]"
      using lt by (simp add: all_windows_def upt_Suc)
    show ?thesis
    proof (cases f)
      case True
      obtain w ws' where "windows_next ws = (Ok (Some w), ws')" "ws_inv c (k + 1) j ws'"
        "win_to_bytes w = take ?n (drop k c)" "ws_size ws' = ?n"
        using windows_next_spec [OF Cons.prems] False window_views(1) by fastforce
      with Cons.IH [of "k + 1" j ws'] True front show ?thesis by simp
    next
      case False
      obtain w ws' where "windows_next_back ws = (Ok (Some w), ws')" "ws_inv c k (j + 1) ws'"
        "win_to_bytes w = take ?n (drop (length c - j - ?n) c)" "ws_size ws' = ?n"
        using windows_next_back_spec [OF Cons.prems] \<open>ws_len ws \<noteq> 0\<close> window_views(1) by fastforce
      with Cons.IH [of k "j + 1" ws'] False bk show ?thesis by simp
    qed
  qed
qed simp

end
