(* ===== verification/Hex_Dump.thy ===== *)
theory Hex_Dump
  imports Buf_View "HOL-Library.Monad_Syntax"
begin

text \<open>
  \<open>src/buf/hex_dump.rs\<close>: the dump of a buffer in rows of 16 bytes, written to a formatter that does not
  fail. The text is the list of the bytes written: 32 is a blank, 10 the end of a line, 46 a full stop.
\<close>

section \<open>Formatting\<close>

text \<open>Upper-case hexadecimal digits, padded with \<open>0\<close> to a width: \<open>{:08X}\<close> and \<open>{:02X}\<close>.\<close>

definition hex_digit :: "nat \<Rightarrow> u8" where
  "hex_digit n = word_of_nat (if n < 10 then 48 + n else 55 + n)"

fun hex_digits :: "nat \<Rightarrow> u8 list" where
  "hex_digits n = (if n < 16 then [hex_digit n] else hex_digits (n div 16) @ [hex_digit (n mod 16)])"

declare hex_digits.simps [simp del]

definition hex_padded :: "nat \<Rightarrow> nat \<Rightarrow> u8 list" where
  "hex_padded w n = replicate (w - length (hex_digits n)) 48 @ hex_digits n"

text \<open>\<open>char::is_control\<close> on the characters up to 255.\<close>

definition is_control :: "u8 \<Rightarrow> bool" where
  "is_control b \<longleftrightarrow> b < 32 \<or> 127 \<le> b \<and> b < 160"

definition dump_hex :: "u8 \<Rightarrow> u8 list" where
  "dump_hex b = 32 # hex_padded 2 (unat b)"

definition dump_asc :: "u8 \<Rightarrow> u8" where
  "dump_asc b = (if is_control b then 46 else b)"

section \<open>The dump\<close>

definition BYTES_PER_ROW :: nat where
  "BYTES_PER_ROW = 16"

text \<open>
  The inner loop, with \<open>k\<close> places left in the row: whether the dump is finished, the next byte, the
  iterator and the text.
\<close>

fun dump_row :: "nat \<Rightarrow> u8 option \<Rightarrow> bytes_iter \<Rightarrow> u8 list \<Rightarrow> u8 list \<Rightarrow> bool \<times> u8 option \<times> bytes_iter \<times> u8 list" where
  "dump_row 0 nxt it asc out = (False, nxt, it, out @ replicate 3 32 @ asc @ [10])"
| "dump_row (Suc k) (Some b) it asc out =
     (let (nxt, it) = bytes_next it in dump_row k nxt it (asc @ [dump_asc b]) (out @ dump_hex b))"
| "dump_row (Suc k) None it asc out =
     (True, None, it, out @ replicate (3 * Suc k) 32 @ replicate 3 32 @ asc @ [10])"

partial_function (option) dump_loop :: "nat \<Rightarrow> u8 option \<Rightarrow> bytes_iter \<Rightarrow> u8 list \<Rightarrow> u8 list option" where
  "dump_loop addr nxt it out =
     (case dump_row BYTES_PER_ROW nxt it [] (out @ hex_padded 8 addr @ [104, 58]) of
        (finished, nxt, it, out) \<Rightarrow> if finished then Some out else dump_loop (addr + BYTES_PER_ROW) nxt it out)"

definition hex_dump :: "bytebuf \<Rightarrow> u8 list option" where
  "hex_dump b =
     (case bytes_next (bytes_new b) of
        (None, _) \<Rightarrow> Some []
      | (Some x, it) \<Rightarrow> dump_loop 0 (Some x) it [])"

section \<open>The dump of a list of bytes\<close>

definition hex_row :: "nat \<Rightarrow> u8 list \<Rightarrow> u8 list" where
  "hex_row addr bs = hex_padded 8 addr @ [104, 58] @ concat (map dump_hex bs) @ replicate (3 * (16 - length bs)) 32 @
     replicate 3 32 @ map dump_asc bs @ [10]"

text \<open>Rows of 16 bytes, and the last one shorter: empty if there is nothing left.\<close>

fun hex_rows :: "nat \<Rightarrow> u8 list \<Rightarrow> u8 list" where
  "hex_rows addr bs =
     (if length bs < 16 then hex_row addr bs else hex_row addr (take 16 bs) @ hex_rows (addr + 16) (drop 16 bs))"

declare hex_rows.simps [simp del]

text \<open>What is still to come after a call of \<open>next\<close>.\<close>

definition pending :: "u8 option \<Rightarrow> bytes_iter \<Rightarrow> u8 list" where
  "pending nxt it = (case nxt of None \<Rightarrow> [] | Some x \<Rightarrow> x # bytes_rest it)"

lemma next_pending:
  obtains nxt it' where "bytes_next it = (nxt, it')" "pending nxt it' = bytes_rest it"
proof -
  obtain it' where "bytes_next it = ((case bytes_rest it of [] \<Rightarrow> None | x # _ \<Rightarrow> Some x), it')" "bytes_rest it' = tl (bytes_rest it)"
    using bytes_next_spec by blast
  then show thesis by (cases "bytes_rest it") (auto simp: pending_def intro: that)
qed

lemma dump_row_spec:
  "\<exists>nxt' it'. dump_row k nxt it asc out =
     (if length (pending nxt it) < k
      then (True, None, it', out @ concat (map dump_hex (pending nxt it)) @ replicate (3 * (k - length (pending nxt it))) 32 @
        replicate 3 32 @ asc @ map dump_asc (pending nxt it) @ [10])
      else (False, nxt', it', out @ concat (map dump_hex (take k (pending nxt it))) @ replicate 3 32 @ asc @
        map dump_asc (take k (pending nxt it)) @ [10])) \<and>
    (k \<le> length (pending nxt it) \<longrightarrow> pending nxt' it' = drop k (pending nxt it))"
proof (induction k arbitrary: nxt it asc out)
  case 0
  show ?case by auto
next
  case (Suc k)
  show ?case
  proof (cases nxt)
    case None
    then show ?thesis by (simp add: pending_def)
  next
    case (Some b)
    obtain n' it1 where n: "bytes_next it = (n', it1)" "pending n' it1 = bytes_rest it" by (rule next_pending)
    have p: "pending nxt it = b # pending n' it1" by (simp add: Some pending_def [of "Some b"] n(2))
    have d: "dump_row (Suc k) nxt it asc out = dump_row k n' it1 (asc @ [dump_asc b]) (out @ dump_hex b)"
      by (simp add: Some n(1))
    obtain nxt' it' where ih: "dump_row k n' it1 (asc @ [dump_asc b]) (out @ dump_hex b) =
      (if length (pending n' it1) < k
       then (True, None, it', (out @ dump_hex b) @ concat (map dump_hex (pending n' it1)) @ replicate (3 * (k - length (pending n' it1))) 32 @
         replicate 3 32 @ (asc @ [dump_asc b]) @ map dump_asc (pending n' it1) @ [10])
       else (False, nxt', it', (out @ dump_hex b) @ concat (map dump_hex (take k (pending n' it1))) @ replicate 3 32 @ (asc @ [dump_asc b]) @
         map dump_asc (take k (pending n' it1)) @ [10]))"
      "k \<le> length (pending n' it1) \<longrightarrow> pending nxt' it' = drop k (pending n' it1)"
      using Suc.IH [of n' it1 "asc @ [dump_asc b]" "out @ dump_hex b"] by (elim exE conjE) (rule that)
    show ?thesis
      by (rule exI [of _ nxt'], rule exI [of _ it'])
        (use ih in \<open>cases "length (pending n' it1) < k"; simp add: d p\<close>)
  qed
qed

lemma dump_loop_spec: "dump_loop addr nxt it out = Some (out @ hex_rows addr (pending nxt it))"
proof (induction "length (pending nxt it)" arbitrary: addr nxt it out rule: less_induct)
  case less
  let ?c = "pending nxt it" and ?out = "out @ hex_padded 8 addr @ [104, 58]"
  obtain nxt' it' where r: "dump_row 16 nxt it [] ?out =
     (if length ?c < 16
      then (True, None, it', ?out @ concat (map dump_hex ?c) @ replicate (3 * (16 - length ?c)) 32 @ replicate 3 32 @ [] @ map dump_asc ?c @ [10])
      else (False, nxt', it', ?out @ concat (map dump_hex (take 16 ?c)) @ replicate 3 32 @ [] @ map dump_asc (take 16 ?c) @ [10]))"
    "16 \<le> length ?c \<longrightarrow> pending nxt' it' = drop 16 ?c"
    using dump_row_spec [of 16 nxt it "[]" ?out] by blast
  show ?case
  proof (cases "length ?c < 16")
    case True
    with r(1) show ?thesis
      by (simp add: dump_loop.simps [of addr] BYTES_PER_ROW_def hex_rows.simps [of addr] hex_row_def)
  next
    case False
    then have "length (pending nxt' it') < length ?c" using r(2) by simp
    note ih = less [OF this]
    from False r show ?thesis
      by (simp add: dump_loop.simps [of addr] BYTES_PER_ROW_def hex_rows.simps [of addr ?c] hex_row_def ih)
  qed
qed

text \<open>
  The dump of an empty buffer is empty, and that of any other is its rows of 16 bytes; the loop returns.
  When the length is a multiple of 16 a row without bytes follows.
\<close>

lemma hex_dump_rows: "hex_dump b = Some (if content b = [] then [] else hex_rows 0 (content b))"
proof -
  obtain nxt it where n: "bytes_next (bytes_new b) = (nxt, it)" "pending nxt it = content b"
    by (rule next_pending [of "bytes_new b"]) (simp add: bytes_new_rest)
  then show ?thesis by (cases nxt) (auto simp: hex_dump_def dump_loop_spec pending_def)
qed

lemma hex_rows_full: "length bs = 16 \<Longrightarrow> hex_rows addr bs = hex_row addr bs @ hex_row (addr + 16) []"
  by (simp add: hex_rows.simps [of addr] hex_rows.simps [of "addr + 16"])

end
