(* ===== verification/Buffer_Correct.thy ===== *)
theory Buffer_Correct
  imports Codec_Varint Buf_View Buf_Search Buf_Window Hex_Dump
begin

text \<open>
  The properties of the buffer and its codecs, each with a witness on a concrete buffer. Their
  proofs are the component lemmas and the facts of the codecs' interpretations.
\<close>

section \<open>A concrete buffer\<close>

text \<open>Two blocks, the first one consumed up to its second byte, with room behind the last.\<close>

definition sample_buf :: bytebuf where
  "sample_buf = \<lparr>blocks = [block_set_read_pos 1 (block_from [1, 2, 3] 3), block_from [4, 5] 6],
     idx = 0, growth = 16\<rparr>"

lemma sample_buf_facts:
  "bb_wf sample_buf" "content sample_buf = [2, 3, 4, 5]" "growth sample_buf = 16"
  "idx sample_buf = 0" "length (blocks sample_buf) = 2" "tail_live sample_buf"
  by (simp_all add: sample_buf_def bb_wf_def block_wf_def block_defs mem_init_def content_def
      as_bytes_def mem_bytes_def tail_live_def)

section \<open>The chain of blocks\<close>

lemma cuts:
  assumes "bb_wf b"
  shows "if idx b < length (blocks b) \<and> at \<le> length (content b)
    then (\<exists>other b'. bb_split_off at b = (Ok other, b') \<and> bb_wf other \<and> bb_wf b' \<and>
        content b' = take at (content b) \<and> content other = drop at (content b)) \<and>
      (\<exists>d b'. bb_drain_to at b = (Ok d, b') \<and> bb_wf d \<and> bb_wf b' \<and>
        content d = take at (content b) \<and> content b' = drop at (content b))
    else bb_split_off at b = (Err IndexOutOfBounds, b) \<and> bb_drain_to at b = (Err IndexOutOfBounds, b)"
  using bb_split_off_Ok [OF assms, of at] bb_split_off_Err [OF assms, of at]
    bb_drain_to_Ok [OF assms, of at] bb_drain_to_Err [OF assms, of at] by metis

lemma housekeeping:
  assumes "bb_wf b" and "bb_wf other"
  shows "(\<exists>b'. bb_skip n b = (min n (length (content b)), b') \<and> bb_wf b' \<and> content b' = drop n (content b)) \<and>
    bb_wf (bb_compact b) \<and> content (bb_compact b) = content b \<and>
      (blocks (bb_compact b) = [] \<or> \<not> block_is_empty (hd (blocks (bb_compact b)))) \<and>
    bb_wf (bb_reserve n b) \<and> content (bb_reserve n b) = content b \<and>
    bb_wf (bb_extend other b) \<and> content (bb_extend other b) = content b @ content other \<and>
    (\<exists>b'. bb_try_reserve_in_head n b = (head_room b', b') \<and> bb_wf b' \<and> content b' = content b) \<and>
    bb_len b = length (content b) \<and> (bb_is_empty b \<longleftrightarrow> content b = [])"
proof
  show "\<exists>b'. bb_skip n b = (min n (length (content b)), b') \<and> bb_wf b' \<and> content b' = drop n (content b)"
    using bb_skip_spec [OF assms(1)] by (metis surj_pair)
  show "bb_wf (bb_compact b) \<and> content (bb_compact b) = content b \<and>
      (blocks (bb_compact b) = [] \<or> \<not> block_is_empty (hd (blocks (bb_compact b)))) \<and>
    bb_wf (bb_reserve n b) \<and> content (bb_reserve n b) = content b \<and>
    bb_wf (bb_extend other b) \<and> content (bb_extend other b) = content b @ content other \<and>
    (\<exists>b'. bb_try_reserve_in_head n b = (head_room b', b') \<and> bb_wf b' \<and> content b' = content b) \<and>
    bb_len b = length (content b) \<and> (bb_is_empty b \<longleftrightarrow> content b = [])"
    using bb_compact_spec [OF assms(1)] bb_reserve_wf [OF assms(1)] content_bb_reserve [OF assms(1)]
      bb_extend_wf [OF assms] content_bb_extend [OF assms(1)] bb_len_content [OF assms(1)]
      bb_is_empty_iff [OF assms(1)] bb_try_reserve_in_head_spec [OF assms(1)]
    by (metis surj_pair)
qed

text \<open>
  C2. \<open>split_off(at)\<close> leaves the first \<open>at\<close> bytes and returns the others; \<open>drain_to(at)\<close> returns the first
  and leaves the others; both halves are well formed. A position behind the bytes, or a buffer
  read to its end, is an \<open>IndexOutOfBounds\<close> and nothing changes.
  \<open>skip(n)\<close> drops the first \<open>n\<close> bytes, or all there are, and returns how many. Compacting,
  reserving, extending by another buffer and reserving in the head keep the buffer well formed and its
  bytes what they should be; after compacting the first block, if there is one, holds a byte, and \<open>len\<close>
  and \<open>is_empty\<close> speak of the bytes.
\<close>

theorem structure_correct:
  assumes "bb_wf b" and "bb_wf other"
  shows "(if idx b < length (blocks b) \<and> at \<le> length (content b)
    then (\<exists>other b'. bb_split_off at b = (Ok other, b') \<and> bb_wf other \<and> bb_wf b' \<and>
        content b' = take at (content b) \<and> content other = drop at (content b)) \<and>
      (\<exists>d b'. bb_drain_to at b = (Ok d, b') \<and> bb_wf d \<and> bb_wf b' \<and>
        content d = take at (content b) \<and> content b' = drop at (content b))
    else bb_split_off at b = (Err IndexOutOfBounds, b) \<and> bb_drain_to at b = (Err IndexOutOfBounds, b)) \<and>
    (\<exists>b'. bb_skip n b = (min n (length (content b)), b') \<and> bb_wf b' \<and> content b' = drop n (content b)) \<and>
    bb_wf (bb_compact b) \<and> content (bb_compact b) = content b \<and>
      (blocks (bb_compact b) = [] \<or> \<not> block_is_empty (hd (blocks (bb_compact b)))) \<and>
    bb_wf (bb_reserve n b) \<and> content (bb_reserve n b) = content b \<and>
    bb_wf (bb_extend other b) \<and> content (bb_extend other b) = content b @ content other \<and>
    (\<exists>b'. bb_try_reserve_in_head n b = (head_room b', b') \<and> bb_wf b' \<and> content b' = content b) \<and>
    bb_len b = length (content b) \<and> (bb_is_empty b \<longleftrightarrow> content b = [])"
  by (rule conjI [OF cuts [OF assms(1)] housekeeping [OF assms]])

theorem structure_correct_witness:
  "(\<exists>other b'. bb_split_off 3 sample_buf = (Ok other, b') \<and> bb_wf other \<and> bb_wf b' \<and>
    content b' = [2, 3, 4] \<and> content other = [5]) \<and>
   bb_drain_to 5 sample_buf = (Err IndexOutOfBounds, sample_buf) \<and>
   (\<exists>b'. bb_skip 3 sample_buf = (3, b') \<and> bb_wf b' \<and> content b' = [5]) \<and>
   content (bb_extend sample_buf sample_buf) = [2, 3, 4, 5, 2, 3, 4, 5] \<and> bb_len sample_buf = 4"
  using structure_correct [OF sample_buf_facts(1,1), of 3 3] structure_correct [OF sample_buf_facts(1,1), of 5 3]
  by (simp add: sample_buf_facts numeral_eq_Suc)

section \<open>Writing bytes at the ends\<close>

text \<open>
  C3. Writing bytes at the ends: with a positive growth the write loops return. Appended bytes are
  behind all others, in a buffer whose last block is still to be read (\<open>tail_live\<close>, which every append
  keeps); bytes prepended to a buffer of which no block is consumed (\<open>idx\<close> is 0) are in front of all
  others.
\<close>

theorem writes_correct:
  assumes "bb_wf b" and "0 < growth b"
  shows "(tail_live b \<longrightarrow> (\<exists>b'. bb_append v u8s_append b = Some (Ok (length v), b') \<and> bb_wf b' \<and>
      content b' = content b @ v \<and> growth b' = growth b \<and> tail_live b')) \<and>
    (idx b = 0 \<longrightarrow> (\<exists>b'. bb_prepend v u8s_prepend b = Some (Ok (length v), b') \<and> bb_wf b' \<and>
      content b' = v @ content b \<and> growth b' = growth b \<and> idx b' = 0))"
  using copy_append_spec [OF assms, of v] copy_prepend_spec [OF assms, of v]
  by (auto simp: bb_append_def u8s_append_def bb_prepend_def u8s_prepend_def)

theorem writes_correct_witness:
  "(\<exists>b'. bb_append (replicate 20 7) u8s_append sample_buf = Some (Ok 20, b') \<and> bb_wf b' \<and>
    content b' = [2, 3, 4, 5] @ replicate 20 7) \<and>
   (\<exists>b'. bb_prepend (replicate 20 7) u8s_prepend sample_buf = Some (Ok 20, b') \<and> bb_wf b' \<and>
    content b' = replicate 20 7 @ [2, 3, 4, 5])"
  using writes_correct [OF sample_buf_facts(1), of "replicate 20 7"] by (auto simp: sample_buf_facts)

lemma zero_growth_diverges:
  "(tail_room b < length v \<longrightarrow> bb_append v u8s_append (bb_set_growth 0 b) = None) \<and>
   (head_room b < length v \<longrightarrow> bb_prepend v u8s_prepend (bb_set_growth 0 b) = None)"
proof -
  have "tail_room (bb_set_growth 0 b) = tail_room b" "head_room (bb_set_growth 0 b) = head_room b"
    "growth (bb_set_growth 0 b) = 0"
    by (simp_all add: bb_set_growth_def tail_room_def head_room_def)
  then show ?thesis
    using copy_append_diverges [of "bb_set_growth 0 b" v] copy_prepend_diverges [of "bb_set_growth 0 b" v]
    by (simp add: bb_append_def bb_prepend_def u8s_append_def u8s_prepend_def)
qed

lemma vector_writes_correct:
  assumes "bb_wf b" and "0 < growth b" and "length v \<le> vcap"
  shows "(tail_live b \<longrightarrow> (\<exists>b'. bb_append (v, vcap) u8s_append_bytes b = Some (Ok (length v), b') \<and>
      bb_wf b' \<and> content b' = content b @ v)) \<and>
    (idx b = 0 \<longrightarrow> (\<exists>b'. bb_prepend (v, vcap) u8s_prepend_bytes b = Some (Ok (length v), b') \<and>
      bb_wf b' \<and> content b' = v @ content b))"
  using u8s_append_bytes_spec [OF assms(1,2) _ assms(3)] u8s_prepend_bytes_spec [OF assms(1,2) _ assms(3)]
  by blast

lemma writes_lost:
  assumes "blocks b \<noteq> []"
  shows "(idx b = length (blocks b) \<and> length v \<le> tail_room b \<longrightarrow>
      (\<exists>b'. bb_append v u8s_append b = Some (Ok (length v), b') \<and> content b' = [])) \<and>
    (0 < idx b \<and> length v \<le> head_room b \<longrightarrow>
      (\<exists>b'. bb_prepend v u8s_prepend b = Some (Ok (length v), b') \<and> content b' = content b))"
proof -
  obtain x xs where x: "blocks b = x # xs" using assms by (cases "blocks b") simp_all
  show ?thesis
    using copy_append.simps [of v b] copy_prepend.simps [of v b] x
    by (auto simp: tail_room_def head_room_def bb_append_def u8s_append_def bb_prepend_def
        u8s_prepend_def content_def Let_def drop_Cons')
qed

text \<open>A buffer of one byte and with room for seven more, from which four were read.\<close>

definition overread_buf :: bytebuf where
  "overread_buf = snd (bb_read_exact 4 u8s_read_exact
     \<lparr>blocks = [\<lparr>mem = Some 9 # replicate 7 None, cap = 8, read_pos = 0, write_pos = 1\<rparr>],
      idx = 0, growth = 8\<rparr>)"

lemma overread_buf_eq: "overread_buf =
  \<lparr>blocks = [\<lparr>mem = Some 9 # replicate 7 None, cap = 8, read_pos = 1, write_pos = 1\<rparr>], idx = 1, growth = 8\<rparr>"
  by (simp add: overread_buf_def bb_read_exact_def u8s_read_exact_def copy_read.simps read_next.simps
      block_defs)

text \<open>
  C10. Writes that fail. \<open>set_growth(0)\<close> is accepted, and then a write that does not fit into the last
  or the first block never returns: the loops add blocks of capacity 0. After a read past the end has
  moved \<open>idx\<close> behind the last block, bytes appended to that block are reported as written and never seen;
  bytes prepended while \<open>idx\<close> is not 0 go into a block that is already consumed, and are never seen either.
\<close>

theorem write_faults:
  assumes "blocks b \<noteq> []"
  shows "(tail_room b < length v \<longrightarrow> bb_append v u8s_append (bb_set_growth 0 b) = None) \<and>
    (head_room b < length v \<longrightarrow> bb_prepend v u8s_prepend (bb_set_growth 0 b) = None) \<and>
    (idx b = length (blocks b) \<and> length v \<le> tail_room b \<longrightarrow>
      (\<exists>b'. bb_append v u8s_append b = Some (Ok (length v), b') \<and> content b' = [])) \<and>
    (0 < idx b \<and> length v \<le> head_room b \<longrightarrow>
      (\<exists>b'. bb_prepend v u8s_prepend b = Some (Ok (length v), b') \<and> content b' = content b))"
  using zero_growth_diverges [of b v] writes_lost [OF assms, of v] by blast

theorem write_faults_witness:
  "(\<exists>b'. bb_append [1, 2] u8s_append overread_buf = Some (Ok 2, b') \<and> content b' = []) \<and>
   bb_prepend [1, 2] u8s_prepend (bb_set_growth 0 overread_buf) = None"
  using write_faults [of overread_buf "[1, 2]"]
  by (simp add: overread_buf_eq tail_room_def head_room_def appendable_def block_defs numeral_2_eq_2)

section \<open>Values in the buffer\<close>

lemma u32_queue:
  assumes "bb_wf b" and "0 < growth b" and "tail_live b" and "content b = concat (map be_bytes q)"
    and "run_queue cmds q = Some (vs, q')"
  shows "\<exists>b'. run (u32_big_endian little) cmds b = Some (vs, b') \<and> bb_wf b' \<and>
    content b' = concat (map be_bytes q')"
proof -
  have "\<forall>x\<in>set cmds. cmd_valid (\<lambda>_. True) x"
    by (metis cmd_valid.simps command.exhaust)
  then show ?thesis
    using u32_be_laws.run_refines_queue [OF assms(1-4) _ _ assms(5)] by simp
qed

lemma fresh_buf_facts: "bb_wf bytebuf_new" "0 < growth bytebuf_new" "tail_live bytebuf_new"
  "content bytebuf_new = []" "idx bytebuf_new = 0"
  by (simp_all add: bytebuf_new_def bytebuf_with_growth_wf bytebuf_with_growth_pos
      content_bytebuf_with_growth) (simp_all add: bytebuf_with_growth_def tail_live_def Let_def)

lemma i64_varint_queue:
  assumes "bb_wf b" and "0 < growth b" and "tail_live b"
    and "content b = concat (map (\<lambda>v. varint_bytes (word_of_int v :: u64)) q)"
    and "\<forall>v\<in>set q. - (2 ^ 63) \<le> v \<and> v < 2 ^ 63"
    and "\<forall>v. Append v \<in> set cmds \<longrightarrow> - (2 ^ 63) \<le> v \<and> v < 2 ^ 63"
    and "run_queue cmds q = Some (vs, q')"
  shows "\<exists>b'. run i64_varint cmds b = Some (vs, b') \<and> bb_wf b' \<and>
    content b' = concat (map (\<lambda>v. varint_bytes (word_of_int v :: u64)) q')"
proof -
  have "cmd_valid (in_signed_range 64) x" if "x \<in> set cmds" for x
  proof (cases x)
    case (Append v)
    with that assms(6) show ?thesis by (simp add: in_signed_range_def)
  qed simp
  then show ?thesis
    using i64_varint_laws.run_refines_queue [OF assms(1-4) _ _ assms(7)] assms(5)
    by (simp add: in_signed_range_def)
qed

text \<open>
  C1. A buffer with big-endian \<open>u32\<close> values in it is a first-in first-out queue: whatever
  sequence of appends and reads a queue of values allows, the buffer runs it without an error,
  yields the same values and holds the encodings of the values the queue is left with. So is a buffer with
  variable-length \<open>i64\<close> values, for every value in the range of an \<open>i64\<close>, though the encodings differ in
  length and may be cut by the ends of blocks.
\<close>

theorem values_queue:
  assumes "bb_wf b" and "0 < growth b" and "tail_live b"
  shows "(content b = concat (map be_bytes q) \<and> run_queue cmds q = Some (vs, q') \<longrightarrow>
      (\<exists>b'. run (u32_big_endian little) cmds b = Some (vs, b') \<and> bb_wf b' \<and> content b' = concat (map be_bytes q'))) \<and>
    (content b = concat (map (\<lambda>v. varint_bytes (word_of_int v :: u64)) p) \<and> (\<forall>v\<in>set p. - (2 ^ 63) \<le> v \<and> v < 2 ^ 63) \<and>
      (\<forall>v. Append v \<in> set icmds \<longrightarrow> - (2 ^ 63) \<le> v \<and> v < 2 ^ 63) \<and> run_queue icmds p = Some (ws, p') \<longrightarrow>
      (\<exists>b'. run i64_varint icmds b = Some (ws, b') \<and> bb_wf b' \<and>
        content b' = concat (map (\<lambda>v. varint_bytes (word_of_int v :: u64)) p')))"
  using u32_queue [OF assms] i64_varint_queue [OF assms] by blast

theorem values_queue_witness:
  "(\<exists>b'. run (u32_big_endian True) [Append 7, Append 258, Read, Append 9, Read] bytebuf_new =
     Some ([7, 258], b') \<and> bb_wf b' \<and> content b' = be_bytes (9 :: u32)) \<and>
   (\<exists>b'. run i64_varint [Append (-1), Append 300, Read] bytebuf_new = Some ([-1], b') \<and> bb_wf b' \<and>
    content b' = varint_bytes (300 :: u64))"
  using values_queue [OF fresh_buf_facts(1-3), of "[]" "[Append 7, Append 258, Read, Append 9, Read]" "[7, 258]" "[9]" True
      "[]" "[Append (-1), Append 300, Read]" "[-1]" "[300]"] by (simp add: fresh_buf_facts)

text \<open>
  C4. A variable-length \<open>u64\<close> takes one to ten bytes; a list of values, appended or prepended in
  reverse order, is stored as the same bytes either way, and read back as it was.
\<close>

theorem u64_varint_roundtrip:
  assumes "bb_wf b" and "0 < growth b" and "tail_live b" and "idx b = 0" and "content b = []"
  shows "(\<forall>v. varint_bytes (v :: u64) \<noteq> [] \<and> length (varint_bytes v) \<le> 10) \<and>
    (\<exists>b1 b2. append_all u64_varint vs b = Some b1 \<and> prepend_all u64_varint (rev vs) b = Some b2 \<and>
      content b1 = concat (map varint_bytes vs) \<and> content b2 = content b1 \<and>
      (\<exists>b3. read_all u64_varint (length vs) b1 = (Some vs, b3) \<and> content b3 = []) \<and>
      (\<exists>b3. read_all u64_varint (length vs) b2 = (Some vs, b3) \<and> content b3 = []))"
proof -
  obtain b1 where b1: "append_all u64_varint vs b = Some b1" "bb_wf b1"
    "content b1 = concat (map varint_bytes vs)"
    using u64_varint_laws.append_all_content [OF assms(1-3)] assms(5) by fastforce
  obtain b2 where b2: "prepend_all u64_varint (rev vs) b = Some b2" "bb_wf b2"
    "content b2 = concat (map varint_bytes vs)"
    using u64_varint_laws.prepend_all_content [OF assms(1,2,4), of "rev vs"] assms(5) by fastforce
  have rd: "\<exists>b'. read_all u64_varint (length vs) c = (Some vs, b') \<and> content b' = []"
    if "bb_wf c" "content c = concat (map varint_bytes vs)" for c
    using u64_varint_laws.read_all_content [OF that(1), of vs "[]"] that(2) by auto
  have "varint_bytes v \<noteq> [] \<and> length (varint_bytes v) \<le> 10" for v :: u64
    using length_varint_bytes [of v] varint_bytes_nonempty [of v] by simp
  with b1 b2 rd [OF b1(2,3)] rd [OF b2(2,3)] show ?thesis by auto
qed

theorem u64_varint_roundtrip_witness:
  "\<exists>b1 b3. append_all u64_varint [300, 0, -1] bytebuf_new = Some b1 \<and>
    read_all u64_varint 3 b1 = (Some [300, 0, -1], b3) \<and> content b3 = []"
  using u64_varint_roundtrip [OF fresh_buf_facts(1-3,5,4), of "[300, 0, -1]"]
  by (auto simp: numeral_3_eq_3)

text \<open>What a fixed-width codec writes does not depend on the byte order of the host.\<close>

lemma byte_order_independent:
  assumes "bb_wf b" and "0 < growth b" and "tail_live b"
  shows "\<exists>b1 b2. bb_append v (codec_append (u16_big_endian host)) b = Some (Ok 2, b1) \<and>
      content b1 = content b @ [ucast (drop_bit 8 v), ucast v] \<and>
      bb_append v (codec_append (u16_little_endian host)) b = Some (Ok 2, b2) \<and>
      content b2 = content b @ [ucast v, ucast (drop_bit 8 v)]"
proof -
  have le: "le_bytes v = [ucast v, ucast (drop_bit 8 v)]"
    by (simp add: le_bytes_def word_bytes_def numeral_2_eq_2)
  then have "be_bytes v = [ucast (drop_bit 8 v), ucast v]" by (simp add: be_bytes_def)
  with le u16_be_laws.append_law [OF assms, of v host] u16_le_laws.append_law [OF assms, of v host]
  show ?thesis by fastforce
qed

lemma f64_set_correct:
  assumes "bb_wf b" and "content b \<noteq> []"
  shows "if length (content b) < i then bb_set i v (codec_set (f64_little_endian host)) b = (Panic, b)
    else if length (content b) < i + 8 then
      \<exists>b'. bb_set i v (codec_set (f64_little_endian host)) b = (Err IndexOutOfBounds, b') \<and>
        content b' = take i (content b) @ take (length (content b) - i) (le_bytes v)
    else \<exists>b'. bb_set i v (codec_set (f64_little_endian host)) b = (Ok 8, b') \<and> bb_wf b' \<and>
      content b' = take i (content b) @ le_bytes v @ drop (i + 8) (content b) \<and>
      bb_get i (codec_get (f64_little_endian host)) b' = Ok v"
proof (cases "length (content b) < i")
  case False
  have live: "idx b < length (blocks b)" using assms(2) by (rule f64_le_laws.content_live)
  obtain b' where b': "bb_set i v (codec_set (f64_little_endian host)) b =
      (if i + 8 \<le> length (content b) then Ok 8 else Err IndexOutOfBounds, b')"
    "bb_wf b'" "content b' = overlay i (le_bytes v) (content b)"
    using f64_le_laws.bb_set_spec [OF assms(1) live, of i v host] False
    by (metis f64_le_laws.size_enc not_less)
  have len: "length (le_bytes v) = 8" by (rule f64_le_laws.size_enc)
  show ?thesis
  proof (cases "length (content b) < i + 8")
    case True
    with b' False len show ?thesis by (simp add: overlay_def)
  next
    case fits: False
    with b' len have "drop i (content b') = le_bytes v @ drop (i + 8) (content b)"
      by (simp add: overlay_fits)
    from f64_le_laws.get_law [OF b'(2) TrueI this] b' fits len show ?thesis
      by (simp add: overlay_fits)
  qed
qed (simp add: bb_set_Panic [OF assms(1)])

lemma bytes_read_correct:
  assumes "bb_wf b" and "content b \<noteq> []"
  shows "(\<exists>b'. bb_read_exact n u8s_read_exact b =
        (if n \<le> length (content b) then Ok (take n (content b)) else Err Underflow, b') \<and>
      bb_wf b' \<and> content b' = drop n (content b)) \<and>
    bb_get_exact i n u8s_get_exact b =
      (if length (content b) < i then Panic
       else if i + n \<le> length (content b) then Ok (take n (drop i (content b)))
       else Err IndexOutOfBounds)"
proof
  obtain r b' where r: "u8s_read_exact b n = (r, b')" by fastforce
  with u8s_read_exact_spec [OF assms(1) r]
  show "\<exists>b'. bb_read_exact n u8s_read_exact b =
        (if n \<le> length (content b) then Ok (take n (content b)) else Err Underflow, b') \<and>
      bb_wf b' \<and> content b' = drop n (content b)"
    by (simp add: bb_read_exact_def)
  have live: "idx b < length (blocks b)" using assms(2) by (rule u8_laws.content_live)
  show "bb_get_exact i n u8s_get_exact b =
      (if length (content b) < i then Panic
       else if i + n \<le> length (content b) then Ok (take n (drop i (content b)))
       else Err IndexOutOfBounds)"
    using bb_get_Panic(2) [OF assms(1), where h = u8s_get_exact] u8s_get_exact_spec [OF assms(1) _ live] by simp
qed

text \<open>
  C7. Setting a value at a position where it fits overwrites exactly its bytes, and getting it
  there yields it; past the end of the buffer a set panics, and one that does not fit writes
  what fits before it reports the error. Reading exactly \<open>n\<close> bytes takes the first \<open>n\<close>; if there are
  fewer the error is \<open>Underflow\<close>, and all the bytes are gone. Getting bytes looks at them only, with
  \<open>IndexOutOfBounds\<close> if there are fewer and a panic past the end.
\<close>

theorem access_correct:
  assumes "bb_wf b" and "content b \<noteq> []"
  shows "(if length (content b) < i then bb_set i v (codec_set (f64_little_endian host)) b = (Panic, b)
    else if length (content b) < i + 8 then
      \<exists>b'. bb_set i v (codec_set (f64_little_endian host)) b = (Err IndexOutOfBounds, b') \<and>
        content b' = take i (content b) @ take (length (content b) - i) (le_bytes v)
    else \<exists>b'. bb_set i v (codec_set (f64_little_endian host)) b = (Ok 8, b') \<and> bb_wf b' \<and>
      content b' = take i (content b) @ le_bytes v @ drop (i + 8) (content b) \<and>
      bb_get i (codec_get (f64_little_endian host)) b' = Ok v) \<and>
    (\<exists>b'. bb_read_exact n u8s_read_exact b =
        (if n \<le> length (content b) then Ok (take n (content b)) else Err Underflow, b') \<and>
      bb_wf b' \<and> content b' = drop n (content b)) \<and>
    bb_get_exact i n u8s_get_exact b =
      (if length (content b) < i then Panic
       else if i + n \<le> length (content b) then Ok (take n (drop i (content b)))
       else Err IndexOutOfBounds)"
  by (intro conjI f64_set_correct [OF assms] conjunct1 [OF bytes_read_correct [OF assms]] conjunct2 [OF bytes_read_correct [OF assms]])

theorem access_correct_witness:
  "bb_set 5 1 (codec_set (f64_little_endian True)) sample_buf = (Panic, sample_buf) \<and>
   (\<exists>b'. bb_set 2 1 (codec_set (f64_little_endian True)) sample_buf = (Err IndexOutOfBounds, b') \<and>
     content b' = [2, 3, 1, 0]) \<and>
   bb_get_exact 2 2 u8s_get_exact sample_buf = Ok [4, 5] \<and> bb_get_exact 5 2 u8s_get_exact sample_buf = Panic"
proof -
  have "take 2 (le_bytes (1 :: 64 word)) = [1, 0]"
    by (simp add: le_bytes_def word_bytes_def upt_rec [of 0] upt_rec [of "Suc 0"] numeral_2_eq_2)
  with access_correct [OF sample_buf_facts(1), of 5 1 True 2] access_correct [OF sample_buf_facts(1), of 2 1 True 2]
  show ?thesis by (simp add: sample_buf_facts numeral_2_eq_2)
qed

text \<open>
  C8. \<open>append_bytes\<close> and \<open>prepend_bytes\<close> take a whole vector. A long one becomes a block of its
  own, between the bytes of the last (or first) block and the room that block has left; a short
  one is copied. Either way its bytes end up at that end of the buffer. A filling stands for that many
  copies of its byte: setting, appending or prepending it does exactly what writing the copies does,
  whether or not the write loops return.
\<close>

theorem bulk_writes_correct:
  assumes "bb_wf b" and "0 < growth b" and "length v \<le> vcap"
  shows "(tail_live b \<longrightarrow> (\<exists>b'. bb_append (v, vcap) u8s_append_bytes b = Some (Ok (length v), b') \<and>
      bb_wf b' \<and> content b' = content b @ v)) \<and>
    (idx b = 0 \<longrightarrow> (\<exists>b'. bb_prepend (v, vcap) u8s_prepend_bytes b = Some (Ok (length v), b') \<and>
      bb_wf b' \<and> content b' = v @ content b)) \<and>
    bb_append (mk_filling x n) u8s_append_fill b0 = bb_append (replicate n x) u8s_append b0 \<and>
    bb_prepend (mk_filling x n) u8s_prepend_fill b0 = bb_prepend (replicate n x) u8s_prepend b0 \<and>
    bb_set i (mk_filling x n) u8s_set_fill b0 = bb_set i (replicate n x) u8s_set b0"
proof -
  note w = vector_writes_correct [OF assms]
  have "bb_append (mk_filling x n) u8s_append_fill b0 = bb_append (replicate n x) u8s_append b0"
    "bb_prepend (mk_filling x n) u8s_prepend_fill b0 = bb_prepend (replicate n x) u8s_prepend b0"
    "bb_set i (mk_filling x n) u8s_set_fill b0 = bb_set i (replicate n x) u8s_set b0"
    by (simp_all only: bb_append_def bb_prepend_def bb_set_def fillings_eq)
  then show ?thesis by (intro conjI conjunct1 [OF w] conjunct2 [OF w])
qed

theorem bulk_writes_correct_witness:
  "(\<exists>b'. bb_append (replicate 7000 1, 8000) u8s_append_bytes sample_buf = Some (Ok 7000, b') \<and>
     bb_wf b' \<and> content b' = [2, 3, 4, 5] @ replicate 7000 1) \<and>
   (\<exists>b'. bb_prepend (replicate 7000 1, 8000) u8s_prepend_bytes sample_buf = Some (Ok 7000, b') \<and>
     bb_wf b' \<and> content b' = replicate 7000 1 @ [2, 3, 4, 5])"
  using bulk_writes_correct [OF sample_buf_facts(1), of "replicate 7000 1" 8000] sample_buf_facts
  by simp

section \<open>Searching and comparing\<close>

lemma find_correct:
  assumes "bb_wf b" and "idx b < length (blocks b)"
  shows "(case bb_find_from needle pos b of
      Some p \<Rightarrow> pos \<le> p \<and> p \<le> length (content b) \<and> take (length needle) (drop p (content b)) = needle \<and>
        (\<forall>q. pos \<le> q \<and> q < p \<longrightarrow> take (length needle) (drop q (content b)) \<noteq> needle)
    | None \<Rightarrow> \<forall>q. pos \<le> q \<and> q \<le> length (content b) \<longrightarrow> take (length needle) (drop q (content b)) \<noteq> needle) \<and>
    (bb_starts_with needle b \<longleftrightarrow> prefix needle (content b)) \<and>
    (bb_ends_with needle b \<longleftrightarrow> suffix needle (content b))"
proof -
  have "occurs_at needle (content b) 0 \<longleftrightarrow> prefix needle (content b)"
    by (metis append_eq_conv_conj append_take_drop_id drop0 occurs_at_def prefix_def)
  moreover have "p < length (content b) + 1 \<longleftrightarrow> p \<le> length (content b)" for p by auto
  ultimately show ?thesis
    using find_upt_cases [where P = "occurs_at needle (content b)" and a = pos and n = "length (content b) + 1"]
    unfolding bb_find_from_spec [OF assms] bb_starts_with_iff [OF assms(1)]
      bb_ends_with_iff [OF assms(1)] by (simp only: occurs_at_def simp_thms)
qed

lemma rfind_correct:
  assumes "bb_wf b" and "idx b < length (blocks b)" and "rpos + length needle \<le> usize_max"
  shows "\<exists>r. bb_rfind_from needle rpos b = Ok r \<and>
    (case r of
       Some p \<Rightarrow> p \<le> rpos \<and> p \<le> length (content b) \<and> take (length needle) (drop p (content b)) = needle \<and>
         (\<forall>q. p < q \<and> q \<le> rpos \<and> q \<le> length (content b) \<longrightarrow>
           take (length needle) (drop q (content b)) \<noteq> needle)
     | None \<Rightarrow> \<forall>q. q \<le> rpos \<and> q \<le> length (content b) \<longrightarrow> take (length needle) (drop q (content b)) \<noteq> needle)"
proof -
  have "p < min rpos (length (content b)) + 1 \<longleftrightarrow> p \<le> rpos \<and> p \<le> length (content b)" for p by auto
  with find_rev_upt_cases [where P = "occurs_at needle (content b)" and a = 0 and
    n = "min rpos (length (content b)) + 1"]
  show ?thesis
    unfolding bb_rfind_from_spec [OF assms] by (simp only: occurs_at_def simp_thms outcome.inject ex_simps le0
        conj_assoc)
qed

lemma search:
  assumes "bb_wf b" and "idx b < length (blocks b)" and "rpos + length needle \<le> usize_max"
  shows "(case bb_find_from needle pos b of
      Some p \<Rightarrow> pos \<le> p \<and> p \<le> length (content b) \<and> take (length needle) (drop p (content b)) = needle \<and>
        (\<forall>q. pos \<le> q \<and> q < p \<longrightarrow> take (length needle) (drop q (content b)) \<noteq> needle)
    | None \<Rightarrow> \<forall>q. pos \<le> q \<and> q \<le> length (content b) \<longrightarrow> take (length needle) (drop q (content b)) \<noteq> needle) \<and>
    (\<exists>r. bb_rfind_from needle rpos b = Ok r \<and>
      (case r of
         Some p \<Rightarrow> p \<le> rpos \<and> p \<le> length (content b) \<and> take (length needle) (drop p (content b)) = needle \<and>
           (\<forall>q. p < q \<and> q \<le> rpos \<and> q \<le> length (content b) \<longrightarrow>
             take (length needle) (drop q (content b)) \<noteq> needle)
       | None \<Rightarrow> \<forall>q. q \<le> rpos \<and> q \<le> length (content b) \<longrightarrow> take (length needle) (drop q (content b)) \<noteq> needle)) \<and>
    (bb_starts_with needle b \<longleftrightarrow> prefix needle (content b)) \<and>
    (bb_ends_with needle b \<longleftrightarrow> suffix needle (content b))"
proof -
  note f = find_correct [OF assms(1,2), where needle = needle and pos = pos]
  show ?thesis by (intro conjI conjunct1 [OF f] conjunct1 [OF conjunct2 [OF f]] conjunct2 [OF conjunct2 [OF f]] rfind_correct [OF assms])
qed

lemma compare:
  assumes "bb_wf b" and "bb_wf other"
  shows "(bb_cmp b other = Equal \<longleftrightarrow> content b = content other) \<and>
    (bb_cmp b other = Less \<longleftrightarrow> (content b, content other) \<in> lexord {(x, y). x < y}) \<and>
    (bb_cmp b other = Greater \<longleftrightarrow> (content other, content b) \<in> lexord {(x, y). x < y}) \<and>
    (bb_eq b other \<longleftrightarrow> content b = content other)"
proof -
  have "slice_cmp xs ys = Less \<longleftrightarrow> (xs, ys) \<in> lexord {(x, y). x < y}"
    "slice_cmp xs ys = Greater \<longleftrightarrow> (ys, xs) \<in> lexord {(x, y). x < y}" for xs ys
    by (induction xs ys rule: slice_cmp.induct) auto
  then show ?thesis
    by (simp add: bb_cmp_spec [OF assms] bb_eq_def slice_cmp_Equal)
qed

text \<open>
  C5. Buffers are ordered as their bytes are, lexicographically, and equal exactly if their bytes
  are, however these are cut into blocks. \<open>find_from\<close> returns the least position, from \<open>pos\<close> on, where
  the needle occurs in the bytes, wherever the ends of the blocks cut it; \<open>rfind_from\<close> the greatest, up to
  \<open>rpos\<close>, and it does not panic while a block is left to read and \<open>rpos\<close> plus the needle's length is a
  \<open>usize\<close>. \<open>starts_with\<close> and \<open>ends_with\<close> agree with the bytes.
\<close>

theorem search_correct:
  assumes "bb_wf b" and "bb_wf other"
  shows "((bb_cmp b other = Equal \<longleftrightarrow> content b = content other) \<and>
    (bb_cmp b other = Less \<longleftrightarrow> (content b, content other) \<in> lexord {(x, y). x < y}) \<and>
    (bb_cmp b other = Greater \<longleftrightarrow> (content other, content b) \<in> lexord {(x, y). x < y}) \<and>
    (bb_eq b other \<longleftrightarrow> content b = content other)) \<and>
   (idx b < length (blocks b) \<and> rpos + length needle \<le> usize_max \<longrightarrow>
    (case bb_find_from needle pos b of
      Some p \<Rightarrow> pos \<le> p \<and> p \<le> length (content b) \<and> take (length needle) (drop p (content b)) = needle \<and>
        (\<forall>q. pos \<le> q \<and> q < p \<longrightarrow> take (length needle) (drop q (content b)) \<noteq> needle)
    | None \<Rightarrow> \<forall>q. pos \<le> q \<and> q \<le> length (content b) \<longrightarrow> take (length needle) (drop q (content b)) \<noteq> needle) \<and>
    (\<exists>r. bb_rfind_from needle rpos b = Ok r \<and>
      (case r of
         Some p \<Rightarrow> p \<le> rpos \<and> p \<le> length (content b) \<and> take (length needle) (drop p (content b)) = needle \<and>
           (\<forall>q. p < q \<and> q \<le> rpos \<and> q \<le> length (content b) \<longrightarrow>
             take (length needle) (drop q (content b)) \<noteq> needle)
       | None \<Rightarrow> \<forall>q. q \<le> rpos \<and> q \<le> length (content b) \<longrightarrow> take (length needle) (drop q (content b)) \<noteq> needle)) \<and>
    (bb_starts_with needle b \<longleftrightarrow> prefix needle (content b)) \<and>
    (bb_ends_with needle b \<longleftrightarrow> suffix needle (content b)))"
proof (intro conjI [OF compare [OF assms]] impI)
  assume "idx b < length (blocks b) \<and> rpos + length needle \<le> usize_max"
  then show "(case bb_find_from needle pos b of
      Some p \<Rightarrow> pos \<le> p \<and> p \<le> length (content b) \<and> take (length needle) (drop p (content b)) = needle \<and>
        (\<forall>q. pos \<le> q \<and> q < p \<longrightarrow> take (length needle) (drop q (content b)) \<noteq> needle)
    | None \<Rightarrow> \<forall>q. pos \<le> q \<and> q \<le> length (content b) \<longrightarrow> take (length needle) (drop q (content b)) \<noteq> needle) \<and>
    (\<exists>r. bb_rfind_from needle rpos b = Ok r \<and>
      (case r of
         Some p \<Rightarrow> p \<le> rpos \<and> p \<le> length (content b) \<and> take (length needle) (drop p (content b)) = needle \<and>
           (\<forall>q. p < q \<and> q \<le> rpos \<and> q \<le> length (content b) \<longrightarrow>
             take (length needle) (drop q (content b)) \<noteq> needle)
       | None \<Rightarrow> \<forall>q. q \<le> rpos \<and> q \<le> length (content b) \<longrightarrow> take (length needle) (drop q (content b)) \<noteq> needle)) \<and>
    (bb_starts_with needle b \<longleftrightarrow> prefix needle (content b)) \<and>
    (bb_ends_with needle b \<longleftrightarrow> suffix needle (content b))"
    by (intro search assms(1)) simp_all
qed

theorem search_correct_witness:
  "bb_find_from [3, 4] 1 sample_buf = Some 1 \<and>
   bb_eq sample_buf (bytebuf_from [2, 3, 4, 5] 4) \<and> bb_cmp sample_buf (bytebuf_from [2, 4] 4) = Less"
proof -
  have live: "idx sample_buf < length (blocks sample_buf) \<and> 1 + length [3 :: u8, 4] \<le> usize_max"
    by (simp add: sample_buf_facts usize_max_def)
  note c = search_correct [OF sample_buf_facts(1) bytebuf_from_wf, unfolded sample_buf_facts]
  note * = conjunct1 [OF mp [OF conjunct2 [OF search_correct [OF sample_buf_facts(1,1)]] live], unfolded sample_buf_facts]
  have "bb_find_from [3, 4] 1 sample_buf \<noteq> None"
    using * [of 1] by (auto dest!: spec [of _ 1] split: option.splits)
  moreover have "p = 1" if "bb_find_from [3, 4] 1 sample_buf = Some p" for p
    using * [of 1] that by (cases "p = 1") (auto dest: spec [of _ 1])
  ultimately show ?thesis
    using c [of "[2, 3, 4, 5]" 4] c [of "[2, 4]" 4] by (auto simp: content_bytebuf_from)
qed

lemma rfind_panics:
  assumes "needle \<noteq> []"
  shows "bb_rfind needle b = Panic \<and>
    (bb_wf b \<and> idx b = length (blocks b) \<and> blocks b \<noteq> [] \<and> rpos + length needle \<le> usize_max \<longrightarrow>
      bb_rfind_from needle rpos b = Panic)"
  using bb_rfind_overflow [OF assms, of b] bb_rfind_consumed [of b needle rpos] assms by blast

section \<open>Views\<close>

text \<open>Calling \<open>next\<close> of \<open>Bytes\<close> so many times.\<close>

fun bytes_run :: "nat \<Rightarrow> bytes_iter \<Rightarrow> u8 option list" where
  "bytes_run 0 it = []"
| "bytes_run (Suc n) it = (case bytes_next it of (r, it') \<Rightarrow> r # bytes_run n it')"

lemma bytes_run_rest:
  "bytes_run n it = map Some (take n (bytes_rest it)) @ replicate (n - length (bytes_rest it)) None"
proof (induction n arbitrary: it)
  case (Suc n)
  obtain it' where "bytes_next it = ((case bytes_rest it of [] \<Rightarrow> None | x # _ \<Rightarrow> Some x), it')"
    "bytes_rest it' = tl (bytes_rest it)"
    using bytes_next_spec by blast
  with Suc.IH [of it'] show ?case by (cases "bytes_rest it") simp_all
qed simp

lemma bytes_views:
  assumes "bb_wf b"
  shows "(\<exists>c. bb_as_bytes b = Ok c \<and> cow_bytes c = content b) \<and>
    bb_try_as_bytes b = (if live_blocks b \<le> 1 then Some (content b) else None) \<and>
    bytes_run n (bytes_new b) = map Some (take n (content b)) @ replicate (n - length (content b)) None \<and>
    (\<exists>b'. reader_read n [] b = (take n (content b), b') \<and> bb_wf b' \<and> content b' = drop n (content b)) \<and>
    (0 < growth b \<and> tail_live b \<longrightarrow>
      (\<exists>b'. writer_write bs b = Some (length bs, b') \<and> bb_wf b' \<and> content b' = content b @ bs))"
proof -
  obtain r b' where "reader_read n [] b = (r, b')" by fastforce
  with reader_read_spec [OF assms this] copy_append_spec [OF assms, of bs]
    bb_as_bytes_spec [OF assms] bb_try_as_bytes_spec [OF assms] show ?thesis
    by (auto simp: writer_write_def bytes_run_rest bytes_new_rest)
qed

text \<open>
  C6. The windows of a positive size: however calls of \<open>next\<close> and \<open>next_back\<close> are mixed, the
  iterator yields what a deque of all windows would, never panics, and the bytes of each window
  are those at its place.
\<close>

theorem windows_correct:
  assumes "bb_wf b" and "0 < n"
  shows "map (map_outcome (map_option win_to_bytes)) (windows_run fs (windows_new b n)) =
    map Ok (deque_run fs (map (\<lambda>i. take n (drop i (content b))) [0 ..< length (content b) + 1 - n]))"
  using windows_run_spec [OF windows_new_inv [OF assms], of fs]
  by (simp add: all_windows_def windows_new_def Let_def)

theorem windows_correct_witness:
  "map (map_outcome (map_option win_to_bytes)) (windows_run [True, False, False, True] (windows_new sample_buf 2)) =
    map Ok [Some [2, 3], Some [4, 5], Some [3, 4], None]"
  using windows_correct [OF sample_buf_facts(1), of 2 "[True, False, False, True]"]
  by (simp add: sample_buf_facts upt_rec [of 0 3] upt_rec [of "Suc 0" 3]
      del: windows_run.simps)

text \<open>
  C9. The ways to look at the bytes agree. As one slice: \<open>as_bytes\<close> never panics and shows them all,
  \<open>try_as_bytes\<close> lends them exactly if at most one block has any. The iterator yields them one by one,
  and then nothing, without consuming them. \<open>io::Read\<close> hands out as many of the first bytes as fit into
  the caller's slice and consumes just those; \<open>io::Write\<close> accepts all bytes it is given, and they end
  up behind the others. And every way to look at a window, by a slice, by a copy or by comparison, shows
  the same bytes, counted from its left or its right end; a slice can be lent if the window refers to one
  block. The hexadecimal dump returns and has the rows of 16 bytes of the content, with a row without
  bytes at the end if their number is a multiple of 16.
\<close>

theorem views_correct:
  assumes "bb_wf b" and "win_wf w"
  shows "(\<exists>c. bb_as_bytes b = Ok c \<and> cow_bytes c = content b) \<and>
    bb_try_as_bytes b = (if live_blocks b \<le> 1 then Some (content b) else None) \<and>
    bytes_run n (bytes_new b) = map Some (take n (content b)) @ replicate (n - length (content b)) None \<and>
    (\<exists>b'. reader_read n [] b = (take n (content b), b') \<and> bb_wf b' \<and> content b' = drop n (content b)) \<and>
    (0 < growth b \<and> tail_live b \<longrightarrow>
      (\<exists>b'. writer_write bs b = Some (length bs, b') \<and> bb_wf b' \<and> content b' = content b @ bs)) \<and>
    cow_bytes (win_as_bytes w) = win_to_bytes w \<and> (win_eq w other \<longleftrightarrow> win_to_bytes w = other) \<and>
    win_try_as_bytes w =
      (if win_size w = 0 \<or> length (win_blocks w) = 1 then Some (win_to_bytes w) else None) \<and>
    win_to_bytes w = (let c = chain_bytes (win_blocks w) in
      case win_off w of
        OffLeft off \<Rightarrow> take (win_size w) (drop off c)
      | OffRight off \<Rightarrow> take (win_size w) (drop (length c - off - win_size w) c)) \<and>
    hex_dump b = Some (if content b = [] then [] else hex_rows 0 (content b)) \<and>
    (length bs = 16 \<longrightarrow> hex_rows addr bs = hex_row addr bs @ hex_row (addr + 16) [])"
proof -
  note v = bytes_views [OF assms(1), of n bs] and w = window_views [OF assms(2)]
  show ?thesis
    by (intro conjI conjunct1 [OF v] conjunct1 [OF conjunct2 [OF v]] conjunct1 [OF conjunct2 [OF conjunct2 [OF v]]]
        conjunct1 [OF conjunct2 [OF conjunct2 [OF conjunct2 [OF v]]]] conjunct2 [OF conjunct2 [OF conjunct2 [OF conjunct2 [OF v]]]])
      (use w in \<open>simp_all add: win_bytes_def hex_dump_rows hex_rows_full\<close>)
qed

theorem views_correct_witness:
  "bb_try_as_bytes sample_buf = None \<and> bytes_run 5 (bytes_new sample_buf) = map Some [2, 3, 4, 5] @ [None] \<and>
   (\<exists>b'. writer_write [6, 7] sample_buf = Some (2, b') \<and> content b' = [2, 3, 4, 5, 6, 7]) \<and>
   win_eq \<lparr>win_blocks = blocks sample_buf, win_off = OffRight 1, win_size = 2\<rparr> [3, 4]"
proof -
  have w: "win_wf \<lparr>win_blocks = blocks sample_buf, win_off = OffRight 1, win_size = 2\<rparr>"
    "chain_bytes (blocks sample_buf) = [2, 3, 4, 5]"
    using sample_buf_facts(1,2,4)
    by (simp_all add: win_wf_def bb_wf_def content_def) (simp_all add: sample_buf_def block_defs)
  have "\<not> live_blocks sample_buf \<le> 1" by (simp add: live_blocks_def sample_buf_def block_defs)
  with views_correct [OF sample_buf_facts(1) w(1), of 5 "[6, 7]" "[3, 4]"] w(2) sample_buf_facts show ?thesis
    by (auto simp: numeral_eq_Suc Let_def)
qed

definition two_blocks :: bytebuf where
  "two_blocks = \<lparr>blocks = [block_from [1, 2] 2, block_from [3] 3], idx = 0, growth = 8\<rparr>"

lemma windows_nth_wrong:
  "(let (r, ws) = windows_next (windows_new two_blocks 1)
    in map_outcome (map_option win_to_bytes) (fst (windows_nth 0 ws)) = map_outcome (map_option win_to_bytes) r) \<and>
   (let (r, ws) = windows_nth 2 (windows_new two_blocks 1)
    in map_outcome (map_option win_to_bytes) r = Ok (Some [3]) \<and> fst (windows_next ws) = Panic) \<and>
   windows_run [True, True, True, True] (windows_new two_blocks 0) ! 3 = Panic"
  by (simp add: windows_nth_def windows_next_def windows_new_def two_blocks_def block_defs Let_def
      as_bytes_range_def mem_bytes_def win_to_bytes_def)
text \<open>
  C11. Calls that panic or go wrong. \<open>rfind\<close> starts at \<open>usize::MAX\<close> and adds the length of the needle to
  it: it overflows for every needle but the empty one; \<open>rfind_from\<close> on a buffer read to its end walks
  below its first unread block. \<open>Windows::nth\<close> does not do what an iterator's \<open>nth\<close> must: after a call of
  \<open>next\<close>, \<open>nth(0)\<close> yields the same window again; and a call that skips a block leaves a wrong count of
  windows, so that the iterator later reaches \<open>unreachable()\<close>. So do the windows of size 0, at the last
  one.
\<close>

theorem search_faults:
  assumes "needle \<noteq> []"
  shows "bb_rfind needle b = Panic \<and>
    (bb_wf b \<and> idx b = length (blocks b) \<and> blocks b \<noteq> [] \<and> rpos + length needle \<le> usize_max \<longrightarrow>
      bb_rfind_from needle rpos b = Panic) \<and>
    (let (r, ws) = windows_next (windows_new two_blocks 1)
     in map_outcome (map_option win_to_bytes) (fst (windows_nth 0 ws)) = map_outcome (map_option win_to_bytes) r) \<and>
    (let (r, ws) = windows_nth 2 (windows_new two_blocks 1)
     in map_outcome (map_option win_to_bytes) r = Ok (Some [3]) \<and> fst (windows_next ws) = Panic) \<and>
    windows_run [True, True, True, True] (windows_new two_blocks 0) ! 3 = Panic"
  using rfind_panics [OF assms, of b rpos] windows_nth_wrong by blast

theorem search_faults_witness:
  "bb_rfind [3] sample_buf = Panic \<and> bb_rfind_from [3] 0 overread_buf = Panic"
  using search_faults [of "[3]" sample_buf 0] search_faults [of "[3]" overread_buf 0]
  by (simp add: overread_buf_eq usize_max_def bb_wf_def block_wf_def mem_init_def block_defs)

end
