(* ===== verification/Slab.thy ===== *)
theory Slab
  imports Ruyi_Prelude
begin

text \<open>
  \<open>src/slab.rs\<close>: a vector of objects, used or free, the free ones linked from \<open>hfree\<close>. The
  capacity of the vector is a component of the state, because \<open>reserve\<close> computes with it; it
  grows as \<open>Vec\<close> documents. Indices stand for the index types \<open>I\<close>, which only wrap a \<open>usize\<close>.

  A slab is a finite map from indices to elements. The locale \<open>arena\<close> is what its clients (the
  timer wheel, the timer and the event loop) rely on.
\<close>

section \<open>State and operations\<close>

definition INVALID_INDEX :: nat where
  "INVALID_INDEX = usize_max"

datatype 'a object = Free nat | Used 'a

record 'a slab =
  objs :: "'a object list"
  objs_cap :: nat
  slab_len :: nat
  hfree :: nat

definition slab_new :: "'a slab" where
  "slab_new = \<lparr>objs = [], objs_cap = 0, slab_len = 0, hfree = INVALID_INDEX\<rparr>"

definition slab_with_capacity :: "nat \<Rightarrow> 'a slab" where
  "slab_with_capacity capacity =
     \<lparr>objs = [], objs_cap = capacity, slab_len = 0, hfree = INVALID_INDEX\<rparr>"

definition slab_clear :: "'a slab \<Rightarrow> 'a slab" where
  "slab_clear s =
     (if slab_len s > 0 then s\<lparr>objs := [], slab_len := 0, hfree := INVALID_INDEX\<rparr> else s)"

text \<open>
  \<open>Vec::reserve(n)\<close> and \<open>Vec::reserve_exact(n)\<close> do nothing if the capacity already has room for
  \<open>n\<close> more elements behind the \<open>len\<close> ones; else the first at least doubles it.
\<close>

definition vec_reserve :: "nat \<Rightarrow> nat \<Rightarrow> nat \<Rightarrow> nat" where
  "vec_reserve len n c = (if n \<le> c - len then c else max (2 * c) (len + n))"

definition vec_reserve_exact :: "nat \<Rightarrow> nat \<Rightarrow> nat \<Rightarrow> nat" where
  "vec_reserve_exact len n c = (if n \<le> c - len then c else len + n)"

definition slab_reserve :: "nat \<Rightarrow> 'a slab \<Rightarrow> 'a slab" where
  "slab_reserve additional s =
     (let n = objs_cap s - slab_len s
      in if additional > n
         then s\<lparr>objs_cap := vec_reserve (length (objs s)) (additional - n) (objs_cap s)\<rparr> else s)"

definition slab_reserve_exact :: "nat \<Rightarrow> 'a slab \<Rightarrow> 'a slab" where
  "slab_reserve_exact additional s =
     (let n = objs_cap s - slab_len s
      in if additional > n
         then s\<lparr>objs_cap := vec_reserve_exact (length (objs s)) (additional - n) (objs_cap s)\<rparr> else s)"

text \<open>\<open>Panic\<close> is the call of \<open>unreachable()\<close> for a free list that leads to a used object.\<close>

definition slab_insert :: "'a \<Rightarrow> 'a slab \<Rightarrow> (nat, unit) outcome \<times> 'a slab" where
  "slab_insert elem s =
     (if hfree s \<noteq> INVALID_INDEX then
        (let obj_idx = hfree s
         in case objs s ! obj_idx of
              Free n \<Rightarrow>
                (Ok obj_idx, s\<lparr>hfree := n, objs := (objs s)[obj_idx := Used elem], slab_len := slab_len s + 1\<rparr>)
            | Used _ \<Rightarrow> (Panic, s))
      else
        (let obj_idx = length (objs s)
         in (Ok obj_idx, s\<lparr>objs := objs s @ [Used elem],
               objs_cap := vec_reserve (length (objs s)) 1 (objs_cap s), slab_len := slab_len s + 1\<rparr>)))"

definition slab_remove :: "nat \<Rightarrow> 'a slab \<Rightarrow> 'a option \<times> 'a slab" where
  "slab_remove i s =
     (if i < length (objs s)
      then case objs s ! i of
             Used elem \<Rightarrow>
               (Some elem, s\<lparr>objs := (objs s)[i := Free (hfree s)], hfree := i, slab_len := slab_len s - 1\<rparr>)
           | Free _ \<Rightarrow> (None, s)
      else (None, s))"

definition slab_get :: "nat \<Rightarrow> 'a slab \<Rightarrow> 'a option" where
  "slab_get i s =
     (if i < length (objs s) then case objs s ! i of Used elem \<Rightarrow> Some elem | Free _ \<Rightarrow> None else None)"

text \<open>Writing through the reference that \<open>get_mut\<close> returns.\<close>

definition slab_set :: "nat \<Rightarrow> 'a \<Rightarrow> 'a slab \<Rightarrow> 'a slab" where
  "slab_set i elem s =
     (case slab_get i s of Some _ \<Rightarrow> s\<lparr>objs := (objs s)[i := Used elem]\<rparr> | None \<Rightarrow> s)"

text \<open>\<open>Index\<close> and \<open>get_unchecked\<close>: a panic, or undefined, without an element.\<close>

definition slab_index :: "nat \<Rightarrow> 'a slab \<Rightarrow> ('a, unit) outcome" where
  "slab_index i s = (case slab_get i s of Some elem \<Rightarrow> Ok elem | None \<Rightarrow> Panic)"

section \<open>The free list\<close>

inductive free_list :: "'a object list \<Rightarrow> nat \<Rightarrow> nat list \<Rightarrow> bool" for os where
  fl_end: "free_list os INVALID_INDEX []"
| fl_step: "h < length os \<Longrightarrow> h \<noteq> INVALID_INDEX \<Longrightarrow> os ! h = Free n \<Longrightarrow> free_list os n fl \<Longrightarrow>
    free_list os h (h # fl)"

inductive_simps free_list_Nil [simp]: "free_list os h []"
inductive_simps free_list_Cons [simp]: "free_list os h (i # fl)"

definition free_at :: "'a object list \<Rightarrow> nat set" where
  "free_at os = {i. i < length os \<and> (\<exists>n. os ! i = Free n)}"

definition used_at :: "'a object list \<Rightarrow> nat set" where
  "used_at os = {i. i < length os \<and> (\<exists>e. os ! i = Used e)}"

text \<open>
  The free list runs through exactly the free objects, once each, and \<open>len\<close> counts the others.
\<close>

definition slab_wf :: "'a slab \<Rightarrow> bool" where
  "slab_wf s \<longleftrightarrow> length (objs s) \<le> INVALID_INDEX \<and> slab_len s = card (used_at (objs s)) \<and>
     (\<exists>fl. free_list (objs s) (hfree s) fl \<and> distinct fl \<and> set fl = free_at (objs s))"

definition slab_map :: "'a slab \<Rightarrow> nat \<Rightarrow> 'a option" where
  "slab_map s i = slab_get i s"

lemma slab_wfI:
  "length (objs s) \<le> INVALID_INDEX \<Longrightarrow> slab_len s = card (used_at (objs s)) \<Longrightarrow>
   free_list (objs s) (hfree s) fl \<Longrightarrow> distinct fl \<Longrightarrow> set fl = free_at (objs s) \<Longrightarrow> slab_wf s"
  unfolding slab_wf_def by blast

lemma free_list_hd:
  "free_list os h fl \<Longrightarrow> h \<noteq> INVALID_INDEX \<Longrightarrow> \<exists>n fl'. fl = h # fl' \<and> h < length os \<and> os ! h = Free n \<and>
    free_list os n fl'"
  by (cases fl) auto

lemma free_list_end: "free_list os INVALID_INDEX fl \<Longrightarrow> fl = []"
  by (cases fl) simp_all

lemma free_list_update:
  "free_list os h fl \<Longrightarrow> i \<notin> set fl \<Longrightarrow> free_list (os[i := x]) h fl"
  by (induction fl arbitrary: h) auto

lemma free_list_append: "free_list os h fl \<Longrightarrow> free_list (os @ xs) h fl"
  by (induction fl arbitrary: h) (auto simp: nth_append)

lemma finite_used_at [simp]: "finite (used_at os)"
  by (simp add: used_at_def)

lemma at_update:
  assumes "i < length os"
  shows "free_at (os[i := Free n]) = insert i (free_at os)" "used_at (os[i := Free n]) = used_at os - {i}"
    "free_at (os[i := Used e]) = free_at os - {i}" "used_at (os[i := Used e]) = insert i (used_at os)"
  using assms by (auto simp: free_at_def used_at_def nth_list_update)

lemma at_append:
  "free_at (os @ [Used e]) = free_at os" "used_at (os @ [Used e]) = insert (length os) (used_at os)"
  by (auto simp: free_at_def used_at_def nth_append less_Suc_eq)

lemma used_atI: "i < length os \<Longrightarrow> os ! i = Used e \<Longrightarrow> i \<in> used_at os"
  "os ! i = Free n \<Longrightarrow> i \<notin> used_at os"
  by (auto simp: used_at_def)

lemma slab_get_Some_iff: "slab_get i s = Some e \<longleftrightarrow> i < length (objs s) \<and> objs s ! i = Used e"
  by (auto simp: slab_get_def split: object.splits)

lemma slab_dom: "dom (slab_map s) = used_at (objs s)"
  by (auto simp: slab_map_def dom_def used_at_def slab_get_Some_iff)

section \<open>What the operations do to the map\<close>

lemma slab_fresh [simp]:
  "slab_wf slab_new" "slab_wf (slab_with_capacity c)" "slab_map slab_new = Map.empty"
  "slab_map (slab_with_capacity c) = Map.empty"
  by (auto simp: slab_wf_def slab_new_def slab_with_capacity_def used_at_def free_at_def slab_map_def
      slab_get_def intro!: exI [of _ "[]"])

lemma slab_len_map: "slab_wf s \<Longrightarrow> slab_len s = card (dom (slab_map s))"
  by (simp add: slab_wf_def slab_dom)

lemma slab_insert_spec:
  assumes "slab_wf s" and "card (dom (slab_map s)) < INVALID_INDEX"
  shows "\<exists>i s'. slab_insert e s = (Ok i, s') \<and> slab_wf s' \<and> i \<notin> dom (slab_map s) \<and> i < INVALID_INDEX \<and>
    slab_map s' = (slab_map s)(i \<mapsto> e)"
proof -
  obtain fl where fl: "free_list (objs s) (hfree s) fl" "distinct fl" "set fl = free_at (objs s)"
    and len: "length (objs s) \<le> INVALID_INDEX" and cnt: "slab_len s = card (used_at (objs s))"
    using assms(1) by (auto simp: slab_wf_def)
  show ?thesis
  proof (cases "hfree s = INVALID_INDEX")
    case True
    then have "free_at (objs s) = {}" using fl by (auto dest: free_list_end)
    then have "used_at (objs s) = {..<length (objs s)}"
      by (auto simp: used_at_def free_at_def) (metis object.exhaust)
    then have lt: "length (objs s) < INVALID_INDEX" using assms(2) by (simp add: slab_dom)
    let ?s = "s\<lparr>objs := objs s @ [Used e], objs_cap := vec_reserve (length (objs s)) 1 (objs_cap s),
      slab_len := slab_len s + 1\<rparr>"
    have "length (objs s) \<notin> used_at (objs s)" by (simp add: used_at_def)
    then have "slab_wf ?s"
      using fl lt cnt by (intro slab_wfI [where fl = fl]) (simp_all add: at_append free_list_append)
    moreover have "slab_map ?s = (slab_map s)(length (objs s) \<mapsto> e)"
      by (rule ext) (simp add: slab_map_def slab_get_def nth_append less_Suc_eq)
    ultimately show ?thesis
      using True lt by (simp add: slab_insert_def Let_def slab_dom used_at_def)
  next
    case False
    then obtain n fl' where h: "fl = hfree s # fl'" "hfree s < length (objs s)"
      "objs s ! hfree s = Free n" "free_list (objs s) n fl'"
      using free_list_hd [OF fl(1)] by blast
    let ?s = "s\<lparr>hfree := n, objs := (objs s)[hfree s := Used e], slab_len := slab_len s + 1\<rparr>"
    have "hfree s \<notin> used_at (objs s)" using h(3) by (rule used_atI(2))
    moreover have "free_list (objs ?s) n fl'" "distinct fl'" "set fl' = free_at (objs s) - {hfree s}"
      using h fl by (auto intro: free_list_update)
    ultimately have "slab_wf ?s"
      using len cnt h(2) by (auto simp: slab_wf_def at_update)
    moreover have "slab_map ?s = (slab_map s)(hfree s \<mapsto> e)"
      using h(2) by (intro ext) (simp add: slab_map_def slab_get_def nth_list_update)
    ultimately show ?thesis
      using False h len \<open>hfree s \<notin> used_at (objs s)\<close> by (simp add: slab_insert_def Let_def slab_dom)
  qed
qed

lemma slab_remove_spec:
  assumes "slab_wf s"
  shows "\<exists>s'. slab_remove i s = (slab_map s i, s') \<and> slab_wf s' \<and> slab_map s' = (slab_map s)(i := None)"
proof (cases "slab_map s i")
  case None
  then have "slab_remove i s = (None, s)"
    by (auto simp: slab_remove_def slab_map_def slab_get_def split: object.splits if_splits)
  with None assms show ?thesis by (simp add: fun_upd_idem)
next
  case (Some e)
  then have i: "i < length (objs s)" "objs s ! i = Used e"
    by (simp_all add: slab_map_def slab_get_Some_iff)
  obtain fl where fl: "free_list (objs s) (hfree s) fl" "distinct fl" "set fl = free_at (objs s)"
    and len: "length (objs s) \<le> INVALID_INDEX" and cnt: "slab_len s = card (used_at (objs s))"
    using assms by (auto simp: slab_wf_def)
  let ?s = "s\<lparr>objs := (objs s)[i := Free (hfree s)], hfree := i, slab_len := slab_len s - 1\<rparr>"
  have "i \<notin> set fl" "i \<in> used_at (objs s)" using i fl(3) by (auto simp: free_at_def used_at_def)
  then have s: "free_list (objs ?s) i (i # fl)" "distinct (i # fl)" "set (i # fl) = free_at (objs ?s)"
    "slab_len ?s = card (used_at (objs ?s))"
    using i len fl cnt by (simp_all add: free_list_update at_update)
  have "slab_wf ?s"
    by (rule slab_wfI [OF _ s(4) _ s(2,3)]) (use len s(1) i(1) in simp_all)
  moreover have "slab_map ?s = (slab_map s)(i := None)"
    using i by (intro ext) (simp add: slab_map_def slab_get_def nth_list_update)
  ultimately show ?thesis
    using i Some by (simp add: slab_remove_def)
qed

lemma slab_set_spec:
  assumes "slab_wf s" and "slab_map s i \<noteq> None"
  shows "slab_wf (slab_set i e s) \<and> slab_map (slab_set i e s) = (slab_map s)(i \<mapsto> e)"
proof
  obtain e' where i: "i < length (objs s)" "objs s ! i = Used e'"
    using assms(2) by (auto simp: slab_map_def slab_get_Some_iff)
  then have u: "i \<in> used_at (objs s)" "i \<notin> free_at (objs s)" by (auto simp: used_at_def free_at_def)
  have s: "slab_set i e s = s\<lparr>objs := (objs s)[i := Used e]\<rparr>"
    using i by (simp add: slab_set_def slab_get_def)
  show "slab_wf (slab_set i e s)"
    using assms(1) i u by (auto simp: s slab_wf_def at_update insert_absorb intro!: free_list_update)
  show "slab_map (slab_set i e s) = (slab_map s)(i \<mapsto> e)"
    using i by (intro ext) (simp add: s slab_map_def slab_get_def nth_list_update)
qed

lemma slab_clear_spec:
  assumes "slab_wf s"
  shows "slab_wf (slab_clear s)" and "slab_map (slab_clear s) = Map.empty"
proof -
  show "slab_wf (slab_clear s)"
    using assms by (auto simp: slab_wf_def slab_clear_def used_at_def free_at_def intro!: exI [of _ "[]"])
  show "slab_map (slab_clear s) = Map.empty"
  proof (cases "slab_len s = 0")
    case True
    then have "dom (slab_map s) = {}" using assms by (simp add: slab_wf_def slab_dom)
    with True show ?thesis by (simp add: slab_clear_def)
  qed (auto simp: slab_clear_def slab_map_def slab_get_def)
qed

text \<open>The object freed last is used first.\<close>

lemma slab_insert_after_remove:
  assumes "slab_wf s" and "slab_remove i s = (Some e, s')"
  shows "fst (slab_insert e' s') = Ok i"
proof -
  have i: "i < length (objs s)" "s' = s\<lparr>objs := (objs s)[i := Free (hfree s)], hfree := i, slab_len := slab_len s - 1\<rparr>"
    using assms(2) by (auto simp: slab_remove_def split: if_splits object.splits)
  moreover have "length (objs s) \<le> INVALID_INDEX" using assms(1) by (simp add: slab_wf_def)
  ultimately show ?thesis by (simp add: slab_insert_def Let_def)
qed

section \<open>The interface of an arena\<close>

text \<open>
  What the clients of a slab rely on, over the finite map \<open>look s\<close> of its elements.
\<close>

locale arena =
  fixes inv :: "'s \<Rightarrow> bool" and look :: "'s \<Rightarrow> nat \<Rightarrow> 'a option"
    and ins :: "'a \<Rightarrow> 's \<Rightarrow> (nat, unit) outcome \<times> 's" and rem :: "nat \<Rightarrow> 's \<Rightarrow> 'a option \<times> 's"
    and upd :: "nat \<Rightarrow> 'a \<Rightarrow> 's \<Rightarrow> 's"
  assumes finite_look: "inv s \<Longrightarrow> finite (dom (look s))"
    and ins_law: "inv s \<Longrightarrow> card (dom (look s)) < INVALID_INDEX \<Longrightarrow>
      \<exists>i s'. ins x s = (Ok i, s') \<and> inv s' \<and> i \<notin> dom (look s) \<and> i < INVALID_INDEX \<and>
        look s' = (look s)(i \<mapsto> x)"
    and rem_law: "inv s \<Longrightarrow>
      \<exists>s'. rem i s = (look s i, s') \<and> inv s' \<and> look s' = (look s)(i := None)"
    and upd_law: "inv s \<Longrightarrow> look s i \<noteq> None \<Longrightarrow> inv (upd i x s) \<and> look (upd i x s) = (look s)(i \<mapsto> x)"

text \<open>A client's calls, and the log of what they returned; \<open>None\<close> if one panicked.\<close>

datatype 'a arena_call = Insert 'a | Remove nat | Update nat 'a

datatype 'a arena_event = Inserted nat 'a | Removed nat "'a option" | Updated nat 'a

fun arena_run ::
  "('a \<Rightarrow> 's \<Rightarrow> (nat, unit) outcome \<times> 's) \<Rightarrow> (nat \<Rightarrow> 's \<Rightarrow> 'a option \<times> 's) \<Rightarrow> (nat \<Rightarrow> 'a \<Rightarrow> 's \<Rightarrow> 's) \<Rightarrow>
   'a arena_call list \<Rightarrow> 's \<Rightarrow> ('a arena_event list \<times> 's) option" where
  "arena_run ins rem upd [] s = Some ([], s)"
| "arena_run ins rem upd (Insert x # cs) s =
     (case ins x s of
        (Ok i, s') \<Rightarrow> map_option (apfst ((#) (Inserted i x))) (arena_run ins rem upd cs s')
      | _ \<Rightarrow> None)"
| "arena_run ins rem upd (Remove i # cs) s =
     (case rem i s of (r, s') \<Rightarrow> map_option (apfst ((#) (Removed i r))) (arena_run ins rem upd cs s'))"
| "arena_run ins rem upd (Update i x # cs) s =
     map_option (apfst ((#) (Updated i x))) (arena_run ins rem upd cs (upd i x s))"

text \<open>
  A log is right for a map if every insertion got an unused index, and every removal returned
  what the index had; \<open>replay\<close> is the map after it.
\<close>

fun log_ok :: "'a arena_event list \<Rightarrow> (nat \<Rightarrow> 'a option) \<Rightarrow> bool" where
  "log_ok [] m = True"
| "log_ok (Inserted i x # es) m = (m i = None \<and> log_ok es (m(i \<mapsto> x)))"
| "log_ok (Removed i r # es) m = (r = m i \<and> log_ok es (m(i := None)))"
| "log_ok (Updated i x # es) m = log_ok es (if m i = None then m else m(i \<mapsto> x))"

fun replay :: "'a arena_event list \<Rightarrow> (nat \<Rightarrow> 'a option) \<Rightarrow> nat \<Rightarrow> 'a option" where
  "replay [] m = m"
| "replay (Inserted i x # es) m = replay es (m(i \<mapsto> x))"
| "replay (Removed i r # es) m = replay es (m(i := None))"
| "replay (Updated i x # es) m = replay es (if m i = None then m else m(i \<mapsto> x))"

context arena
begin

lemma run_log:
  assumes "inv s" and "\<And>i x s. inv s \<Longrightarrow> look s i = None \<Longrightarrow> upd i x s = s"
    and "length cs + card (dom (look s)) \<le> INVALID_INDEX"
  shows "\<exists>es s'. arena_run ins rem upd cs s = Some (es, s') \<and> inv s' \<and> length es = length cs \<and>
    log_ok es (look s) \<and> look s' = replay es (look s)"
  using assms(1,3)
proof (induction cs arbitrary: s)
  case (Cons c cs)
  note fin = finite_look [OF Cons.prems(1)]
  show ?case
  proof (cases c)
    case (Insert x)
    obtain i s1 where s1: "ins x s = (Ok i, s1)" "inv s1" "i \<notin> dom (look s)" "look s1 = (look s)(i \<mapsto> x)"
      using ins_law [OF Cons.prems(1)] Cons.prems(2) by force
    have "length cs + card (dom (look s1)) \<le> INVALID_INDEX"
      using Cons.prems(2) s1(3) fin by (simp add: s1(4))
    from Cons.IH [OF s1(2) this] obtain es s' where "arena_run ins rem upd cs s1 = Some (es, s')"
      "inv s'" "length es = length cs" "log_ok es (look s1)" "look s' = replay es (look s1)" by blast
    with s1 Insert show ?thesis
      by (intro exI [of _ "Inserted i x # es"] exI [of _ s']) (simp add: domIff)
  next
    case (Remove i)
    obtain s1 where s1: "rem i s = (look s i, s1)" "inv s1" "look s1 = (look s)(i := None)"
      using rem_law [OF Cons.prems(1)] by blast
    have "card (dom (look s1)) \<le> card (dom (look s))"
      using fin s1(3) by (auto intro: card_mono)
    then have "length cs + card (dom (look s1)) \<le> INVALID_INDEX" using Cons.prems(2) by simp
    from Cons.IH [OF s1(2) this] obtain es s' where "arena_run ins rem upd cs s1 = Some (es, s')"
      "inv s'" "length es = length cs" "log_ok es (look s1)" "look s' = replay es (look s1)" by blast
    with s1 Remove show ?thesis
      by (intro exI [of _ "Removed i (look s i) # es"] exI [of _ s']) simp
  next
    case (Update i x)
    have u: "inv (upd i x s)" "look (upd i x s) = (if look s i = None then look s else (look s)(i \<mapsto> x))"
      using upd_law [OF Cons.prems(1), of i x] assms(2) [OF Cons.prems(1), of i x] Cons.prems(1)
      by (cases "look s i"; simp)+
    then have "dom (look (upd i x s)) = dom (look s)" by auto
    then have "length cs + card (dom (look (upd i x s))) \<le> INVALID_INDEX" using Cons.prems(2) by simp
    from Cons.IH [OF u(1) this] obtain es s' where "arena_run ins rem upd cs (upd i x s) = Some (es, s')"
      "inv s'" "length es = length cs" "log_ok es (look (upd i x s))"
      "look s' = replay es (look (upd i x s))" by blast
    with u Update show ?thesis
      by (intro exI [of _ "Updated i x # es"] exI [of _ s']) simp
  qed
qed simp

end

interpretation slab_arena: arena slab_wf slab_map slab_insert slab_remove slab_set
proof unfold_locales
  show "finite (dom (slab_map s))" for s :: "'a slab"
    by (simp add: slab_dom)
qed (fact slab_insert_spec slab_remove_spec slab_set_spec)+

lemma slab_set_absent: "slab_map s i = None \<Longrightarrow> slab_set i x s = s"
  by (simp add: slab_map_def slab_set_def)

end
