(* ===== verification/Wheel.thy ===== *)
theory Wheel
  imports Slab "HOL-Library.Monad_Syntax"
begin

text \<open>
  The timer wheel of \<open>src/reactor/wheel.rs\<close>: 128 slots and the entries of a slab, linked into one
  ring by \<open>prev\<close> and \<open>next\<close> tokens. The timers of slot \<open>s\<close> lie between the slots \<open>s - 1\<close> and
  \<open>s\<close>.

  An operation that calls \<open>unreachable()\<close>, unwraps \<open>None\<close> or reads an element that is not there is
  \<open>None\<close>. Durations and instants are nanoseconds; the time \<open>Instant::now()\<close> reads is an argument.
\<close>

section \<open>State\<close>

datatype token = TEntry nat | TSlot nat | TNil

record entry =
  e_prev :: token
  e_next :: token
  e_task :: nat
  e_exp :: "nat option"

record slot =
  s_prev :: token
  s_next :: token

record wheel =
  w_entries :: "entry slab"
  w_slots :: "slot list"
  w_current :: nat
  w_mask :: nat

definition NUM_OF_SLOTS :: nat where
  "NUM_OF_SLOTS = 128"

definition entry_new :: "nat \<Rightarrow> entry" where
  "entry_new task = \<lparr>e_prev = TNil, e_next = TNil, e_task = task, e_exp = None\<rparr>"

definition wheel_new :: wheel where
  "wheel_new =
     (let m = NUM_OF_SLOTS - 1
      in \<lparr>w_entries = slab_with_capacity 512,
          w_slots = map (\<lambda>i. \<lparr>s_prev = TSlot ((i + usize_max) mod (usize_max + 1) AND m),
            s_next = TSlot ((i + 1) AND m)\<rparr>) [0..<NUM_OF_SLOTS],
          w_current = 0, w_mask = m\<rparr>)"

section \<open>Operations\<close>

definition get_entry :: "nat \<Rightarrow> wheel \<Rightarrow> entry option" where
  "get_entry i w = slab_get i (w_entries w)"

definition put_entry :: "nat \<Rightarrow> entry \<Rightarrow> wheel \<Rightarrow> wheel" where
  "put_entry i e w = w\<lparr>w_entries := slab_set i e (w_entries w)\<rparr>"

definition get_slot :: "nat \<Rightarrow> wheel \<Rightarrow> slot option" where
  "get_slot i w = (if i < length (w_slots w) then Some (w_slots w ! i) else None)"

definition put_slot :: "nat \<Rightarrow> slot \<Rightarrow> wheel \<Rightarrow> wheel" where
  "put_slot i s w = w\<lparr>w_slots := (w_slots w)[i := s]\<rparr>"

text \<open>The two \<open>match\<close>es over a token, which set the \<open>next\<close> or the \<open>prev\<close> of what it names.\<close>

fun set_next_of :: "token \<Rightarrow> token \<Rightarrow> wheel \<Rightarrow> wheel option" where
  "set_next_of (TEntry i) t w = do { e \<leftarrow> get_entry i w; Some (put_entry i (e\<lparr>e_next := t\<rparr>) w) }"
| "set_next_of (TSlot i) t w = do { s \<leftarrow> get_slot i w; Some (put_slot i (s\<lparr>s_next := t\<rparr>) w) }"
| "set_next_of TNil t w = None"

fun set_prev_of :: "token \<Rightarrow> token \<Rightarrow> wheel \<Rightarrow> wheel option" where
  "set_prev_of (TEntry i) t w = do { e \<leftarrow> get_entry i w; Some (put_entry i (e\<lparr>e_prev := t\<rparr>) w) }"
| "set_prev_of (TSlot i) t w = do { s \<leftarrow> get_slot i w; Some (put_slot i (s\<lparr>s_prev := t\<rparr>) w) }"
| "set_prev_of TNil t w = None"

definition effective_slot :: "nat \<Rightarrow> wheel \<Rightarrow> nat" where
  "effective_slot s w = (s mod (usize_max + 1)) AND w_mask w"

definition is_expired :: "nat \<Rightarrow> wheel \<Rightarrow> bool option" where
  "is_expired i w = map_option (\<lambda>e. e_prev e = TNil) (get_entry i w)"

abbreviation nanos_per_sec :: nat where
  "nanos_per_sec \<equiv> 1000000000"

definition as_secs :: "nat \<Rightarrow> nat" where
  "as_secs dur = dur div nanos_per_sec"

definition round_to_secs :: "nat \<Rightarrow> nat" where
  "round_to_secs dur =
     (if dur mod nanos_per_sec \<ge> 500000000 then as_secs dur + 1 else as_secs dur)"

text \<open>\<open>Inner::schedule\<close>, at the time \<open>now\<close>.\<close>

definition wheel_schedule :: "nat \<Rightarrow> nat \<Rightarrow> nat \<Rightarrow> wheel \<Rightarrow> (nat \<times> wheel) option" where
  "wheel_schedule now dur task w =
     (let timeout = as_secs dur;
          (timeout, exp) = (if timeout > w_mask w then (w_mask w, Some (now + dur)) else (timeout, None));
          slot_idx = effective_slot (w_current w + timeout) w
      in do {
        s \<leftarrow> get_slot slot_idx w;
        (case slab_insert ((entry_new task)\<lparr>e_exp := exp, e_prev := s_prev s, e_next := TSlot slot_idx\<rparr>)
             (w_entries w) of
           (Ok timer_id, es) \<Rightarrow> do {
             w1 \<leftarrow> set_next_of (s_prev s) (TEntry timer_id) (w\<lparr>w_entries := es\<rparr>);
             w2 \<leftarrow> set_prev_of (TSlot slot_idx) (TEntry timer_id) w1;
             Some (timer_id, w2) }
         | _ \<Rightarrow> None) })"

text \<open>\<open>Inner::reschedule_internal\<close>: links an entry that is in no list.\<close>

definition reschedule_internal :: "nat \<Rightarrow> nat \<Rightarrow> nat option \<Rightarrow> nat \<Rightarrow> wheel \<Rightarrow> wheel option" where
  "reschedule_internal now dur exp timer_id w =
     (let timeout = round_to_secs dur
      in do {
        (timeout, w1) \<leftarrow>
          (if timeout > w_mask w then do {
             e \<leftarrow> get_entry timer_id w;
             Some (w_mask w, put_entry timer_id
               (e\<lparr>e_exp := (case exp of None \<Rightarrow> Some (now + dur) | Some x \<Rightarrow> Some x)\<rparr>) w) }
           else Some (timeout, w));
        let slot_idx = effective_slot (w_current w1 + timeout) w1;
        s \<leftarrow> get_slot slot_idx w1;
        e \<leftarrow> get_entry timer_id w1;
        let w2 = put_entry timer_id (e\<lparr>e_prev := s_prev s, e_next := TSlot slot_idx\<rparr>) w1;
        w3 \<leftarrow> set_next_of (s_prev s) (TEntry timer_id) w2;
        set_prev_of (TSlot slot_idx) (TEntry timer_id) w3 })"

definition wheel_reschedule :: "nat \<Rightarrow> nat \<Rightarrow> nat \<Rightarrow> wheel \<Rightarrow> wheel option" where
  "wheel_reschedule now dur timer_id w =
     do {
       e \<leftarrow> get_entry timer_id w;
       w1 \<leftarrow> set_next_of (e_prev e) (e_next e) w;
       w2 \<leftarrow> set_prev_of (e_next e) (e_prev e) w1;
       reschedule_internal now dur None timer_id w2 }"

definition wheel_cancel :: "nat \<Rightarrow> wheel \<Rightarrow> wheel option" where
  "wheel_cancel timer_id w =
     (case slab_remove timer_id (w_entries w) of
        (Some e, es) \<Rightarrow>
          (if e_prev e = TNil then Some (w\<lparr>w_entries := es\<rparr>)
           else do {
             w1 \<leftarrow> set_next_of (e_prev e) (e_next e) (w\<lparr>w_entries := es\<rparr>);
             set_prev_of (e_next e) (e_prev e) w1 })
      | (None, es) \<Rightarrow> None)"

subsection \<open>A tick\<close>

text \<open>
  What a tick does outside the wheel: it reads the clock, and it runs the tasks of the timers that
  are due (\<open>run_expired_task\<close>). A task is arbitrary code that may call the wheel again, and the
  result says whether the event loop is to exit.
\<close>

record 'w env =
  clock :: "'w \<Rightarrow> nat \<times> 'w"
  run_expired_task :: "nat \<Rightarrow> wheel \<times> 'w \<Rightarrow> bool \<times> wheel \<times> 'w"

text \<open>What is done with one entry, once it has been taken out of its list.\<close>

definition expire :: "'w env \<Rightarrow> nat \<Rightarrow> nat option \<Rightarrow> nat \<Rightarrow> bool \<Rightarrow> wheel \<times> 'w \<Rightarrow> (bool \<times> wheel \<times> 'w) option" where
  "expire env timer_id expiration task exit wx =
     (if exit then Some (exit, wx)
      else case expiration of
             Some exp \<Rightarrow>
               (let (w, x) = wx; (now, x) = clock env x
                in if exp \<ge> now + nanos_per_sec
                   then map_option (\<lambda>w. (exit, w, x)) (reschedule_internal now (exp - now) (Some exp) timer_id w)
                   else Some (run_expired_task env task (w, x)))
           | None \<Rightarrow> Some (run_expired_task env task wx))"

text \<open>The \<open>loop\<close> of \<open>tick\<close>. \<open>None\<close> is a loop that does not end.\<close>

partial_function (option) tick_loop ::
  "'w env \<Rightarrow> bool \<Rightarrow> nat \<Rightarrow> wheel \<times> 'w \<Rightarrow> (nat \<times> wheel \<times> 'w, unit) outcome option" where
  "tick_loop env exit timer_id wx =
     (case get_entry timer_id (fst wx) of
        None \<Rightarrow> Some Panic
      | Some entry \<Rightarrow>
          (let w1 = put_entry timer_id (entry\<lparr>e_prev := TNil, e_next := TNil, e_exp := None\<rparr>) (fst wx)
           in case expire env timer_id (e_exp entry) (e_task entry) exit (w1, snd wx) of
                None \<Rightarrow> Some Panic
              | Some (exit', wx') \<Rightarrow>
                  (case e_next entry of
                     TEntry i \<Rightarrow> tick_loop env exit' i wx'
                   | TSlot i \<Rightarrow> Some (Ok (i, wx'))
                   | TNil \<Rightarrow> Some Panic)))"

definition wheel_tick :: "'w env \<Rightarrow> wheel \<times> 'w \<Rightarrow> (wheel \<times> 'w, unit) outcome option" where
  "wheel_tick env wx =
     (let (w, x) = wx; current_slot = w_current w
      in case get_slot current_slot w of
           None \<Rightarrow> Some Panic
         | Some s \<Rightarrow>
             (case s_next s of
                TSlot index \<Rightarrow> Some (Ok (w\<lparr>w_current := index\<rparr>, x))
              | TNil \<Rightarrow> Some Panic
              | TEntry i \<Rightarrow>
                  (case tick_loop env False i (w, x) of
                     Some (Ok (next_slot, w1, x1)) \<Rightarrow>
                       (case do {
                          w2 \<leftarrow> set_next_of (TSlot current_slot) (TSlot next_slot) w1;
                          set_prev_of (TSlot next_slot) (TSlot (w_current w2)) w2 } of
                        Some w3 \<Rightarrow> Some (Ok (w3\<lparr>w_current := next_slot\<rparr>, x1))
                      | None \<Rightarrow> Some Panic)
                   | Some _ \<Rightarrow> Some Panic
                   | None \<Rightarrow> None)))"

end
