(* ===== verification/Wheel_Ring.thy ===== *)
theory Wheel_Ring
  imports Wheel
begin

text \<open>
  The ring of the timer wheel: an invariant that gives every slot the list of its timers, and
  what scheduling, rescheduling and cancelling do to these lists.
\<close>

section \<open>Linked tokens\<close>

definition nxt :: "wheel \<Rightarrow> token \<Rightarrow> token option" where
  "nxt w t = (case t of TEntry i \<Rightarrow> map_option e_next (get_entry i w)
     | TSlot i \<Rightarrow> map_option s_next (get_slot i w) | TNil \<Rightarrow> None)"

definition prv :: "wheel \<Rightarrow> token \<Rightarrow> token option" where
  "prv w t = (case t of TEntry i \<Rightarrow> map_option e_prev (get_entry i w)
     | TSlot i \<Rightarrow> map_option s_prev (get_slot i w) | TNil \<Rightarrow> None)"

fun path :: "('a \<Rightarrow> 'a option) \<Rightarrow> ('a \<Rightarrow> 'a option) \<Rightarrow> 'a list \<Rightarrow> bool" where
  "path N P (t # u # ts) = (N t = Some u \<and> P u = Some t \<and> path N P (u # ts))"
| "path N P ts = True"

lemma path_append: "path N P (xs @ a # ys) \<longleftrightarrow> path N P (xs @ [a]) \<and> path N P (a # ys)"
proof (induction xs)
  case (Cons x xs)
  then show ?case by (cases xs) auto
qed simp

lemma path_cong:
  "\<forall>t\<in>set (butlast ts). N' t = N t \<Longrightarrow> \<forall>t\<in>set (tl ts). P' t = P t \<Longrightarrow> path N P ts \<Longrightarrow> path N' P' ts"
  by (induction ts rule: induct_list012) auto

lemma path_at:
  assumes "path N P (H @ x # T)"
  shows "H \<noteq> [] \<Longrightarrow> P x = Some (last H)" and "T \<noteq> [] \<Longrightarrow> N x = Some (hd T)"
proof -
  assume "H \<noteq> []"
  then obtain H' a where "H = H' @ [a]" by (metis append_butlast_last_id)
  with assms path_append [of N P H' a "x # T"] show "P x = Some (last H)" by simp
next
  assume "T \<noteq> []"
  then obtain b T' where "T = b # T'" by (cases T) simp_all
  with assms path_append [of N P H x T] show "N x = Some (hd T)" by simp
qed

lemma path_insert:
  assumes "path N P (H @ [b])" and "H \<noteq> []"
    and "N' (last H) = Some x" and "N' x = Some b" and "P' b = Some x" and "P' x = Some (last H)"
    and "\<forall>t\<in>set (butlast H). N' t = N t" and "\<forall>t\<in>set (tl H). P' t = P t"
  shows "path N' P' (H @ [x, b])"
proof -
  obtain H' a where H: "H = H' @ [a]" using assms(2) by (metis append_butlast_last_id)
  have "path N P (H' @ [a])" using assms(1) path_append [of N P H' a "[b]"] H by simp
  then have "path N' P' (H' @ [a])"
    using assms(7,8) H by (intro path_cong [of _ N' N P' P]) auto
  with assms(3-6) H path_append [of N' P' H' a "[x, b]"] show ?thesis by simp
qed

lemma path_remove:
  assumes "path N P (H @ x # T)" and "H \<noteq> []" and "T \<noteq> []"
    and "N' (last H) = Some (hd T)" and "P' (hd T) = Some (last H)"
    and "\<forall>t\<in>set (butlast H) \<union> set (butlast T). N' t = N t" and "\<forall>t\<in>set (tl H) \<union> set (tl T). P' t = P t"
  shows "path N' P' (H @ T)"
proof -
  obtain H' a where H: "H = H' @ [a]" using assms(2) by (metis append_butlast_last_id)
  obtain b T' where T: "T = b # T'" using assms(3) by (cases T) simp_all
  have "path N P (H' @ [a])" "path N P (b # T')"
    using assms(1) path_append [of N P H' a "x # T"] H T by simp_all
  then have "path N' P' (H' @ [a])" "path N' P' (b # T')"
    using assms(6,7) H T by (auto intro!: path_cong [of _ N' N P' P])
  with assms(4,5) H T path_append [of N' P' H' a T] show ?thesis by simp
qed

section \<open>What the small operations do to the links\<close>

lemma get_entry_map: "get_entry i w = slab_map (w_entries w) i"
  by (simp add: get_entry_def slab_map_def)

lemma put_entry_simps [simp]:
  "w_slots (put_entry i e w) = w_slots w" "w_current (put_entry i e w) = w_current w"
  "w_mask (put_entry i e w) = w_mask w" "get_slot j (put_entry i e w) = get_slot j w"
  by (simp_all add: put_entry_def get_slot_def)

lemma put_slot_simps [simp]:
  "w_entries (put_slot i s w) = w_entries w" "w_current (put_slot i s w) = w_current w"
  "w_mask (put_slot i s w) = w_mask w" "get_entry j (put_slot i s w) = get_entry j w"
  "length (w_slots (put_slot i s w)) = length (w_slots w)"
  by (simp_all add: put_slot_def get_entry_def)

lemma get_put_slot:
  "get_slot i w \<noteq> None \<Longrightarrow> get_slot j (put_slot i s w) = (if j = i then Some s else get_slot j w)"
  by (auto simp: get_slot_def put_slot_def split: if_splits)

lemma get_put_entry:
  assumes "slab_wf (w_entries w)" and "get_entry i w \<noteq> None"
  shows "slab_wf (w_entries (put_entry i e w))"
    and "get_entry j (put_entry i e w) = (if j = i then Some e else get_entry j w)"
  using slab_set_spec [OF assms(1), of i e] assms(2) by (simp_all add: put_entry_def get_entry_map)

text \<open>What an entry holds besides its links.\<close>

definition timer_data :: "wheel \<Rightarrow> nat \<Rightarrow> (nat \<times> nat option) option" where
  "timer_data w i = map_option (\<lambda>e. (e_task e, e_exp e)) (get_entry i w)"

definition wheel_fit :: "wheel \<Rightarrow> bool" where
  "wheel_fit w \<longleftrightarrow> slab_wf (w_entries w) \<and> length (w_slots w) = NUM_OF_SLOTS \<and>
     w_mask w = NUM_OF_SLOTS - 1 \<and> w_current w < NUM_OF_SLOTS"

lemma set_next_of_spec:
  assumes "wheel_fit w" and "nxt w t \<noteq> None"
  shows "\<exists>w'. set_next_of t v w = Some w' \<and> wheel_fit w' \<and> nxt w' = (nxt w)(t \<mapsto> v) \<and> prv w' = prv w \<and>
    timer_data w' = timer_data w \<and> w_current w' = w_current w"
proof (cases t)
  case (TEntry i)
  with assms(2) obtain e where e: "get_entry i w = Some e" by (auto simp: nxt_def)
  let ?w = "put_entry i (e\<lparr>e_next := v\<rparr>) w"
  have g: "slab_wf (w_entries ?w)" "get_entry j ?w = (if j = i then Some (e\<lparr>e_next := v\<rparr>) else get_entry j w)" for j
    using get_put_entry [of w i] assms(1) e by (simp_all add: wheel_fit_def)
  then have "wheel_fit ?w" "nxt ?w = (nxt w)(t \<mapsto> v)" "prv ?w = prv w" "timer_data ?w = timer_data w"
    using assms(1) TEntry e
    by (auto simp: wheel_fit_def nxt_def prv_def timer_data_def fun_eq_iff split: token.splits)
  with TEntry e show ?thesis by simp
next
  case (TSlot i)
  with assms(2) obtain s where s: "get_slot i w = Some s" by (auto simp: nxt_def)
  then show ?thesis
    using assms(1) TSlot
    by (auto simp: wheel_fit_def nxt_def prv_def timer_data_def fun_eq_iff get_put_slot
        split: token.splits)
qed (use assms(2) in \<open>simp add: nxt_def\<close>)

lemma set_prev_of_spec:
  assumes "wheel_fit w" and "prv w t \<noteq> None"
  shows "\<exists>w'. set_prev_of t v w = Some w' \<and> wheel_fit w' \<and> prv w' = (prv w)(t \<mapsto> v) \<and> nxt w' = nxt w \<and>
    timer_data w' = timer_data w \<and> w_current w' = w_current w"
proof (cases t)
  case (TEntry i)
  with assms(2) obtain e where e: "get_entry i w = Some e" by (auto simp: prv_def)
  let ?w = "put_entry i (e\<lparr>e_prev := v\<rparr>) w"
  have g: "slab_wf (w_entries ?w)" "get_entry j ?w = (if j = i then Some (e\<lparr>e_prev := v\<rparr>) else get_entry j w)" for j
    using get_put_entry [of w i] assms(1) e by (simp_all add: wheel_fit_def)
  then have "wheel_fit ?w" "prv ?w = (prv w)(t \<mapsto> v)" "nxt ?w = nxt w" "timer_data ?w = timer_data w"
    using assms(1) TEntry e
    by (auto simp: wheel_fit_def nxt_def prv_def timer_data_def fun_eq_iff split: token.splits)
  with TEntry e show ?thesis by simp
next
  case (TSlot i)
  with assms(2) obtain s where s: "get_slot i w = Some s" by (auto simp: prv_def)
  then show ?thesis
    using assms(1) TSlot
    by (auto simp: wheel_fit_def nxt_def prv_def timer_data_def fun_eq_iff get_put_slot
        split: token.splits)
qed (use assms(2) in \<open>simp add: prv_def\<close>)

lemma links_dom:
  "nxt w (TEntry i) = None \<longleftrightarrow> get_entry i w = None" "prv w (TEntry i) = None \<longleftrightarrow> get_entry i w = None"
  "timer_data w i = None \<longleftrightarrow> get_entry i w = None"
  by (simp_all add: nxt_def prv_def timer_data_def)

lemma slot_dom:
  "wheel_fit w \<Longrightarrow> nxt w (TSlot i) \<noteq> None \<longleftrightarrow> i < NUM_OF_SLOTS"
  "wheel_fit w \<Longrightarrow> prv w (TSlot i) \<noteq> None \<longleftrightarrow> i < NUM_OF_SLOTS"
  by (simp_all add: nxt_def prv_def get_slot_def wheel_fit_def)

text \<open>\<open>& self.mask\<close> is the remainder by the number of slots.\<close>

lemma mask_mod: "(n::nat) AND (NUM_OF_SLOTS - 1) = n mod NUM_OF_SLOTS"
proof -
  have "NUM_OF_SLOTS - 1 = mask 7" by (simp add: NUM_OF_SLOTS_def mask_eq_exp_minus_1)
  then have "n AND (NUM_OF_SLOTS - 1) = take_bit 7 n" by (simp add: take_bit_eq_mask)
  then show ?thesis by (simp add: take_bit_eq_mod NUM_OF_SLOTS_def)
qed

lemma effective_slot_mod:
  "wheel_fit w \<Longrightarrow> s \<le> usize_max \<Longrightarrow> effective_slot s w = s mod NUM_OF_SLOTS"
  using mask_mod [of s] by (simp add: effective_slot_def wheel_fit_def)

section \<open>The invariant\<close>

definition pred_slot :: "nat \<Rightarrow> nat" where
  "pred_slot s = (s + (NUM_OF_SLOTS - 1)) mod NUM_OF_SLOTS"

lemma pred_slot_eq: "s < NUM_OF_SLOTS \<Longrightarrow> pred_slot s = (if s = 0 then NUM_OF_SLOTS - 1 else s - 1)"
  by (cases s) (simp_all add: pred_slot_def NUM_OF_SLOTS_def mod_add_self2)

lemma pred_slot_facts:
  "s < NUM_OF_SLOTS \<Longrightarrow> pred_slot s < NUM_OF_SLOTS"
  "s < NUM_OF_SLOTS \<Longrightarrow> s' < NUM_OF_SLOTS \<Longrightarrow> pred_slot s = pred_slot s' \<Longrightarrow> s = s'"
  "s < NUM_OF_SLOTS \<Longrightarrow> pred_slot s \<noteq> s"
  "s < NUM_OF_SLOTS \<Longrightarrow> (pred_slot s + 1) mod NUM_OF_SLOTS = s"
  "s < NUM_OF_SLOTS \<Longrightarrow> pred_slot ((s + 1) mod NUM_OF_SLOTS) = s"
proof -
  show "s < NUM_OF_SLOTS \<Longrightarrow> pred_slot ((s + 1) mod NUM_OF_SLOTS) = s"
    by (cases "s = NUM_OF_SLOTS - 1") (simp_all add: pred_slot_eq NUM_OF_SLOTS_def)
qed (auto simp: pred_slot_eq NUM_OF_SLOTS_def split: if_splits)

text \<open>The tokens from one slot to the next, with the timers \<open>ids\<close> between them.\<close>

definition seg :: "nat \<Rightarrow> nat list \<Rightarrow> token list" where
  "seg s ids = TSlot (pred_slot s) # map TEntry ids @ [TSlot s]"

definition timers :: "(nat \<Rightarrow> nat list) \<Rightarrow> nat list" where
  "timers L = concat (map L [0..<NUM_OF_SLOTS])"

text \<open>
  \<open>L s\<close> are the timers of slot \<open>s\<close>, in the order they were linked; the entries in no list are
  those that have expired, but for one that is about to be linked again (\<open>X\<close>). In the middle of
  a tick the list of one slot is cut off; the others are the set \<open>S\<close>.
\<close>

definition wheel_links :: "nat set \<Rightarrow> wheel \<Rightarrow> (nat \<Rightarrow> nat list) \<Rightarrow> nat set \<Rightarrow> bool" where
  "wheel_links S w L X \<longleftrightarrow> wheel_fit w \<and> S \<subseteq> {..<NUM_OF_SLOTS} \<and> distinct (timers L) \<and>
     (\<forall>s\<in>S. path (nxt w) (prv w) (seg s (L s))) \<and>
     (\<forall>i. i \<notin> set (timers L) \<union> X \<longrightarrow> get_entry i w \<noteq> None \<longrightarrow> prv w (TEntry i) = Some TNil)"

definition wheel_inv :: "wheel \<Rightarrow> (nat \<Rightarrow> nat list) \<Rightarrow> bool" where
  "wheel_inv w L \<longleftrightarrow> wheel_links {..<NUM_OF_SLOTS} w L {}"

lemma set_timers: "set (timers L) = (\<Union>s<NUM_OF_SLOTS. set (L s))"
  by (auto simp: timers_def atLeast0LessThan)

lemma distinct_timers:
  "distinct (timers L) \<longleftrightarrow> (\<forall>s<NUM_OF_SLOTS. distinct (L s)) \<and>
     (\<forall>s<NUM_OF_SLOTS. \<forall>s'<NUM_OF_SLOTS. s \<noteq> s' \<longrightarrow> set (L s) \<inter> set (L s') = {})"
proof -
  have "distinct (concat (map L [0..<n])) \<longleftrightarrow> (\<forall>s<n. distinct (L s)) \<and>
     (\<forall>s<n. \<forall>s'<n. s \<noteq> s' \<longrightarrow> set (L s) \<inter> set (L s') = {})" for n
  proof (induction n)
    case (Suc n)
    have "set (concat (map L [0..<n])) = (\<Union>s<n. set (L s))" by (auto simp: atLeast0LessThan)
    then have "distinct (concat (map L [0..<Suc n])) \<longleftrightarrow> distinct (concat (map L [0..<n])) \<and>
        distinct (L n) \<and> (\<forall>s<n. set (L s) \<inter> set (L n) = {})"
      by (simp, blast)
    also have "\<dots> \<longleftrightarrow> (\<forall>s<Suc n. distinct (L s)) \<and>
        (\<forall>s<Suc n. \<forall>s'<Suc n. s \<noteq> s' \<longrightarrow> set (L s) \<inter> set (L s') = {})"
      unfolding Suc.IH All_less_Suc by (simp add: Int_commute) blast
    finally show ?case .
  qed simp
  then show ?thesis by (simp add: timers_def)
qed

lemma timer_linked:
  assumes "wheel_links {..<NUM_OF_SLOTS} w L X" and "i \<in> set (timers L)"
  shows "get_entry i w \<noteq> None" and "prv w (TEntry i) \<noteq> Some TNil"
proof -
  obtain s where s: "s < NUM_OF_SLOTS" "i \<in> set (L s)" using assms(2) by (auto simp: set_timers)
  then obtain xs ys where L: "L s = xs @ i # ys" by (meson split_list)
  have "path (nxt w) (prv w) (seg s (L s))" using assms(1) s by (simp add: wheel_links_def)
  then have "path (nxt w) (prv w) ((TSlot (pred_slot s) # map TEntry xs) @ TEntry i # map TEntry ys @ [TSlot s])"
    by (simp add: L seg_def)
  from path_at(1) [OF this] have p: "prv w (TEntry i) = Some (last (TSlot (pred_slot s) # map TEntry xs))"
    by simp
  then show "get_entry i w \<noteq> None" by (auto simp: prv_def)
  have "last (TSlot (pred_slot s) # map TEntry xs) \<noteq> TNil" by (simp add: last_map)
  with p show "prv w (TEntry i) \<noteq> Some TNil" by simp
qed

text \<open>A timer counts as expired exactly if it is in no list.\<close>

lemma is_expired_iff:
  assumes "wheel_inv w L" and "get_entry i w \<noteq> None"
  shows "is_expired i w = Some (i \<notin> set (timers L))"
proof -
  obtain e where e: "get_entry i w = Some e" using assms(2) by blast
  have "i \<notin> set (timers L) \<Longrightarrow> prv w (TEntry i) = Some TNil"
    using assms by (simp add: wheel_inv_def wheel_links_def)
  with e timer_linked(2) [OF assms(1) [unfolded wheel_inv_def], of i] show ?thesis
    by (auto simp: is_expired_def prv_def)
qed

section \<open>Linking and unlinking\<close>

lemma timers_update:
  assumes "s < NUM_OF_SLOTS"
  shows "set (timers (L(s := ids))) = set ids \<union> (\<Union>s'\<in>{..<NUM_OF_SLOTS} - {s}. set (L s'))"
    and "distinct (timers L) \<Longrightarrow> distinct ids \<Longrightarrow>
      (\<And>s'. s' < NUM_OF_SLOTS \<Longrightarrow> s' \<noteq> s \<Longrightarrow> set ids \<inter> set (L s') = {}) \<Longrightarrow> distinct (timers (L(s := ids)))"
proof -
  show "set (timers (L(s := ids))) = set ids \<union> (\<Union>s'\<in>{..<NUM_OF_SLOTS} - {s}. set (L s'))"
    using assms unfolding set_timers by (fastforce split: if_splits)
  assume "distinct (timers L)" "distinct ids"
    "\<And>s'. s' < NUM_OF_SLOTS \<Longrightarrow> s' \<noteq> s \<Longrightarrow> set ids \<inter> set (L s') = {}"
  then show "distinct (timers (L(s := ids)))"
    unfolding distinct_timers by (simp add: Int_commute)
qed

lemma last_seg: "last (TSlot p # map TEntry ids) = (if ids = [] then TSlot p else TEntry (last ids))"
  by (simp add: last_map)

lemma seg_ends: "butlast (seg s ids) = TSlot (pred_slot s) # map TEntry ids"
  "tl (seg s ids) = map TEntry ids @ [TSlot s]"
  by (simp_all add: seg_def butlast_append)

lemma link_last:
  assumes l: "wheel_links S w L X" and sS: "s \<in> S" and "x \<notin> set (timers L)" and "wheel_fit w'"
    and a: "a = last (TSlot (pred_slot s) # map TEntry (L s))"
    and N: "nxt w' = (nxt w)(TEntry x \<mapsto> TSlot s, a \<mapsto> TEntry x)"
    and P: "prv w' = (prv w)(TEntry x \<mapsto> a, TSlot s \<mapsto> TEntry x)"
  shows "wheel_links S w' (L(s := L s @ [x])) (X - {x})"
proof -
  have lt: "t < NUM_OF_SLOTS" if "t \<in> S" for t using l that by (auto simp: wheel_links_def)
  note s = lt [OF sS]
  have d: "distinct (timers L)" and paths: "\<And>s. s \<in> S \<Longrightarrow> path (nxt w) (prv w) (seg s (L s))"
    using l by (simp_all add: wheel_links_def)
  have x: "x \<notin> set (L s')" if "s' < NUM_OF_SLOTS" for s'
    using assms(3) that by (auto simp: set_timers)
  have ax: "a \<noteq> TEntry x" using x [OF s] by (auto simp: a last_map)
  have other: "path (nxt w') (prv w') (seg s' (L s'))" if s': "s' \<in> S" "s' \<noteq> s" for s'
  proof (rule path_cong [OF _ _ paths [OF s'(1)]])
    have "set (L s) \<inter> set (L s') = {}" "pred_slot s \<noteq> pred_slot s'"
      using d s' lt s pred_slot_facts(2) by (auto simp: distinct_timers)
    then show "\<forall>t\<in>set (butlast (seg s' (L s'))). nxt w' t = nxt w t"
      using x [OF lt [OF s'(1)]] last_in_set [of "L s"] by (auto simp: N seg_ends a last_map disjoint_iff)
    show "\<forall>t\<in>set (tl (seg s' (L s'))). prv w' t = prv w t"
      using x [OF lt [OF s'(1)]] s'(2) by (auto simp: P seg_ends)
  qed
  have own: "path (nxt w') (prv w') (seg s (L s @ [x]))"
  proof -
    have p: "path (nxt w) (prv w) ((TSlot (pred_slot s) # map TEntry (L s)) @ [TSlot s])"
      using paths [OF sS] by (simp add: seg_def)
    have q: "a \<notin> set (butlast (TSlot (pred_slot s) # map TEntry (L s)))"
      using d s by (cases "L s" rule: rev_cases) (auto simp: a distinct_timers)
    have r: "TEntry x \<notin> set (butlast (TSlot (pred_slot s) # map TEntry (L s)))"
      using x [OF s] by (auto dest: in_set_butlastD)
    have "path (nxt w') (prv w') ((TSlot (pred_slot s) # map TEntry (L s)) @ [TEntry x, TSlot s])"
      by (rule path_insert [OF p], unfold a [symmetric])
        (use ax q r x [OF s] in \<open>auto simp: N P\<close>)
    then show ?thesis by (simp add: seg_def)
  qed
  have "set (timers (L(s := L s @ [x]))) = insert x (set (timers L))"
    unfolding timers_update(1) [OF s] unfolding set_timers using s by auto
  moreover have "get_entry i w' \<noteq> None \<longleftrightarrow> get_entry i w \<noteq> None" "prv w' (TEntry i) = prv w (TEntry i)"
    if "i \<noteq> x" for i
    using links_dom(2) [of w' i] links_dom(2) [of w i] that by (simp_all add: P)
  moreover have "distinct (timers (L(s := L s @ [x])))"
    using d s x by (intro timers_update(2)) (auto simp: distinct_timers)
  ultimately show ?thesis
    using l assms(4) own other by (auto simp: wheel_links_def)
qed

lemma unlink:
  assumes "wheel_links {..<NUM_OF_SLOTS} w L X" and "s < NUM_OF_SLOTS" and L: "L s = xs @ x # ys" and "wheel_fit w'"
    and a: "a = last (TSlot (pred_slot s) # map TEntry xs)" and b: "b = hd (map TEntry ys @ [TSlot s])"
    and N: "\<And>t. t \<noteq> TEntry x \<Longrightarrow> nxt w' t = ((nxt w)(a \<mapsto> b)) t"
    and P: "\<And>t. t \<noteq> TEntry x \<Longrightarrow> prv w' t = ((prv w)(b \<mapsto> a)) t"
  shows "wheel_links {..<NUM_OF_SLOTS} w' (L(s := xs @ ys)) (insert x X)"
proof -
  have d: "distinct (timers L)" and paths: "\<And>s. s < NUM_OF_SLOTS \<Longrightarrow> path (nxt w) (prv w) (seg s (L s))"
    using assms(1) by (simp_all add: wheel_links_def)
  have dist: "distinct (xs @ x # ys)" "\<And>s'. s' < NUM_OF_SLOTS \<Longrightarrow> s' \<noteq> s \<Longrightarrow> set (xs @ x # ys) \<inter> set (L s') = {}"
    using d assms(2) L by (metis distinct_timers)+
  have a': "a = (if xs = [] then TSlot (pred_slot s) else TEntry (last xs))"
    and b': "b = (if ys = [] then TSlot s else TEntry (hd ys))"
    by (simp_all add: a b last_map hd_append hd_map)
  have other: "path (nxt w') (prv w') (seg s' (L s'))" if s': "s' < NUM_OF_SLOTS" "s' \<noteq> s" for s'
  proof (rule path_cong [OF _ _ paths [OF s'(1)]])
    have "pred_slot s \<noteq> pred_slot s'" using s' assms(2) pred_slot_facts(2) by blast
    then have "\<forall>t\<in>set (butlast (seg s' (L s'))). t \<noteq> TEntry x \<and> t \<noteq> a"
      using dist(2) [OF s'] last_in_set [of xs] by (auto simp: seg_ends a' disjoint_iff)
    then show "\<forall>t\<in>set (butlast (seg s' (L s'))). nxt w' t = nxt w t" by (simp add: N)
    have "\<forall>t\<in>set (tl (seg s' (L s'))). t \<noteq> TEntry x \<and> t \<noteq> b"
      using dist(2) [OF s'] s'(2) hd_in_set [of ys] by (auto simp: seg_ends b' disjoint_iff)
    then show "\<forall>t\<in>set (tl (seg s' (L s'))). prv w' t = prv w t" by (simp add: P)
  qed
  have own: "path (nxt w') (prv w') (seg s (xs @ ys))"
  proof -
    let ?H = "TSlot (pred_slot s) # map TEntry xs" and ?T = "map TEntry ys @ [TSlot s]"
    have "path (nxt w) (prv w) (?H @ TEntry x # ?T)"
      using paths [OF assms(2)] by (simp add: seg_def L)
    then have "path (nxt w') (prv w') (?H @ ?T)"
    proof (rule path_remove)
      have "a \<noteq> TEntry x" "b \<noteq> TEntry x"
        using dist(1) last_in_set [of xs] hd_in_set [of ys] by (auto simp: a' b')
      then show "nxt w' (last ?H) = Some (hd ?T)" "prv w' (hd ?T) = Some (last ?H)"
        unfolding a [symmetric] b [symmetric] by (simp_all add: N P)
      have "a \<notin> set (butlast ?H) \<union> set (butlast ?T)" "TEntry x \<notin> set (butlast ?H) \<union> set (butlast ?T)"
        using dist(1) by (cases xs rule: rev_cases; auto simp: a' butlast_append dest: in_set_butlastD)+
      then show "\<forall>t\<in>set (butlast ?H) \<union> set (butlast ?T). nxt w' t = nxt w t"
        using N by (metis fun_upd_apply)
      have "b \<notin> set (tl ?H) \<union> set (tl ?T)" "TEntry x \<notin> set (tl ?H) \<union> set (tl ?T)"
        using dist(1) by (cases ys; auto simp: b')+
      then show "\<forall>t\<in>set (tl ?H) \<union> set (tl ?T). prv w' t = prv w t"
        using P by (metis fun_upd_apply)
    qed simp_all
    then show ?thesis by (simp add: seg_def)
  qed
  have set: "set (timers (L(s := xs @ ys))) = set (timers L) - {x}"
  proof -
    have "set (timers L) = set (L s) \<union> (\<Union>s'\<in>{..<NUM_OF_SLOTS} - {s}. set (L s'))"
      unfolding set_timers using assms(2) by auto
    moreover have "x \<notin> (\<Union>s'\<in>{..<NUM_OF_SLOTS} - {s}. set (L s'))" "x \<notin> set xs \<union> set ys"
      using dist by (auto simp: disjoint_iff)
    ultimately show ?thesis unfolding timers_update(1) [OF assms(2)] L by auto
  qed
  moreover have "get_entry i w' \<noteq> None \<longleftrightarrow> get_entry i w \<noteq> None" "prv w' (TEntry i) = prv w (TEntry i)"
    if "i \<notin> set (timers L)" "get_entry i w' \<noteq> None" for i
  proof -
    have "i \<notin> set (L s)" using that(1) assms(2) by (auto simp: set_timers)
    then have "i \<noteq> x" "b \<noteq> TEntry i"
      using L hd_in_set [of ys] by (auto simp: b')
    then show "get_entry i w' \<noteq> None \<longleftrightarrow> get_entry i w \<noteq> None" "prv w' (TEntry i) = prv w (TEntry i)"
      using links_dom(2) [of w' i] links_dom(2) [of w i] by (simp_all add: P)
  qed
  moreover have "distinct (timers (L(s := xs @ ys)))"
    using d assms(2) dist L by (intro timers_update(2)) auto
  ultimately show ?thesis
    using assms(1,4) own other by (auto simp: wheel_links_def)
qed

section \<open>Scheduling, rescheduling and cancelling\<close>

lemma seg_last:
  assumes "wheel_links S w L X" and "s \<in> S" and a: "a = last (TSlot (pred_slot s) # map TEntry (L s))"
  shows "prv w (TSlot s) = Some a" and "nxt w a = Some (TSlot s)"
proof -
  have "path (nxt w) (prv w) ((TSlot (pred_slot s) # map TEntry (L s)) @ TSlot s # [])"
    using assms(1,2) by (simp add: wheel_links_def seg_def)
  from path_at(1) [OF this] show "prv w (TSlot s) = Some a" by (simp add: a)
  have "path (nxt w) (prv w) (butlast (TSlot (pred_slot s) # map TEntry (L s)) @ a # [TSlot s])"
    using assms(1,2) by (metis (no_types, lifting) a append.assoc append_Cons append_butlast_last_id
        append_self_conv2 list.distinct(1) seg_def wheel_links_def)
  from path_at(2) [OF this] show "nxt w a = Some (TSlot s)" by simp
qed

text \<open>The second half of \<open>schedule\<close> and \<open>reschedule_internal\<close>: the entry points, the ring follows.\<close>

lemma link_steps:
  assumes "wheel_links S w L X" and "s \<in> S" and "x \<notin> set (timers L)" and "wheel_fit w0"
    and a: "prv w (TSlot s) = Some a"
    and N: "nxt w0 = (nxt w)(TEntry x \<mapsto> TSlot s)" and P: "prv w0 = (prv w)(TEntry x \<mapsto> a)"
  shows "\<exists>w1 w2. set_next_of a (TEntry x) w0 = Some w1 \<and> set_prev_of (TSlot s) (TEntry x) w1 = Some w2 \<and>
    wheel_links S w2 (L(s := L s @ [x])) (X - {x}) \<and> timer_data w2 = timer_data w0 \<and> w_current w2 = w_current w0 \<and>
    (\<forall>t. t \<noteq> TEntry x \<longrightarrow> t \<notin> set (butlast (seg s (L s))) \<longrightarrow> nxt w2 t = nxt w t) \<and>
    (\<forall>t. t \<noteq> TEntry x \<longrightarrow> t \<noteq> TSlot s \<longrightarrow> prv w2 t = prv w t)"
proof -
  have last: "a = last (TSlot (pred_slot s) # map TEntry (L s))" "nxt w a = Some (TSlot s)"
    using seg_last [OF assms(1,2) refl] a by auto
  have "nxt w0 a \<noteq> None" using last(2) by (simp add: N)
  then obtain w1 where w1: "set_next_of a (TEntry x) w0 = Some w1" "wheel_fit w1"
    "nxt w1 = (nxt w0)(a \<mapsto> TEntry x)" "prv w1 = prv w0" "timer_data w1 = timer_data w0" "w_current w1 = w_current w0"
    using set_next_of_spec [OF assms(4)] by blast
  have "prv w1 (TSlot s) \<noteq> None" using a by (simp add: w1 P)
  then obtain w2 where w2: "set_prev_of (TSlot s) (TEntry x) w1 = Some w2" "wheel_fit w2"
    "prv w2 = (prv w1)(TSlot s \<mapsto> TEntry x)" "nxt w2 = nxt w1" "timer_data w2 = timer_data w1" "w_current w2 = w_current w1"
    using set_prev_of_spec [OF w1(2)] by blast
  have "wheel_links S w2 (L(s := L s @ [x])) (X - {x})"
    by (rule link_last [OF assms(1-3) w2(2) last(1)]) (simp_all add: w1 w2 N P)
  moreover have "a \<in> set (butlast (seg s (L s)))" unfolding seg_ends last(1) by (rule last_in_set) simp
  then have "\<forall>t. t \<noteq> TEntry x \<longrightarrow> t \<notin> set (butlast (seg s (L s))) \<longrightarrow> nxt w2 t = nxt w t"
    by (metis N fun_upd_other w1(3) w2(4))
  moreover have "\<forall>t. t \<noteq> TEntry x \<longrightarrow> t \<noteq> TSlot s \<longrightarrow> prv w2 t = prv w t" by (simp add: w2 w1 P)
  ultimately show ?thesis using w1 w2 by auto
qed

definition timeout_slot :: "nat \<Rightarrow> nat \<Rightarrow> nat" where
  "timeout_slot current secs = (current + min secs (NUM_OF_SLOTS - 1)) mod NUM_OF_SLOTS"

lemma timeout_slot_eq:
  assumes "wheel_fit w"
  shows "effective_slot (w_current w + min secs (NUM_OF_SLOTS - 1)) w = timeout_slot (w_current w) secs"
    and "timeout_slot (w_current w) secs < NUM_OF_SLOTS"
proof -
  have "w_current w + min secs (NUM_OF_SLOTS - 1) \<le> usize_max"
  proof -
    have "w_current w < 128" "min secs (NUM_OF_SLOTS - 1) \<le> 127"
      using assms by (simp_all add: wheel_fit_def NUM_OF_SLOTS_def)
    then have "w_current w + min secs (NUM_OF_SLOTS - 1) \<le> 255" by linarith
    also have "255 \<le> usize_max" by (simp add: usize_max_def)
    finally show ?thesis .
  qed
  then show "effective_slot (w_current w + min secs (NUM_OF_SLOTS - 1)) w = timeout_slot (w_current w) secs"
    using effective_slot_mod [OF assms] by (simp add: timeout_slot_def)
  show "timeout_slot (w_current w) secs < NUM_OF_SLOTS"
    by (simp add: timeout_slot_def NUM_OF_SLOTS_def)
qed

lemma wheel_schedule_spec:
  assumes inv: "wheel_inv w L" and "card (dom (slab_map (w_entries w))) < INVALID_INDEX"
  shows "\<exists>id w'. wheel_schedule now dur task w = Some (id, w') \<and> get_entry id w = None \<and>
    (let s = timeout_slot (w_current w) (as_secs dur) in wheel_inv w' (L(s := L s @ [id]))) \<and>
    timer_data w' = (timer_data w)(id \<mapsto>
      (task, if as_secs dur > NUM_OF_SLOTS - 1 then Some (now + dur) else None)) \<and>
    w_current w' = w_current w"
proof -
  have l: "wheel_links {..<NUM_OF_SLOTS} w L {}" and fit: "wheel_fit w" using inv by (simp_all add: wheel_inv_def wheel_links_def)
  have m: "w_mask w = NUM_OF_SLOTS - 1" using fit by (simp add: wheel_fit_def)
  let ?s = "timeout_slot (w_current w) (as_secs dur)"
  let ?exp = "if as_secs dur > NUM_OF_SLOTS - 1 then Some (now + dur) else None"
  have s: "?s \<in> {..<NUM_OF_SLOTS}" using timeout_slot_eq(2) [OF fit] by simp
  define a where "a = last (TSlot (pred_slot ?s) # map TEntry (L ?s))"
  have a: "prv w (TSlot ?s) = Some a" using seg_last [OF l s a_def] by simp
  then obtain sl where sl: "get_slot ?s w = Some sl" "s_prev sl = a" by (auto simp: prv_def)
  let ?e = "(entry_new task)\<lparr>e_exp := ?exp, e_prev := a, e_next := TSlot ?s\<rparr>"
  obtain id es where ins: "slab_insert ?e (w_entries w) = (Ok id, es)" "slab_wf es"
    "id \<notin> dom (slab_map (w_entries w))" "slab_map es = (slab_map (w_entries w))(id \<mapsto> ?e)"
    using slab_insert_spec [OF _ assms(2)] fit by (metis wheel_fit_def)
  let ?w0 = "w\<lparr>w_entries := es\<rparr>"
  have g: "get_entry i ?w0 = (if i = id then Some ?e else get_entry i w)" for i
    by (simp add: get_entry_map ins(4))
  have new: "get_entry id w = None" using ins(3) by (auto simp: get_entry_map)
  have fit0: "wheel_fit ?w0" using fit ins(2) by (simp add: wheel_fit_def)
  have N: "nxt ?w0 = (nxt w)(TEntry id \<mapsto> TSlot ?s)" and P: "prv ?w0 = (prv w)(TEntry id \<mapsto> a)"
    and D: "timer_data ?w0 = (timer_data w)(id \<mapsto> (task, ?exp))"
    by (auto simp: nxt_def prv_def timer_data_def fun_eq_iff g get_slot_def entry_new_def split: token.splits)
  have "id \<notin> set (timers L)" using timer_linked(1) [OF l] new by blast
  from link_steps [OF l s this fit0 a N P] obtain w1 w2 where w:
    "set_next_of a (TEntry id) ?w0 = Some w1" "set_prev_of (TSlot ?s) (TEntry id) w1 = Some w2"
    "wheel_inv w2 (L(?s := L ?s @ [id]))" "timer_data w2 = timer_data ?w0" "w_current w2 = w_current w"
    by (auto simp: wheel_inv_def)
  have t: "(if as_secs dur > w_mask w then (w_mask w, Some (now + dur)) else (as_secs dur, None)) =
      (min (as_secs dur) (NUM_OF_SLOTS - 1), ?exp)"
    by (simp add: m)
  have "wheel_schedule now dur task w = Some (id, w2)"
    unfolding wheel_schedule_def Let_def t using timeout_slot_eq(1) [OF fit] sl ins(1) w(1,2)
    by (simp del: set_next_of.simps set_prev_of.simps)
  with w new D show ?thesis by (simp add: Let_def)
qed

text \<open>Linking an expired entry again.\<close>

lemma reschedule_internal_spec:
  assumes l: "wheel_links S w L X" and sS: "timeout_slot (w_current w) (round_to_secs dur) \<in> S" and x: "x \<notin> set (timers L)" and e: "timer_data w x = Some (task, old)"
  shows "\<exists>w'. reschedule_internal now dur exp x w = Some w' \<and>
    (let s = timeout_slot (w_current w) (round_to_secs dur) in wheel_links S w' (L(s := L s @ [x])) (X - {x})) \<and>
    timer_data w' = (timer_data w)(x \<mapsto> (task, if round_to_secs dur > NUM_OF_SLOTS - 1
      then Some (case exp of None \<Rightarrow> now + dur | Some t \<Rightarrow> t) else old)) \<and>
    w_current w' = w_current w \<and>
    (let s = timeout_slot (w_current w) (round_to_secs dur) in
      (\<forall>t. t \<noteq> TEntry x \<longrightarrow> t \<notin> set (butlast (seg s (L s))) \<longrightarrow> nxt w' t = nxt w t) \<and>
      (\<forall>t. t \<noteq> TEntry x \<longrightarrow> t \<noteq> TSlot s \<longrightarrow> prv w' t = prv w t))"
proof -
  have fit: "wheel_fit w" using l by (simp add: wheel_links_def)
  have m: "w_mask w = NUM_OF_SLOTS - 1" using fit by (simp add: wheel_fit_def)
  obtain en where en: "get_entry x w = Some en" "e_task en = task" "e_exp en = old"
    using e by (auto simp: timer_data_def)
  let ?s = "timeout_slot (w_current w) (round_to_secs dur)"
  let ?exp = "if round_to_secs dur > NUM_OF_SLOTS - 1 then Some (case exp of None \<Rightarrow> now + dur | Some t \<Rightarrow> t) else old"
  let ?w = "put_entry x (en\<lparr>e_exp := ?exp\<rparr>) w"
  define a where "a = last (TSlot (pred_slot ?s) # map TEntry (L ?s))"
  have a: "prv w (TSlot ?s) = Some a" using seg_last [OF l sS a_def] by simp
  then obtain sl where sl: "get_slot ?s w = Some sl" "s_prev sl = a" by (auto simp: prv_def)
  have wf: "slab_wf (w_entries w)" "get_entry x w \<noteq> None" using fit en(1) by (simp_all add: wheel_fit_def)
  have g: "get_entry i (put_entry x v w) = (if i = x then Some v else get_entry i w)" "wheel_fit (put_entry x v w)" for i v
    using get_put_entry [OF wf] fit by (simp_all add: wheel_fit_def)
  have put2: "put_entry x v (put_entry x u w) = put_entry x v w" for u v
    using en(1) by (simp add: put_entry_def slab_set_def get_entry_def slab_get_Some_iff split: option.splits)
      (auto simp: slab_get_def split: if_splits object.splits)
  let ?w0 = "put_entry x (en\<lparr>e_exp := ?exp, e_prev := a, e_next := TSlot ?s\<rparr>) w"
  have N: "nxt ?w0 = (nxt w)(TEntry x \<mapsto> TSlot ?s)" and P: "prv ?w0 = (prv w)(TEntry x \<mapsto> a)"
    and D: "timer_data ?w0 = (timer_data w)(x \<mapsto> (task, ?exp))"
    using en by (auto simp: nxt_def prv_def timer_data_def fun_eq_iff g split: token.splits)
  from link_steps [OF l sS x g(2) a N P] obtain w1 w2 where w:
    "set_next_of a (TEntry x) ?w0 = Some w1" "set_prev_of (TSlot ?s) (TEntry x) w1 = Some w2"
    "wheel_links S w2 (L(?s := L ?s @ [x])) (X - {x})" "timer_data w2 = timer_data ?w0" "w_current w2 = w_current w"
    "\<forall>t. t \<noteq> TEntry x \<longrightarrow> t \<notin> set (butlast (seg ?s (L ?s))) \<longrightarrow> nxt w2 t = nxt w t"
    "\<forall>t. t \<noteq> TEntry x \<longrightarrow> t \<noteq> TSlot ?s \<longrightarrow> prv w2 t = prv w t"
    by auto
  have "reschedule_internal now dur exp x w = Some w2"
  proof (cases "round_to_secs dur > NUM_OF_SLOTS - 1")
    case True
    then have "min (round_to_secs dur) (NUM_OF_SLOTS - 1) = NUM_OF_SLOTS - 1" by simp
    then show ?thesis
      using True timeout_slot_eq(1) [OF fit, of "round_to_secs dur"] sl w(1,2) en g
      by (cases exp) (simp_all add: reschedule_internal_def Let_def m put2 effective_slot_def
          del: set_next_of.simps set_prev_of.simps)
  next
    case False
    then have t: "min (round_to_secs dur) (NUM_OF_SLOTS - 1) = round_to_secs dur" by simp
    have f: "?exp = old" "\<not> round_to_secs dur > w_mask w" using False m by simp_all
    have "en\<lparr>e_exp := old\<rparr> = en" using en(3) by (cases en) auto
    then have "?w0 = put_entry x (en\<lparr>e_prev := a, e_next := TSlot ?s\<rparr>) w" by (simp only: f(1))
    then have "set_next_of a (TEntry x) (put_entry x (en\<lparr>e_prev := a, e_next := TSlot ?s\<rparr>) w) = Some w1"
      using w(1) by (simp only:)
    with f(2) show ?thesis
      using timeout_slot_eq(1) [OF fit, of "round_to_secs dur"] sl w(2) en(1) t
      by (simp add: reschedule_internal_def Let_def del: set_next_of.simps set_prev_of.simps)
  qed
  with w D show ?thesis by (simp add: Let_def)
qed

text \<open>Taking a linked timer out of its list: the two \<open>match\<close>es of \<open>cancel\<close> and \<open>reschedule\<close>.\<close>

definition without :: "nat \<Rightarrow> (nat \<Rightarrow> nat list) \<Rightarrow> nat \<Rightarrow> nat list" where
  "without x L = (\<lambda>s. removeAll x (L s))"

lemma wheel_links_cong:
  assumes "\<And>s. s < NUM_OF_SLOTS \<Longrightarrow> L' s = L s"
  shows "wheel_links S w L' X \<longleftrightarrow> wheel_links S w L X"
proof -
  have "map L' [0..<NUM_OF_SLOTS] = map L [0..<NUM_OF_SLOTS]" using assms by simp
  then have "timers L' = timers L" by (simp only: timers_def)
  moreover have "(\<forall>s\<in>S. path (nxt w) (prv w) (seg s (L' s))) \<longleftrightarrow> (\<forall>s\<in>S. path (nxt w) (prv w) (seg s (L s)))"
    if "S \<subseteq> {..<NUM_OF_SLOTS}"
    using that assms by (metis lessThan_iff subsetD)
  ultimately show ?thesis unfolding wheel_links_def by (simp cong: conj_cong)
qed

lemma without_absent: "x \<notin> set (timers L) \<Longrightarrow> s < NUM_OF_SLOTS \<Longrightarrow> without x L s = L s"
  by (simp add: without_def set_timers)

lemma timers_without: "set (timers (without x L)) = set (timers L) - {x}"
  by (auto simp: set_timers without_def)

lemma linked_place:
  assumes "wheel_links {..<NUM_OF_SLOTS} w L X" and "x \<in> set (timers L)"
  obtains s xs ys where "s < NUM_OF_SLOTS" and "L s = xs @ x # ys"
    and "prv w (TEntry x) = Some (last (TSlot (pred_slot s) # map TEntry xs))"
    and "nxt w (TEntry x) = Some (hd (map TEntry ys @ [TSlot s]))"
    and "\<And>t. t < NUM_OF_SLOTS \<Longrightarrow> (L(s := xs @ ys)) t = without x L t"
proof -
  obtain s where s: "s < NUM_OF_SLOTS" "x \<in> set (L s)" using assms(2) by (auto simp: set_timers)
  then obtain xs ys where L: "L s = xs @ x # ys" by (meson split_list)
  have "path (nxt w) (prv w) (seg s (L s))" using assms(1) s by (simp add: wheel_links_def)
  then have "path (nxt w) (prv w) ((TSlot (pred_slot s) # map TEntry xs) @ TEntry x # map TEntry ys @ [TSlot s])"
    by (simp add: L seg_def)
  from path_at [OF this] have p: "prv w (TEntry x) = Some (last (TSlot (pred_slot s) # map TEntry xs))"
    "nxt w (TEntry x) = Some (hd (map TEntry ys @ [TSlot s]))" by simp_all
  have "distinct (timers L)" using assms(1) by (simp add: wheel_links_def)
  then have "distinct (xs @ x # ys)" "\<And>t. t < NUM_OF_SLOTS \<Longrightarrow> t \<noteq> s \<Longrightarrow> x \<notin> set (L t)"
  proof -
    have "distinct (L s)" using \<open>distinct (timers L)\<close> s by (simp add: distinct_timers)
    then show "distinct (xs @ x # ys)" by (simp only: L)
    fix t assume "t < NUM_OF_SLOTS" "t \<noteq> s"
    then have "set (L t) \<inter> set (L s) = {}" using \<open>distinct (timers L)\<close> s by (simp add: distinct_timers)
    then show "x \<notin> set (L t)" using s by auto
  qed
  then have "(L(s := xs @ ys)) t = without x L t" if "t < NUM_OF_SLOTS" for t
    using L that by (auto simp: without_def)
  with that s L p show thesis by blast
qed

lemma unlink_steps:
  assumes l: "wheel_links {..<NUM_OF_SLOTS} w L X" and x: "x \<in> set (timers L)" and fit: "wheel_fit w0"
    and N: "\<And>t. t \<noteq> TEntry x \<Longrightarrow> nxt w0 t = nxt w t" and P: "\<And>t. t \<noteq> TEntry x \<Longrightarrow> prv w0 t = prv w t"
    and a: "prv w (TEntry x) = Some a" and b: "nxt w (TEntry x) = Some b"
  shows "\<exists>w1 w2. set_next_of a b w0 = Some w1 \<and> set_prev_of b a w1 = Some w2 \<and>
    wheel_links {..<NUM_OF_SLOTS} w2 (without x L) (insert x X) \<and> timer_data w2 = timer_data w0 \<and> w_current w2 = w_current w0"
proof -
  obtain s xs ys where s: "s < NUM_OF_SLOTS" "L s = xs @ x # ys"
    and a': "a = last (TSlot (pred_slot s) # map TEntry xs)" and b': "b = hd (map TEntry ys @ [TSlot s])"
    and L': "\<And>t. t < NUM_OF_SLOTS \<Longrightarrow> (L(s := xs @ ys)) t = without x L t"
    using linked_place [OF l x] a b by (metis option.inject)
  have p: "path (nxt w) (prv w) ((TSlot (pred_slot s) # map TEntry xs) @ TEntry x # map TEntry ys @ [TSlot s])"
  proof -
    have "path (nxt w) (prv w) (seg s (L s))" using l s(1) by (simp add: wheel_links_def)
    then show ?thesis by (simp add: seg_def s(2))
  qed
  have "distinct (timers L)" using l by (simp add: wheel_links_def)
  then have d: "x \<notin> set xs" "x \<notin> set ys" using s by (metis distinct_timers distinct.simps(2)
        distinct_append disjoint_iff list.set_intros(1))+
  have ab: "a \<noteq> TEntry x" "b \<noteq> TEntry x"
    using d last_in_set [of xs] hd_in_set [of ys] by (auto simp: a' b' last_map hd_append hd_map)
  have "nxt w a \<noteq> None"
  proof -
    have "path (nxt w) (prv w) (butlast (TSlot (pred_slot s) # map TEntry xs) @ a # TEntry x # map TEntry ys @ [TSlot s])"
      using p by (metis a' append.assoc append_Cons append_Nil append_butlast_last_id list.distinct(1))
    from path_at(2) [OF this] show ?thesis by simp
  qed
  then obtain w1 where w1: "set_next_of a b w0 = Some w1" "wheel_fit w1" "nxt w1 = (nxt w0)(a \<mapsto> b)"
    "prv w1 = prv w0" "timer_data w1 = timer_data w0" "w_current w1 = w_current w0"
    using set_next_of_spec [OF fit] N [OF ab(1)] by metis
  have "prv w b \<noteq> None"
  proof -
    have "path (nxt w) (prv w) ((TSlot (pred_slot s) # map TEntry xs @ [TEntry x]) @ b # tl (map TEntry ys @ [TSlot s]))"
      using p by (simp add: b' hd_append split: list.splits) (cases ys; simp)
    from path_at(1) [OF this] show ?thesis by simp
  qed
  then obtain w2 where w2: "set_prev_of b a w1 = Some w2" "wheel_fit w2" "prv w2 = (prv w1)(b \<mapsto> a)"
    "nxt w2 = nxt w1" "timer_data w2 = timer_data w1" "w_current w2 = w_current w1"
    using set_prev_of_spec [OF w1(2)] P [OF ab(2)] w1(4) by metis
  have "wheel_links {..<NUM_OF_SLOTS} w2 (L(s := xs @ ys)) (insert x X)"
    by (rule unlink [OF l s w2(2) a' b']) (simp_all add: w1 w2 N P)
  then have "wheel_links {..<NUM_OF_SLOTS} w2 (without x L) (insert x X)"
    using wheel_links_cong [OF L'] by simp
  with w1 w2 show ?thesis by auto
qed

lemma wheel_reschedule_spec:
  assumes inv: "wheel_inv w L" and e: "timer_data w x = Some (task, old)"
  shows "wheel_reschedule now dur x w \<noteq> None \<longleftrightarrow> x \<in> set (timers L)"
    and "wheel_reschedule now dur x w = Some w' \<Longrightarrow>
      (let s = timeout_slot (w_current w) (round_to_secs dur); L1 = without x L
       in wheel_inv w' (L1(s := L1 s @ [x]))) \<and>
      timer_data w' = (timer_data w)(x \<mapsto> (task, if round_to_secs dur > NUM_OF_SLOTS - 1
        then Some (now + dur) else old)) \<and> w_current w' = w_current w"
proof -
  have l: "wheel_links {..<NUM_OF_SLOTS} w L {}" and fit: "wheel_fit w" using inv by (simp_all add: wheel_inv_def wheel_links_def)
  obtain en where en: "get_entry x w = Some en" using e by (auto simp: timer_data_def)
  have pn: "prv w (TEntry x) = Some (e_prev en)" "nxt w (TEntry x) = Some (e_next en)"
    by (simp_all add: prv_def nxt_def en)
  have linked: "\<exists>w'. wheel_reschedule now dur x w = Some w' \<and>
      (let s = timeout_slot (w_current w) (round_to_secs dur); L1 = without x L
       in wheel_inv w' (L1(s := L1 s @ [x]))) \<and>
      timer_data w' = (timer_data w)(x \<mapsto> (task, if round_to_secs dur > NUM_OF_SLOTS - 1
        then Some (now + dur) else old)) \<and> w_current w' = w_current w" if x: "x \<in> set (timers L)"
  proof -
    obtain w1 w2 where w: "set_next_of (e_prev en) (e_next en) w = Some w1"
      "set_prev_of (e_next en) (e_prev en) w1 = Some w2" "wheel_links {..<NUM_OF_SLOTS} w2 (without x L) {x}"
      "timer_data w2 = timer_data w" "w_current w2 = w_current w"
      using unlink_steps [OF l x fit refl refl pn] by auto
    have "wheel_fit w2" using w(3) by (simp add: wheel_links_def)
    from timeout_slot_eq(2) [OF this, of "round_to_secs dur"]
    obtain w3 where "reschedule_internal now dur None x w2 = Some w3"
      "let s = timeout_slot (w_current w2) (round_to_secs dur) in
        wheel_links {..<NUM_OF_SLOTS} w3 ((without x L)(s := without x L s @ [x])) ({x} - {x})"
      "timer_data w3 = (timer_data w2)(x \<mapsto> (task, if round_to_secs dur > NUM_OF_SLOTS - 1
        then Some (now + dur) else old))" "w_current w3 = w_current w2"
      using reschedule_internal_spec [OF w(3), of dur x task old now None] e w(4) timers_without [of x L] by auto
    with w en show ?thesis by (simp add: wheel_reschedule_def wheel_inv_def Let_def)
  qed
  have "wheel_reschedule now dur x w = None" if "x \<notin> set (timers L)"
  proof -
    have "e_prev en = TNil" using that pn(1) en l by (simp add: wheel_links_def)
    then show ?thesis by (simp add: wheel_reschedule_def en)
  qed
  with linked show "wheel_reschedule now dur x w \<noteq> None \<longleftrightarrow> x \<in> set (timers L)" by (metis option.distinct(1))
  from this linked show "wheel_reschedule now dur x w = Some w' \<Longrightarrow>
      (let s = timeout_slot (w_current w) (round_to_secs dur); L1 = without x L
       in wheel_inv w' (L1(s := L1 s @ [x]))) \<and>
      timer_data w' = (timer_data w)(x \<mapsto> (task, if round_to_secs dur > NUM_OF_SLOTS - 1
        then Some (now + dur) else old)) \<and> w_current w' = w_current w"
    by (metis option.distinct(1) option.inject)
qed

lemma wheel_cancel_spec:
  assumes inv: "wheel_inv w L" and "get_entry x w \<noteq> None"
  shows "\<exists>w'. wheel_cancel x w = Some w' \<and> wheel_inv w' (without x L) \<and>
    timer_data w' = (timer_data w)(x := None) \<and> w_current w' = w_current w"
proof -
  have l: "wheel_links {..<NUM_OF_SLOTS} w L {}" and fit: "wheel_fit w" using inv by (simp_all add: wheel_inv_def wheel_links_def)
  obtain en where en: "get_entry x w = Some en" using assms(2) by auto
  obtain es where es: "slab_remove x (w_entries w) = (Some en, es)" "slab_wf es"
    "slab_map es = (slab_map (w_entries w))(x := None)"
    using slab_remove_spec [of "w_entries w" x] fit en by (auto simp: wheel_fit_def get_entry_map)
  let ?w0 = "w\<lparr>w_entries := es\<rparr>"
  have g: "get_entry i ?w0 = (if i = x then None else get_entry i w)" for i
    by (simp add: get_entry_map es(3))
  have fit0: "wheel_fit ?w0" using fit es(2) by (simp add: wheel_fit_def)
  have N: "nxt ?w0 t = nxt w t" and P: "prv ?w0 t = prv w t" if "t \<noteq> TEntry x" for t
    using that by (auto simp: nxt_def prv_def g get_slot_def split: token.splits)
  have D: "timer_data ?w0 = (timer_data w)(x := None)" by (auto simp: timer_data_def g fun_eq_iff)
  have pn: "prv w (TEntry x) = Some (e_prev en)" "nxt w (TEntry x) = Some (e_next en)"
    by (simp_all add: prv_def nxt_def en)
  show ?thesis
  proof (cases "x \<in> set (timers L)")
    case True
    obtain w1 w2 where w: "set_next_of (e_prev en) (e_next en) ?w0 = Some w1"
      "set_prev_of (e_next en) (e_prev en) w1 = Some w2" "wheel_links {..<NUM_OF_SLOTS} w2 (without x L) {x}"
      "timer_data w2 = timer_data ?w0" "w_current w2 = w_current w"
      using unlink_steps [OF l True fit0 N P pn] by auto
    have "get_entry x w2 = None" using links_dom(3) [of w2 x] by (simp add: w(4) D)
    then have "i \<noteq> x" if "get_entry i w2 \<noteq> None" for i using that by metis
    then have "wheel_inv w2 (without x L)" using w(3) by (simp add: wheel_inv_def wheel_links_def)
    moreover have "e_prev en \<noteq> TNil" using timer_linked(2) [OF l True] pn(1) by simp
    ultimately show ?thesis using w es(1) D by (simp add: wheel_cancel_def)
  next
    case False
    then have "e_prev en = TNil" using pn(1) en l by (simp add: wheel_links_def)
    moreover have "wheel_links {..<NUM_OF_SLOTS} ?w0 L {}"
    proof -
      have "path (nxt ?w0) (prv ?w0) (seg s (L s))" if s: "s < NUM_OF_SLOTS" for s
      proof (rule path_cong)
        have "x \<notin> set (L s)" using False s by (auto simp: set_timers)
        then show "\<forall>t\<in>set (butlast (seg s (L s))). nxt ?w0 t = nxt w t"
          "\<forall>t\<in>set (tl (seg s (L s))). prv ?w0 t = prv w t"
          by (auto simp: seg_ends intro!: N P)
      qed (use l s in \<open>simp add: wheel_links_def\<close>)
      moreover have "prv ?w0 (TEntry i) = Some TNil" if "i \<notin> set (timers L)" "get_entry i ?w0 \<noteq> None" for i
        using l that P [of "TEntry i"] by (auto simp: wheel_links_def g split: if_splits)
      ultimately show ?thesis using l fit0 by (simp add: wheel_links_def)
    qed
    then have "wheel_inv ?w0 (without x L)"
      using wheel_links_cong [OF without_absent [OF False]] by (simp add: wheel_inv_def)
    ultimately show ?thesis using es(1) D by (simp add: wheel_cancel_def)
  qed
qed

section \<open>The empty wheel\<close>

lemma wheel_new_inv: "wheel_inv wheel_new (\<lambda>_. [])"
proof -
  have slot: "w_slots wheel_new ! i = \<lparr>s_prev = TSlot (pred_slot i), s_next = TSlot ((i + 1) mod NUM_OF_SLOTS)\<rparr>"
    if "i < NUM_OF_SLOTS" for i
  proof -
    have "i + usize_max = (i + (NUM_OF_SLOTS - 1)) + NUM_OF_SLOTS * (2 ^ 57 - 1)"
      by (simp add: usize_max_def NUM_OF_SLOTS_def)
    then have "(i + usize_max) mod NUM_OF_SLOTS = pred_slot i"
      unfolding pred_slot_def by (simp only: mod_mult_self2)
    moreover have "((i + usize_max) mod (usize_max + 1)) mod NUM_OF_SLOTS = (i + usize_max) mod NUM_OF_SLOTS"
      by (rule mod_mod_cancel) (simp add: usize_max_def NUM_OF_SLOTS_def)
    ultimately have "((i + usize_max) mod (usize_max + 1)) mod NUM_OF_SLOTS = pred_slot i"
      by simp
    then show ?thesis
      using that mask_mod by (simp add: wheel_new_def Let_def del: One_nat_def)
  qed
  have len: "length (w_slots wheel_new) = NUM_OF_SLOTS" by (simp add: wheel_new_def Let_def)
  have "path (nxt wheel_new) (prv wheel_new) (seg s [])" if s: "s < NUM_OF_SLOTS" for s
    using slot [OF s] slot [OF pred_slot_facts(1) [OF s]] pred_slot_facts(1,4) [OF s] s
    by (simp add: seg_def nxt_def prv_def get_slot_def len)
  moreover have "wheel_fit wheel_new" using len
    by (simp add: wheel_fit_def) (simp add: wheel_new_def Let_def NUM_OF_SLOTS_def)
  moreover have "get_entry i wheel_new = None" for i
    by (simp add: get_entry_map) (simp add: wheel_new_def Let_def)
  moreover have "timers (\<lambda>_. []) = []" by (simp add: timers_def)
  ultimately show ?thesis by (simp add: wheel_inv_def wheel_links_def)
qed

end
