(* ===== verification/Wheel_Tick.thy ===== *)
theory Wheel_Tick
  imports Wheel_Ring
begin

text \<open>
  A tick of the timer wheel, for tasks that leave the wheel alone but for dropping timers that
  have expired: what runs, in which order, and where the other timers go. Ticks in sequence are
  refined by an abstract wheel of lists.
\<close>

section \<open>The contract of the tasks\<close>

definition drops :: "wheel \<Rightarrow> wheel \<Rightarrow> bool" where
  "drops w w' \<longleftrightarrow> w_slots w' = w_slots w \<and> w_current w' = w_current w \<and> w_mask w' = w_mask w \<and>
     (slab_wf (w_entries w) \<longrightarrow> slab_wf (w_entries w')) \<and>
     (\<forall>i. get_entry i w' = get_entry i w \<or>
        get_entry i w' = None \<and> prv w (TEntry i) = Some TNil)"

text \<open>The clock stands still during a tick, and no task ends the event loop.\<close>

definition quiet :: "'w env \<Rightarrow> nat \<Rightarrow> bool" where
  "quiet env now \<longleftrightarrow> (\<forall>x. clock env x = (now, x)) \<and>
     (\<forall>t w x b w' x'. run_expired_task env t (w, x) = (b, w', x') \<longrightarrow> \<not> b \<and> drops w w')"

text \<open>The tasks that were run, in order.\<close>

definition logged :: "'w env \<Rightarrow> ('w \<times> nat list) env" where
  "logged env = \<lparr>clock = (\<lambda>(x, ts). case clock env x of (n, x') \<Rightarrow> (n, x', ts)),
     run_expired_task = (\<lambda>t (w, x, ts). case run_expired_task env t (w, x) of (b, w', x') \<Rightarrow>
       (b, w', x', ts @ [t]))\<rparr>"

section \<open>In the middle of a tick\<close>

text \<open>The rest of the list of slot \<open>s\<close> is still to be visited; the way to it is cut off.\<close>

definition wheel_mid :: "nat \<Rightarrow> wheel \<Rightarrow> (nat \<Rightarrow> nat list) \<Rightarrow> bool" where
  "wheel_mid s w L \<longleftrightarrow> s < NUM_OF_SLOTS \<and> wheel_links ({..<NUM_OF_SLOTS} - {s}) w L {} \<and>
     path (nxt w) (prv w) (map TEntry (L s) @ [TSlot s]) \<and>
     (\<forall>i ys. L s = i # ys \<longrightarrow> get_entry i w \<noteq> None \<and> prv w (TEntry i) \<noteq> Some TNil)"

lemma wheel_mid_start:
  assumes "wheel_inv w L" and s: "s < NUM_OF_SLOTS"
  shows "wheel_mid s w L"
proof -
  have l: "wheel_links {..<NUM_OF_SLOTS} w L {}" using assms(1) by (simp add: wheel_inv_def)
  then have "path (nxt w) (prv w) (seg s (L s))" using s by (simp add: wheel_links_def)
  then have "path (nxt w) (prv w) (map TEntry (L s) @ [TSlot s])"
    by (cases "L s") (simp_all add: seg_def)
  moreover have "wheel_links ({..<NUM_OF_SLOTS} - {s}) w L {}" using l by (auto simp: wheel_links_def)
  moreover have "get_entry i w \<noteq> None \<and> prv w (TEntry i) \<noteq> Some TNil" if "L s = i # ys" for i ys
  proof -
    have "i \<in> set (L s)" by (simp add: that)
    then have "i \<in> set (timers L)" using s by (auto simp: set_timers)
    with timer_linked [OF l] show ?thesis by blast
  qed
  ultimately show ?thesis using s by (simp add: wheel_mid_def)
qed

lemma wheel_mid_linked:
  assumes "wheel_mid s w L" and "i \<in> set (timers L)"
  shows "get_entry i w \<noteq> None" and "prv w (TEntry i) \<noteq> Some TNil"
proof -
  obtain t where t: "t < NUM_OF_SLOTS" "i \<in> set (L t)" using assms(2) by (auto simp: set_timers)
  obtain xs ys where L: "L t = xs @ i # ys" using t(2) by (meson split_list)
  have "get_entry i w \<noteq> None \<and> prv w (TEntry i) \<noteq> Some TNil"
  proof (cases "t = s \<and> xs = []")
    case True
    with L assms(1) show ?thesis by (simp add: wheel_mid_def)
  next
    case False
    have "\<exists>H T. H \<noteq> [] \<and> path (nxt w) (prv w) (H @ TEntry i # T) \<and> last H \<noteq> TNil"
    proof (cases "t = s")
      case True
      then show ?thesis using assms(1) L False
        by (intro exI [of _ "map TEntry xs"] exI [of _ "map TEntry ys @ [TSlot s]"])
          (simp add: wheel_mid_def last_map)
    next
      case ne: False
      then have "path (nxt w) (prv w) (seg t (L t))" using assms(1) t(1)
        by (simp add: wheel_mid_def wheel_links_def)
      then show ?thesis using L
        by (intro exI [of _ "TSlot (pred_slot t) # map TEntry xs"] exI [of _ "map TEntry ys @ [TSlot t]"])
          (simp add: seg_def last_map)
    qed
    then obtain H T where H: "H \<noteq> []" "path (nxt w) (prv w) (H @ TEntry i # T)" "last H \<noteq> TNil" by blast
    from path_at(1) [OF H(2,1)] H(3) show ?thesis by (auto simp: prv_def)
  qed
  then show "get_entry i w \<noteq> None" "prv w (TEntry i) \<noteq> Some TNil" by simp_all
qed

text \<open>Two wheels with the same links of the timers are in the middle of the same tick.\<close>

lemma wheel_mid_drops:
  assumes "wheel_mid s w L" and "drops w w'"
  shows "wheel_mid s w' L" and "\<And>i. i \<in> set (timers L) \<Longrightarrow> timer_data w' i = timer_data w i"
    and "w_current w' = w_current w"
proof -
  have same: "get_entry i w' = get_entry i w" if "i \<in> set (timers L)" for i
    using wheel_mid_linked(2) [OF assms(1) that] assms(2) by (auto simp: drops_def)
  have slots: "get_slot i w' = get_slot i w" for i using assms(2) by (simp add: drops_def get_slot_def)
  have links: "nxt w' t = nxt w t" "prv w' t = prv w t"
    if "\<And>i. t = TEntry i \<Longrightarrow> i \<in> set (timers L)" for t
    using that same slots by (cases t; simp add: nxt_def prv_def)+
  have l: "wheel_links ({..<NUM_OF_SLOTS} - {s}) w L {}" and s: "s < NUM_OF_SLOTS"
    using assms(1) by (simp_all add: wheel_mid_def)
  have fit: "wheel_fit w'" using l assms(2) by (auto simp: wheel_links_def wheel_fit_def drops_def)
  have in_timers: "i \<in> set (timers L)" if "i \<in> set (L t)" "t < NUM_OF_SLOTS" for i t
    using that by (auto simp: set_timers)
  have "path (nxt w') (prv w') (seg t (L t))" if t: "t \<in> {..<NUM_OF_SLOTS} - {s}" for t
  proof (rule path_cong)
    show "path (nxt w) (prv w) (seg t (L t))" using l t by (simp add: wheel_links_def)
    show "\<forall>u\<in>set (butlast (seg t (L t))). nxt w' u = nxt w u" "\<forall>u\<in>set (tl (seg t (L t))). prv w' u = prv w u"
      using t by (auto simp: seg_ends intro!: links in_timers)
  qed
  moreover have "prv w' (TEntry i) = Some TNil" if "i \<notin> set (timers L)" "get_entry i w' \<noteq> None" for i
  proof -
    have "get_entry i w' = get_entry i w" using assms(2) that(2) by (auto simp: drops_def)
    with l that show ?thesis by (simp add: wheel_links_def prv_def)
  qed
  ultimately have "wheel_links ({..<NUM_OF_SLOTS} - {s}) w' L {}" using l fit by (simp add: wheel_links_def)
  moreover have "path (nxt w') (prv w') (map TEntry (L s) @ [TSlot s])"
  proof (rule path_cong)
    show "path (nxt w) (prv w) (map TEntry (L s) @ [TSlot s])" using assms(1) by (simp add: wheel_mid_def)
    show "\<forall>u\<in>set (butlast (map TEntry (L s) @ [TSlot s])). nxt w' u = nxt w u"
      using s by (auto simp: butlast_append intro!: links in_timers)
    show "\<forall>u\<in>set (tl (map TEntry (L s) @ [TSlot s])). prv w' u = prv w u"
      using s by (cases "L s") (auto intro!: links in_timers)
  qed
  moreover have "get_entry i w' \<noteq> None \<and> prv w' (TEntry i) \<noteq> Some TNil" if "L s = i # ys" for i ys
    using assms(1) that same [of i] in_timers [of i s] s by (auto simp: wheel_mid_def prv_def)
  ultimately show "wheel_mid s w' L" using s by (simp add: wheel_mid_def)
  show "timer_data w' i = timer_data w i" if "i \<in> set (timers L)" for i
    using same [OF that] by (simp add: timer_data_def)
  show "w_current w' = w_current w" using assms(2) by (simp add: drops_def)
qed

text \<open>Taking the first timer out of the rest of the list.\<close>

lemma wheel_mid_take:
  assumes mid: "wheel_mid s w L" and L: "L s = x # ys" and e: "get_entry x w = Some e"
    and w': "w' = put_entry x (e\<lparr>e_prev := TNil, e_next := TNil, e_exp := None\<rparr>) w"
  shows "wheel_mid s w' (L(s := ys))" and "timer_data w' = (timer_data w)(x \<mapsto> (e_task e, None))"
    and "w_current w' = w_current w" and "e_next e = (case ys of [] \<Rightarrow> TSlot s | y # _ \<Rightarrow> TEntry y)"
    and "x \<notin> set (timers (L(s := ys)))"
proof -
  have s: "s < NUM_OF_SLOTS" and l: "wheel_links ({..<NUM_OF_SLOTS} - {s}) w L {}"
    and ch: "path (nxt w) (prv w) (map TEntry (L s) @ [TSlot s])"
    using mid by (simp_all add: wheel_mid_def)
  have wf: "slab_wf (w_entries w)" "get_entry x w \<noteq> None" using l e by (simp_all add: wheel_links_def wheel_fit_def)
  have g: "get_entry i w' = (if i = x then Some (e\<lparr>e_prev := TNil, e_next := TNil, e_exp := None\<rparr>) else get_entry i w)" for i
    unfolding w' by (rule get_put_entry(2) [OF wf])
  have fit: "wheel_fit w'" using get_put_entry(1) [OF wf] l by (simp add: w' wheel_links_def wheel_fit_def)
  have links: "nxt w' t = nxt w t" "prv w' t = prv w t" if "t \<noteq> TEntry x" for t
    using that by (cases t; simp add: nxt_def prv_def g; simp add: w')+
  have d: "distinct (timers L)" using l by (simp add: wheel_links_def)
  have other: "x \<notin> set (L t)" if "t < NUM_OF_SLOTS" "t \<noteq> s" for t
    using d s that L unfolding distinct_timers by (metis disjoint_iff list.set_intros(1))
  have ys: "x \<notin> set ys" "distinct ys"
    using d s L unfolding distinct_timers by (metis distinct.simps(2))+
  have T: "set (timers (L(s := ys))) = set (timers L) - {x}"
  proof -
    have "set (timers L) = set (L s) \<union> (\<Union>t\<in>{..<NUM_OF_SLOTS} - {s}. set (L t))"
      unfolding set_timers using s by auto
    moreover have "x \<notin> (\<Union>t\<in>{..<NUM_OF_SLOTS} - {s}. set (L t))" using other by auto
    ultimately show ?thesis unfolding timers_update(1) [OF s] L using ys(1) by auto
  qed
  then show x: "x \<notin> set (timers (L(s := ys)))" by simp
  show "timer_data w' = (timer_data w)(x \<mapsto> (e_task e, None))"
    by (auto simp: timer_data_def g fun_eq_iff)
  show "w_current w' = w_current w" by (simp add: w')
  have ch': "path (nxt w) (prv w) (TEntry x # map TEntry ys @ [TSlot s])" using ch by (simp add: L)
  then have "nxt w (TEntry x) = Some (case ys of [] \<Rightarrow> TSlot s | y # _ \<Rightarrow> TEntry y)"
    by (cases ys) simp_all
  then show "e_next e = (case ys of [] \<Rightarrow> TSlot s | y # _ \<Rightarrow> TEntry y)" by (simp add: nxt_def e)
  have "distinct (timers (L(s := ys)))"
    using d L s ys unfolding distinct_timers by (auto simp: disjoint_iff)
  moreover have "path (nxt w') (prv w') (seg t ((L(s := ys)) t))" if t: "t \<in> {..<NUM_OF_SLOTS} - {s}" for t
  proof -
    have "path (nxt w') (prv w') (seg t (L t))"
    proof (rule path_cong)
      show "path (nxt w) (prv w) (seg t (L t))" using l t by (simp add: wheel_links_def)
      show "\<forall>u\<in>set (butlast (seg t (L t))). nxt w' u = nxt w u" "\<forall>u\<in>set (tl (seg t (L t))). prv w' u = prv w u"
        using other [of t] t by (auto simp: seg_ends intro!: links)
    qed
    with t show ?thesis by simp
  qed
  moreover have "prv w' (TEntry i) = Some TNil" if "i \<notin> set (timers (L(s := ys)))" "get_entry i w' \<noteq> None" for i
    using that l T links(2) [of "TEntry i"] g [of i]
    by (cases "i = x") (auto simp: wheel_links_def prv_def [of w'])
  ultimately have "wheel_links ({..<NUM_OF_SLOTS} - {s}) w' (L(s := ys)) {}"
    using fit by (simp add: wheel_links_def)
  moreover have "path (nxt w') (prv w') (map TEntry ys @ [TSlot s])"
  proof (rule path_cong)
    show "path (nxt w) (prv w) (map TEntry ys @ [TSlot s])" using ch' by (cases ys) simp_all
    show "\<forall>u\<in>set (butlast (map TEntry ys @ [TSlot s])). nxt w' u = nxt w u"
      using ys by (auto simp: butlast_append intro!: links)
    show "\<forall>u\<in>set (tl (map TEntry ys @ [TSlot s])). prv w' u = prv w u"
      using ys by (cases ys) (auto intro!: links)
  qed
  moreover have "get_entry i w' \<noteq> None \<and> prv w' (TEntry i) \<noteq> Some TNil" if "ys = i # zs" for i zs
  proof -
    have "prv w (TEntry i) = Some (TEntry x)" "i \<noteq> x" using ch' ys that by auto
    then have "prv w' (TEntry i) = Some (TEntry x)" using links(2) [of "TEntry i"] by simp
    then show ?thesis by (auto simp: prv_def)
  qed
  ultimately show "wheel_mid s w' (L(s := ys))" using s by (simp add: wheel_mid_def)
qed

section \<open>The loop of a tick\<close>

text \<open>
  The abstract wheel: the task and expiration of every timer, the timers of every slot, and the
  tasks run so far. A timer whose expiration is a second or more away is put back.
\<close>

type_synonym abs_wheel = "(nat \<Rightarrow> (nat \<times> nat option) option) \<times> (nat \<Rightarrow> nat list) \<times> nat list"

definition deferred :: "nat \<Rightarrow> nat option \<Rightarrow> bool" where
  "deferred now exp = (case exp of None \<Rightarrow> False | Some e \<Rightarrow> e \<ge> now + nanos_per_sec)"

fun visit :: "nat \<Rightarrow> nat \<Rightarrow> nat \<Rightarrow> abs_wheel \<Rightarrow> abs_wheel" where
  "visit now c x (D, L, ts) =
     (case D x of
        Some (task, exp) \<Rightarrow>
          (if deferred now exp then
             (let secs = round_to_secs (the exp - now); s = timeout_slot c secs
              in (D(x \<mapsto> (task, if secs > NUM_OF_SLOTS - 1 then exp else None)), L(s := L s @ [x]), ts))
           else (D, L, ts @ [task]))
      | None \<Rightarrow> (D, L, ts))"

definition next_slot :: "nat \<Rightarrow> nat" where
  "next_slot c = (c + 1) mod NUM_OF_SLOTS"

definition tick_abs :: "nat \<Rightarrow> nat \<Rightarrow> abs_wheel \<Rightarrow> abs_wheel" where
  "tick_abs now c = (\<lambda>(D, L, ts). fold (visit now c) (L (next_slot c)) (D, L(next_slot c := []), ts))"

text \<open>The data the abstract wheel has of the timers is that of the wheel.\<close>

definition agree :: "(nat \<Rightarrow> (nat \<times> nat option) option) \<Rightarrow> wheel \<Rightarrow> (nat \<Rightarrow> nat list) \<Rightarrow> bool" where
  "agree D w L \<longleftrightarrow> (\<forall>i\<in>set (timers L). timer_data w i = D i)"

text \<open>No timer of the slot is put back to the very slot the tick is about to empty.\<close>

definition not_to_self :: "nat \<Rightarrow> (nat \<Rightarrow> (nat \<times> nat option) option) \<Rightarrow> nat list \<Rightarrow> bool" where
  "not_to_self now D ids \<longleftrightarrow> (\<forall>x\<in>set ids. \<forall>task e. D x = Some (task, Some e) \<longrightarrow>
     deferred now (Some e) \<longrightarrow> round_to_secs (e - now) \<noteq> 1)"

lemma round_to_secs_pos: "deferred now (Some e) \<Longrightarrow> round_to_secs (e - now) \<noteq> 0"
  by (auto simp: deferred_def round_to_secs_def as_secs_def)

lemma timeout_slot_next:
  "c < NUM_OF_SLOTS \<Longrightarrow> secs \<noteq> 0 \<Longrightarrow> timeout_slot c secs = next_slot c \<longleftrightarrow> secs = 1"
  by (auto simp: timeout_slot_def next_slot_def NUM_OF_SLOTS_def min_def mod_if)

lemma next_slot_facts:
  "next_slot c < NUM_OF_SLOTS" "c < NUM_OF_SLOTS \<Longrightarrow> pred_slot (next_slot c) = c"
  using pred_slot_facts(5) [of c] by (simp_all add: next_slot_def NUM_OF_SLOTS_def)

text \<open>What the loop does with the first timer of the rest.\<close>

lemma expire_spec:
  assumes mid: "wheel_mid s w (M(s := x # ys))" and M: "M s = []" and c: "w_current w = c" and s: "s = next_slot c"
    and agree: "agree D w (M(s := x # ys))" and q: "quiet env now" and self: "not_to_self now D [x]"
    and e: "get_entry x w = Some e"
    and w1: "w1 = put_entry x (e\<lparr>e_prev := TNil, e_next := TNil, e_exp := None\<rparr>) w"
    and v: "visit now c x (D, M, ts) = (D', M', ts')"
  shows "\<exists>w' a'. expire (logged env) x (e_exp e) (e_task e) False (w1, a, ts) = Some (False, w', a', ts') \<and>
    wheel_mid s w' (M'(s := ys)) \<and> M' s = [] \<and> w_current w' = c \<and> agree D' w' (M'(s := ys))"
proof -
  have LL: "(M(s := x # ys))(s := ys) = M(s := ys)" by simp
  note take = wheel_mid_take [OF mid fun_upd_same e w1, unfolded LL]
  have sl: "s < NUM_OF_SLOTS" using mid by (simp add: wheel_mid_def)
  have cl: "c < NUM_OF_SLOTS" using mid c by (simp add: wheel_mid_def wheel_links_def wheel_fit_def)
  have "x \<in> set (timers (M(s := x # ys)))" using sl by (auto simp: set_timers)
  then have Dx: "D x = Some (e_task e, e_exp e)" using agree e by (auto simp: agree_def timer_data_def)
  have sub: "set (timers (M(s := ys))) \<subseteq> set (timers (M(s := x # ys))) - {x}"
    using take(5) by (auto simp: set_timers split: if_splits)
  have agree1: "timer_data w1 i = D i" if "i \<in> set (timers (M(s := ys)))" for i
    using that sub agree by (auto simp: agree_def take(2))
  show ?thesis
  proof (cases "deferred now (e_exp e)")
    case True
    then obtain exp where exp: "e_exp e = Some exp" by (auto simp: deferred_def split: option.splits)
    let ?secs = "round_to_secs (exp - now)"
    let ?t = "timeout_slot c ?secs"
    have secs: "?secs \<noteq> 0" "?secs \<noteq> 1"
      using True round_to_secs_pos self Dx by (auto simp: exp not_to_self_def)
    then have ts: "?t \<noteq> s" using timeout_slot_next [OF cl secs(1)] by (simp add: s)
    have fit: "wheel_fit w1" and l: "wheel_links ({..<NUM_OF_SLOTS} - {s}) w1 (M(s := ys)) {}"
      using take(1) by (simp_all add: wheel_mid_def wheel_links_def)
    have cur: "w_current w1 = c" using take(3) c by simp
    have tin: "?t \<in> {..<NUM_OF_SLOTS} - {s}" using timeout_slot_eq(2) [OF fit] ts cur by simp
    have td: "timer_data w1 x = Some (e_task e, None)" by (simp add: take(2))
    have Lt: "(M(s := ys)) ?t = M ?t" using ts by simp
    note spec = reschedule_internal_spec [OF l _ take(5), of "exp - now" "e_task e" None now "Some exp",
        unfolded cur Let_def Lt option.case empty_Diff]
    obtain w2 where w2: "reschedule_internal now (exp - now) (Some exp) x w1 = Some w2"
      "wheel_links ({..<NUM_OF_SLOTS} - {s}) w2 ((M(s := ys))(?t := M ?t @ [x])) {}"
      "timer_data w2 = (timer_data w1)(x \<mapsto> (e_task e, if ?secs > NUM_OF_SLOTS - 1 then Some exp else None))"
      "w_current w2 = c"
      "\<And>t. t \<noteq> TEntry x \<Longrightarrow> t \<notin> set (butlast (seg ?t (M ?t))) \<Longrightarrow> nxt w2 t = nxt w1 t"
      "\<And>t. t \<noteq> TEntry x \<Longrightarrow> t \<noteq> TSlot ?t \<Longrightarrow> prv w2 t = prv w1 t"
      using spec [OF tin td] by blast
    have M': "D' = D(x \<mapsto> (e_task e, if ?secs > NUM_OF_SLOTS - 1 then Some exp else None))"
      "M' = M(?t := M ?t @ [x])" "ts' = ts"
      using v True by (auto simp: Dx exp Let_def)
    have upd: "(M(s := ys))(?t := M ?t @ [x]) = M'(s := ys)" using ts by (auto simp: M')
    have ys: "x \<notin> set ys" "set ys \<inter> set (M ?t) = {}"
    proof -
      have "distinct (timers (M(s := ys)))" using l by (simp add: wheel_links_def)
      then show "set ys \<inter> set (M ?t) = {}"
        using ts sl timeout_slot_eq(2) [OF fit] unfolding distinct_timers cur by fastforce
      have "x \<notin> set ((M(s := ys)) s)" using take(5) sl unfolding set_timers by blast
      then show "x \<notin> set ys" by simp
    qed
    have p1: "path (nxt w1) (prv w1) (map TEntry ys @ [TSlot s])" using take(1) by (simp add: wheel_mid_def)
    have "path (nxt w2) (prv w2) (map TEntry ys @ [TSlot s])"
    proof (rule path_cong [OF _ _ p1])
      show "\<forall>t\<in>set (butlast (map TEntry ys @ [TSlot s])). nxt w2 t = nxt w1 t"
        using ys by (auto simp: butlast_append seg_ends intro!: w2(5))
      show "\<forall>t\<in>set (tl (map TEntry ys @ [TSlot s])). prv w2 t = prv w1 t"
        using ys ts by (cases ys) (auto intro!: w2(6))
    qed
    moreover have "get_entry i w2 \<noteq> None \<and> prv w2 (TEntry i) \<noteq> Some TNil" if "ys = i # zs" for i zs
    proof -
      have "get_entry i w1 \<noteq> None" "prv w1 (TEntry i) \<noteq> Some TNil"
        using take(1) that by (simp_all add: wheel_mid_def)
      moreover have "prv w2 (TEntry i) = prv w1 (TEntry i)" using ys that by (auto intro: w2(6))
      ultimately show ?thesis by (metis links_dom(2))
    qed
    ultimately have "wheel_mid s w2 (M'(s := ys))" using w2(2) sl upd by (simp add: wheel_mid_def)
    moreover have "M' s = []" using ts M by (simp add: M')
    moreover have "agree D' w2 (M'(s := ys))"
    proof -
      have "set (timers (M'(s := ys))) \<subseteq> insert x (set (timers (M(s := ys))))"
        using ts by (auto simp: set_timers M' split: if_splits)
      then show ?thesis using agree1 by (auto simp: agree_def w2(3) M'(1))
    qed
    moreover have "clock (logged env) (a, ts) = (now, a, ts)"
      using q by (auto simp: quiet_def logged_def)
    ultimately show ?thesis
      using w2(1,4) True by (auto simp: expire_def exp deferred_def M'(3) Let_def)
  next
    case False
    obtain b w2 a2 where r: "run_expired_task env (e_task e) (w1, a) = (b, w2, a2)" by (metis prod_cases3)
    with q have d: "\<not> b" "drops w1 w2" unfolding quiet_def by blast+
    have M': "D' = D" "M' = M" "ts' = ts @ [e_task e]" using v False by (auto simp: Dx)
    note mid2 = wheel_mid_drops [OF take(1) d(2)]
    have ex: "expire (logged env) x (e_exp e) (e_task e) False (w1, a, ts) = Some (False, w2, a2, ts')"
      using q False r d(1) by (auto simp: expire_def deferred_def logged_def quiet_def M' Let_def split: option.splits)
    moreover have "agree D' w2 (M'(s := ys))" using agree1 mid2(2) by (simp add: agree_def M')
    ultimately show ?thesis using mid2(1,3) take(3) c M by (simp add: M')
  qed
qed

text \<open>The loop visits the timers of the slot in order.\<close>

lemma visit_other: "x \<noteq> y \<Longrightarrow> visit now c x (D, M, ts) = (D', M', ts') \<Longrightarrow> D' y = D y"
  by (auto simp: Let_def split: option.splits if_splits)

lemma tick_loop_spec:
  assumes "wheel_mid s w (M(s := x # ys))" and "M s = []" and "w_current w = c" and s: "s = next_slot c"
    and "agree D w (M(s := x # ys))" and q: "quiet env now" and "not_to_self now D (x # ys)" and "distinct (x # ys)"
    and "fold (visit now c) (x # ys) (D, M, ts) = (D', M', ts')"
  shows "\<exists>w' a'. tick_loop (logged env) False x (w, a, ts) = Some (Ok (s, w', a', ts')) \<and>
    wheel_mid s w' M' \<and> M' s = [] \<and> w_current w' = c \<and> agree D' w' M'"
  using assms(1-3,5,7-9)
proof (induction ys arbitrary: x w M D ts a)
  case Nil
  from Nil.prems(1) obtain e where e: "get_entry x w = Some e" by (auto simp: wheel_mid_def)
  let ?w1 = "put_entry x (e\<lparr>e_prev := TNil, e_next := TNil, e_exp := None\<rparr>) w"
  have v: "visit now c x (D, M, ts) = (D', M', ts')" using Nil.prems(7) by simp
  obtain w' a' where w': "expire (logged env) x (e_exp e) (e_task e) False (?w1, a, ts) = Some (False, w', a', ts')"
    "wheel_mid s w' (M'(s := []))" "M' s = []" "w_current w' = c" "agree D' w' (M'(s := []))"
    using expire_spec [OF Nil.prems(1-3) s Nil.prems(4) q Nil.prems(5) e refl v] by blast
  have "e_next e = TSlot s" using wheel_mid_take(4) [OF Nil.prems(1) fun_upd_same e refl] by simp
  moreover have "M'(s := []) = M'" using w'(3) by (simp add: fun_upd_idem)
  ultimately show ?case using w' e by (subst tick_loop.simps) (simp add: Let_def)
next
  case (Cons y zs)
  from Cons.prems(1) obtain e where e: "get_entry x w = Some e" by (auto simp: wheel_mid_def)
  let ?w1 = "put_entry x (e\<lparr>e_prev := TNil, e_next := TNil, e_exp := None\<rparr>) w"
  obtain D1 M1 ts1 where v: "visit now c x (D, M, ts) = (D1, M1, ts1)" by (metis prod_cases3)
  have self: "not_to_self now D [x]" using Cons.prems(5) by (simp add: not_to_self_def)
  obtain w' a' where w': "expire (logged env) x (e_exp e) (e_task e) False (?w1, a, ts) = Some (False, w', a', ts1)"
    "wheel_mid s w' (M1(s := y # zs))" "M1 s = []" "w_current w' = c" "agree D1 w' (M1(s := y # zs))"
    using expire_spec [OF Cons.prems(1-3) s Cons.prems(4) q self e refl v] by blast
  have "not_to_self now D1 (y # zs)"
    using Cons.prems(5,6) visit_other [OF _ v] unfolding not_to_self_def by (metis list.set_intros(2) distinct.simps(2))
  from Cons.IH [OF w'(2-5) this] Cons.prems(6,7) v
  obtain w2 a2 where w2: "tick_loop (logged env) False y (w', a', ts1) = Some (Ok (s, w2, a2, ts'))"
    "wheel_mid s w2 M'" "M' s = []" "w_current w2 = c" "agree D' w2 M'" by fastforce
  have "e_next e = TEntry y" using wheel_mid_take(4) [OF Cons.prems(1) fun_upd_same e refl] by simp
  with w' w2 e show ?case by (subst tick_loop.simps) (simp add: Let_def)
qed

text \<open>Closing the ring again at the end of the tick.\<close>

lemma wheel_mid_close:
  assumes mid: "wheel_mid s w L" and L: "L s = []" and s: "s = next_slot (w_current w)"
  shows "\<exists>w' w''. set_next_of (TSlot (w_current w)) (TSlot s) w = Some w' \<and> w_current w' = w_current w \<and>
    set_prev_of (TSlot s) (TSlot (w_current w')) w' = Some w'' \<and>
    wheel_inv (w''\<lparr>w_current := s\<rparr>) L \<and> timer_data w'' = timer_data w"
proof -
  have l: "wheel_links ({..<NUM_OF_SLOTS} - {s}) w L {}" and fit: "wheel_fit w" and sl: "s < NUM_OF_SLOTS"
    using mid by (simp_all add: wheel_mid_def wheel_links_def)
  let ?c = "w_current w"
  have c: "?c < NUM_OF_SLOTS" "pred_slot s = ?c" using fit next_slot_facts(2) s by (simp_all add: wheel_fit_def)
  obtain w1 where w1: "set_next_of (TSlot ?c) (TSlot s) w = Some w1" "wheel_fit w1"
    "nxt w1 = (nxt w)(TSlot ?c \<mapsto> TSlot s)" "prv w1 = prv w" "timer_data w1 = timer_data w" "w_current w1 = ?c"
    using set_next_of_spec [OF fit] slot_dom(1) [OF fit] c(1) by blast
  have "prv w1 (TSlot s) \<noteq> None" using slot_dom(2) [OF w1(2)] sl by simp
  then obtain w2 where w2: "set_prev_of (TSlot s) (TSlot ?c) w1 = Some w2" "wheel_fit w2"
    "prv w2 = (prv w1)(TSlot s \<mapsto> TSlot ?c)" "nxt w2 = nxt w1" "timer_data w2 = timer_data w1"
    using set_prev_of_spec [OF w1(2)] by blast
  let ?w = "w2\<lparr>w_current := s\<rparr>"
  have same: "nxt ?w = (nxt w)(TSlot ?c \<mapsto> TSlot s)" "prv ?w = (prv w)(TSlot s \<mapsto> TSlot ?c)" "get_entry i ?w = get_entry i w2" for i
  proof -
    have "nxt ?w = nxt w2" "prv ?w = prv w2" by (auto simp: nxt_def prv_def get_entry_def get_slot_def fun_eq_iff split: token.splits)
    then show "nxt ?w = (nxt w)(TSlot ?c \<mapsto> TSlot s)" "prv ?w = (prv w)(TSlot s \<mapsto> TSlot ?c)" by (simp_all add: w1 w2)
  qed (simp add: get_entry_def)
  have "path (nxt ?w) (prv ?w) (seg t (L t))" if t: "t < NUM_OF_SLOTS" for t
  proof (cases "t = s")
    case True
    then show ?thesis by (simp add: seg_def L c(2) same)
  next
    case False
    show ?thesis
    proof (rule path_cong)
      show "path (nxt w) (prv w) (seg t (L t))" using l t False by (simp add: wheel_links_def)
      have "pred_slot t \<noteq> ?c" using pred_slot_facts(2) [OF t sl] False c(2) by auto
      then show "\<forall>u\<in>set (butlast (seg t (L t))). nxt ?w u = nxt w u" by (auto simp: seg_ends same)
      show "\<forall>u\<in>set (tl (seg t (L t))). prv ?w u = prv w u" using False by (auto simp: seg_ends same)
    qed
  qed
  moreover have "wheel_fit ?w" using w2(2) sl by (simp add: wheel_fit_def)
  moreover have "prv ?w (TEntry i) = Some TNil" if "i \<notin> set (timers L)" "get_entry i ?w \<noteq> None" for i
  proof -
    have "get_entry i w \<noteq> None" using that(2) links_dom(3) [of w i] links_dom(3) [of w2 i] by (simp add: same w1 w2)
    with that(1) l show ?thesis by (simp add: wheel_links_def same)
  qed
  ultimately have "wheel_inv ?w L" using l by (simp add: wheel_inv_def wheel_links_def)
  with w1 w2 show ?thesis by auto
qed

section \<open>A tick\<close>

lemma tick_abs_empty:
  assumes "fold (visit now c) ids (D, M, ts) = (D', M', ts')" "ids = []"
  shows "D' = D \<and> M' = M \<and> ts' = ts"
  using assms by simp

lemma wheel_tick_spec:
  assumes inv: "wheel_inv w L" and q: "quiet env now" and agree: "agree D w L" and c: "w_current w = c"
    and self: "not_to_self now D (L (next_slot c))"
    and t: "tick_abs now c (D, L, ts) = (D', L', ts')"
  shows "\<exists>w' a'. wheel_tick (logged env) (w, a, ts) = Some (Ok (w', a', ts')) \<and> wheel_inv w' L' \<and>
    w_current w' = next_slot c \<and> agree D' w' L'"
proof -
  let ?s = "next_slot c"
  have l: "wheel_links {..<NUM_OF_SLOTS} w L {}" and fit: "wheel_fit w" using inv by (simp_all add: wheel_inv_def wheel_links_def)
  have cl: "c < NUM_OF_SLOTS" using fit c by (simp add: wheel_fit_def)
  have "path (nxt w) (prv w) (seg ?s (L ?s))" using l next_slot_facts(1) by (simp add: wheel_links_def)
  then have "nxt w (TSlot c) = Some (hd (map TEntry (L ?s) @ [TSlot ?s]))"
    using path_at(2) [of "nxt w" "prv w" "[]" "TSlot c" "map TEntry (L ?s) @ [TSlot ?s]"] next_slot_facts(2) [OF cl]
    by (simp add: seg_def)
  then obtain sl where sl: "get_slot c w = Some sl" "s_next sl = hd (map TEntry (L ?s) @ [TSlot ?s])"
    by (auto simp: nxt_def)
  show ?thesis
  proof (cases "L ?s")
    case Nil
    let ?w = "w\<lparr>w_current := ?s\<rparr>"
    have same: "nxt ?w = nxt w" "prv ?w = prv w" "get_entry i ?w = get_entry i w" "timer_data ?w = timer_data w" for i
      by (auto simp: nxt_def prv_def timer_data_def get_entry_def get_slot_def fun_eq_iff split: token.splits)
    have "wheel_inv ?w L" using l next_slot_facts(1)
      by (simp add: wheel_inv_def wheel_links_def same wheel_fit_def)
    moreover have "D' = D" "L' = L" "ts' = ts" using t Nil by (simp_all add: tick_abs_def fun_upd_idem)
    ultimately show ?thesis using sl Nil agree by (simp add: wheel_tick_def Let_def c agree_def same)
  next
    case (Cons x ys)
    define M where "M = L(?s := [])"
    have M: "M(?s := x # ys) = L" "M ?s = []" by (auto simp: M_def Cons [symmetric])
    have d: "distinct (x # ys)" using l next_slot_facts(1) unfolding wheel_links_def distinct_timers Cons [symmetric] by blast
    have f: "fold (visit now c) (x # ys) (D, M, ts) = (D', M', ts') \<longleftrightarrow> M' = L'" for M'
      using t by (auto simp: tick_abs_def Cons M_def)
    obtain w1 a1 where w1: "tick_loop (logged env) False x (w, a, ts) = Some (Ok (?s, w1, a1, ts'))"
      "wheel_mid ?s w1 L'" "L' ?s = []" "w_current w1 = c" "agree D' w1 L'"
      using tick_loop_spec [of ?s w M x ys c D env now ts D' L' ts' a] wheel_mid_start [OF inv next_slot_facts(1)]
        agree q self d f c M by (auto simp: Cons)
    obtain w2 w3 where w3: "set_next_of (TSlot c) (TSlot ?s) w1 = Some w2" "w_current w2 = c"
      "set_prev_of (TSlot ?s) (TSlot c) w2 = Some w3" "wheel_inv (w3\<lparr>w_current := ?s\<rparr>) L'" "timer_data w3 = timer_data w1"
      using wheel_mid_close [OF w1(2,3)] w1(4) by auto
    have "agree D' (w3\<lparr>w_current := ?s\<rparr>) L'"
      using w1(5) w3(5) by (simp add: agree_def timer_data_def fun_eq_iff get_entry_def)
    with w1(1) w3 sl show ?thesis
      by (simp add: wheel_tick_def Let_def c Cons del: set_next_of.simps set_prev_of.simps)
  qed
qed

section \<open>Ticks in sequence\<close>

fun wheel_ticks :: "'w env list \<Rightarrow> wheel \<times> 'w \<Rightarrow> (wheel \<times> 'w, unit) outcome option" where
  "wheel_ticks [] wx = Some (Ok wx)"
| "wheel_ticks (env # envs) wx =
     (case wheel_tick env wx of Some (Ok wx') \<Rightarrow> wheel_ticks envs wx' | r \<Rightarrow> r)"

fun ticks_abs :: "nat list \<Rightarrow> nat \<Rightarrow> abs_wheel \<Rightarrow> abs_wheel" where
  "ticks_abs [] c a = a"
| "ticks_abs (now # nows) c a = ticks_abs nows (next_slot c) (tick_abs now c a)"

fun never_to_self :: "nat list \<Rightarrow> nat \<Rightarrow> abs_wheel \<Rightarrow> bool" where
  "never_to_self [] c a = True"
| "never_to_self (now # nows) c (D, L, ts) =
     (not_to_self now D (L (next_slot c)) \<and> never_to_self nows (next_slot c) (tick_abs now c (D, L, ts)))"

text \<open>The ticks of the wheel simulate those of the abstract wheel.\<close>

lemma wheel_ticks_spec:
  assumes "wheel_inv w L" and "list_all2 quiet envs nows" and "agree D w L" and "w_current w = c"
    and "never_to_self nows c (D, L, ts)" and "ticks_abs nows c (D, L, ts) = (D', L', ts')"
  shows "\<exists>w' a'. wheel_ticks (map logged envs) (w, a, ts) = Some (Ok (w', a', ts')) \<and> wheel_inv w' L' \<and>
    w_current w' = (next_slot ^^ length nows) c \<and> agree D' w' L'"
  using assms(2,1,3-)
proof (induction envs nows arbitrary: w a L D ts c rule: list_all2_induct)
  case Nil
  then show ?case by simp
next
  case (Cons env envs now nows)
  obtain D1 L1 ts1 where t: "tick_abs now c (D, L, ts) = (D1, L1, ts1)" by (metis prod_cases3)
  have self: "not_to_self now D (L (next_slot c))" "never_to_self nows (next_slot c) (D1, L1, ts1)"
    using Cons.prems(4) t by simp_all
  obtain w1 a1 where w1: "wheel_tick (logged env) (w, a, ts) = Some (Ok (w1, a1, ts1))" "wheel_inv w1 L1"
    "w_current w1 = next_slot c" "agree D1 w1 L1"
    using wheel_tick_spec [OF Cons.prems(1) Cons.hyps(1) Cons.prems(2,3) self(1) t] by blast
  have "ticks_abs nows (next_slot c) (D1, L1, ts1) = (D', L', ts')" using Cons.prems(5) t by simp
  from Cons.IH [OF w1(2,4,3) self(2) this]
  obtain w2 a2 where w2: "wheel_ticks (map logged envs) (w1, a1, ts1) = Some (Ok (w2, a2, ts'))" "wheel_inv w2 L'"
    "w_current w2 = (next_slot ^^ length nows) (next_slot c)" "agree D' w2 L'"
    by blast
  have "(next_slot ^^ length nows) (next_slot c) = (next_slot ^^ length (now # nows)) c"
    by (simp add: funpow_swap1)
  with w1(1) w2 show ?case by auto
qed

lemma next_slot_funpow: "(next_slot ^^ n) c = (if n = 0 then c else (c + n) mod NUM_OF_SLOTS)"
  by (induction n) (auto simp: next_slot_def mod_Suc_eq)

text \<open>
  Timers of at most 127 seconds have no expiration of their own, so a tick runs all tasks of the
  next slot.
\<close>

definition short :: "(nat \<Rightarrow> (nat \<times> nat option) option) \<Rightarrow> (nat \<Rightarrow> nat list) \<Rightarrow> bool" where
  "short D L \<longleftrightarrow> (\<forall>i\<in>set (timers L). \<exists>task. D i = Some (task, None))"

definition tasks_of :: "(nat \<Rightarrow> (nat \<times> nat option) option) \<Rightarrow> nat list \<Rightarrow> nat list" where
  "tasks_of D ids = map (\<lambda>i. fst (the (D i))) ids"

lemma fold_visit_short:
  assumes "\<forall>i\<in>set ids. \<exists>task. D i = Some (task, None)"
  shows "fold (visit now c) ids (D, L, ts) = (D, L, ts @ tasks_of D ids)"
  using assms by (induction ids arbitrary: ts) (auto simp: tasks_of_def deferred_def)

lemma tick_abs_short:
  assumes "short D L"
  shows "tick_abs now c (D, L, ts) = (D, L(next_slot c := []), ts @ tasks_of D (L (next_slot c)))"
    and "short D (L(next_slot c := []))" and "not_to_self now D (L (next_slot c))"
proof -
  have s: "\<forall>i\<in>set (L (next_slot c)). \<exists>task. D i = Some (task, None)"
    using assms next_slot_facts(1) [of c] unfolding short_def set_timers by blast
  then show "tick_abs now c (D, L, ts) = (D, L(next_slot c := []), ts @ tasks_of D (L (next_slot c)))"
    by (simp add: tick_abs_def fold_visit_short)
  show "short D (L(next_slot c := []))"
    using assms by (auto simp: short_def set_timers split: if_splits)
  show "not_to_self now D (L (next_slot c))" using s by (fastforce simp: not_to_self_def)
qed

definition emptied :: "nat \<Rightarrow> nat \<Rightarrow> (nat \<Rightarrow> nat list) \<Rightarrow> nat \<Rightarrow> nat list" where
  "emptied c n L = (\<lambda>s. if \<exists>k<n. s = (c + 1 + k) mod NUM_OF_SLOTS then [] else L s)"

lemma ticks_abs_short:
  assumes "short D L" and "c < NUM_OF_SLOTS" and "length nows \<le> NUM_OF_SLOTS"
  shows "ticks_abs nows c (D, L, ts) = (D, emptied c (length nows) L,
      ts @ concat (map (\<lambda>k. tasks_of D (L ((c + 1 + k) mod NUM_OF_SLOTS))) [0..<length nows]))"
    and "never_to_self nows c (D, L, ts)"
proof -
  have run: "ticks_abs nows c (D, L, ts) = (D, emptied c (length nows) L,
        ts @ concat (map (\<lambda>k. tasks_of D (L ((c + 1 + k) mod NUM_OF_SLOTS))) [0..<length nows])) \<and>
      never_to_self nows c (D, L, ts)"
    using assms
  proof (induction nows arbitrary: L c ts)
    case Nil
    then show ?case by (simp add: emptied_def)
  next
    case (Cons now nows)
    let ?L = "L(next_slot c := [])" and ?n = "length nows"
    have c': "next_slot c < NUM_OF_SLOTS" by (rule next_slot_facts)
    have shift: "(next_slot c + 1 + k) mod NUM_OF_SLOTS = (c + 1 + Suc k) mod NUM_OF_SLOTS" for k
    proof -
      have "(next_slot c + 1 + k) mod NUM_OF_SLOTS = ((c + 1) mod NUM_OF_SLOTS + (1 + k)) mod NUM_OF_SLOTS"
        by (simp add: next_slot_def)
      also have "\<dots> = (c + 1 + (1 + k)) mod NUM_OF_SLOTS" by (rule mod_add_left_eq)
      finally show ?thesis by simp
    qed
    note IH = Cons.IH [OF tick_abs_short(2) [OF Cons.prems(1), of c] c', of "ts @ tasks_of D (L (next_slot c))"]
    have em: "emptied (next_slot c) ?n ?L = emptied c (Suc ?n) L"
    proof
      fix s
      have "(\<exists>k<Suc ?n. s = (c + 1 + k) mod NUM_OF_SLOTS) \<longleftrightarrow>
          s = next_slot c \<or> (\<exists>k<?n. s = (c + 1 + Suc k) mod NUM_OF_SLOTS)"
        unfolding Ex_less_Suc2 by (simp add: next_slot_def)
      then show "emptied (next_slot c) ?n ?L s = emptied c (Suc ?n) L s"
        unfolding emptied_def shift by auto
    qed
    have "?L ((c + 1 + Suc k) mod NUM_OF_SLOTS) = L ((c + 1 + Suc k) mod NUM_OF_SLOTS)" if "k < ?n" for k
    proof -
      have "(c + 1 + Suc k) mod NUM_OF_SLOTS \<noteq> (c + 1) mod NUM_OF_SLOTS"
      proof
        assume "(c + 1 + Suc k) mod NUM_OF_SLOTS = (c + 1) mod NUM_OF_SLOTS"
        then have "NUM_OF_SLOTS dvd c + 1 + Suc k - (c + 1)" by (simp only: mod_eq_dvd_iff_nat)
        then have "NUM_OF_SLOTS dvd Suc k" by simp
        then have "NUM_OF_SLOTS \<le> Suc k" by (rule dvd_imp_le) simp
        with that Cons.prems(3) show False by simp
      qed
      then show ?thesis by (simp add: next_slot_def)
    qed
    then have m: "map (\<lambda>k. tasks_of D (?L ((c + 1 + Suc k) mod NUM_OF_SLOTS))) [0..<?n] =
        map (\<lambda>k. tasks_of D (L ((c + 1 + Suc k) mod NUM_OF_SLOTS))) [0..<?n]"
      by (simp cong: map_cong del: fun_upd_apply)
    have "concat (map f [0..<length (now # nows)]) = f 0 @ concat (map (\<lambda>k. f (Suc k)) [0..<?n])"
      for f :: "nat \<Rightarrow> nat list"
    proof -
      have "[0..<length (now # nows)] = 0 # map Suc [0..<?n]" by (simp add: map_Suc_upt upt_conv_Cons del: upt_Suc)
      then show ?thesis by (simp add: o_def del: upt_Suc)
    qed
    moreover have "ticks_abs nows (next_slot c) (tick_abs now c (D, L, ts)) = (D, emptied c (Suc ?n) L,
        (ts @ tasks_of D (L (next_slot c))) @ concat (map (\<lambda>k. tasks_of D (L ((c + 1 + Suc k) mod NUM_OF_SLOTS))) [0..<?n]))"
      "never_to_self nows (next_slot c) (tick_abs now c (D, L, ts))"
      unfolding m [symmetric] em [symmetric] tick_abs_short(1) [OF Cons.prems(1)] using IH Cons.prems(3) unfolding shift
      by (simp_all del: fun_upd_apply)
    ultimately show ?case
      using tick_abs_short(3) [OF Cons.prems(1)] by (simp add: next_slot_def del: fun_upd_apply upt_Suc)
  qed
  then show "ticks_abs nows c (D, L, ts) = (D, emptied c (length nows) L,
      ts @ concat (map (\<lambda>k. tasks_of D (L ((c + 1 + k) mod NUM_OF_SLOTS))) [0..<length nows]))"
    "never_to_self nows c (D, L, ts)" by simp_all
qed

end
