(* ===== verification/Wheel_Timer.thy ===== *)
theory Wheel_Timer
  imports Wheel_Tick
begin

text \<open>
  The users of the timer wheel: the state machine \<open>Timer\<close> of \<open>src/reactor/wheel.rs\<close> (the timer
  of \<open>sleep\<close>), and the futures and streams with a timeout of \<open>src/reactor/timeout.rs\<close>. A future
  or stream that is wrapped is a function from its state and the wheel to the result of a poll.
\<close>

section \<open>The wheel of an event loop\<close>

text \<open>\<open>Wheel\<close>: the inner wheel is made when the first timer is scheduled.\<close>

type_synonym wheel_obj = "wheel option"

definition wheel_obj_new :: wheel_obj where
  "wheel_obj_new = None"

definition wheel_obj_schedule :: "nat \<Rightarrow> nat \<Rightarrow> nat \<Rightarrow> wheel_obj \<Rightarrow> (nat \<times> wheel_obj) option" where
  "wheel_obj_schedule now dur task inner =
     (let w = (case inner of None \<Rightarrow> wheel_new | Some w \<Rightarrow> w)
      in map_option (\<lambda>(timer_id, w). (timer_id, Some w)) (wheel_schedule now dur task w))"

definition wheel_obj_reschedule :: "nat \<Rightarrow> nat \<Rightarrow> nat \<Rightarrow> wheel_obj \<Rightarrow> wheel_obj option" where
  "wheel_obj_reschedule now dur timer_id inner =
     do { w \<leftarrow> inner; map_option Some (wheel_reschedule now dur timer_id w) }"

definition wheel_obj_cancel :: "nat \<Rightarrow> wheel_obj \<Rightarrow> wheel_obj option" where
  "wheel_obj_cancel timer_id inner = do { w \<leftarrow> inner; map_option Some (wheel_cancel timer_id w) }"

definition wheel_obj_is_expired :: "nat \<Rightarrow> wheel_obj \<Rightarrow> bool option" where
  "wheel_obj_is_expired timer_id inner = do { w \<leftarrow> inner; is_expired timer_id w }"

section \<open>Timers\<close>

datatype timer_state = Unscheduled nat | Scheduled nat | Expired | Cancelled

definition timer_new :: "nat \<Rightarrow> timer_state" where
  "timer_new secs = (if secs = 0 then Expired else Unscheduled (secs * nanos_per_sec))"

text \<open>The results are ready (\<open>True\<close>) or not; \<open>None\<close> is a call of \<open>unreachable()\<close>.\<close>

fun timer_poll :: "nat \<Rightarrow> nat \<Rightarrow> timer_state \<times> wheel_obj \<Rightarrow> (bool \<times> timer_state \<times> wheel_obj) option" where
  "timer_poll now task (Scheduled timer_id, inner) =
     map_option (\<lambda>b. (b, Scheduled timer_id, inner)) (wheel_obj_is_expired timer_id inner)"
| "timer_poll now task (Unscheduled dur, inner) =
     map_option (\<lambda>(timer_id, inner). (False, Scheduled timer_id, inner)) (wheel_obj_schedule now dur task inner)"
| "timer_poll now task (Expired, inner) = Some (True, Expired, inner)"
| "timer_poll now task (Cancelled, inner) = None"

fun timer_reschedule ::
  "nat \<Rightarrow> nat \<Rightarrow> nat \<Rightarrow> timer_state \<times> wheel_obj \<Rightarrow> (bool \<times> timer_state \<times> wheel_obj) option" where
  "timer_reschedule now task secs (Scheduled timer_id, inner) =
     map_option (\<lambda>inner. (True, Scheduled timer_id, inner))
       (wheel_obj_reschedule now (secs * nanos_per_sec) timer_id inner)"
| "timer_reschedule now task secs (Unscheduled dur, inner) =
     map_option (\<lambda>(timer_id, inner). (True, Scheduled timer_id, inner)) (wheel_obj_schedule now dur task inner)"
| "timer_reschedule now task secs (Expired, inner) = Some (False, Expired, inner)"
| "timer_reschedule now task secs (Cancelled, inner) = None"

fun timer_drop :: "timer_state \<times> wheel_obj \<Rightarrow> (timer_state \<times> wheel_obj) option" where
  "timer_drop (Scheduled timer_id, inner) =
     map_option (\<lambda>inner. (Cancelled, inner)) (wheel_obj_cancel timer_id inner)"
| "timer_drop (st, inner) = Some (st, inner)"

text \<open>\<open>sleep\<close> is a timer, and polling it polls the timer.\<close>

definition sleep :: "nat \<Rightarrow> timer_state" where
  "sleep secs = timer_new secs"

definition sleep_poll :: "nat \<Rightarrow> nat \<Rightarrow> timer_state \<times> wheel_obj \<Rightarrow> (bool \<times> timer_state \<times> wheel_obj) option" where
  "sleep_poll = timer_poll"

section \<open>Timeouts\<close>

text \<open>What \<open>timeout\<close> wraps, and the poll of it: its state and the wheel may change.\<close>

type_synonym ('f, 'a, 'e) poller = "'f \<Rightarrow> wheel_obj \<Rightarrow> ('a, 'e) poll \<times> 'f \<times> wheel_obj"

record 'f timeout_future =
  tf_future :: "'f option"
  tf_timer :: timer_state

definition timeout_future_new :: "'f \<Rightarrow> nat \<Rightarrow> 'f timeout_future" where
  "timeout_future_new future secs = \<lparr>tf_future = Some future, tf_timer = timer_new secs\<rparr>"

text \<open>\<open>err\<close> is the conversion of a \<open>TimeoutError\<close>, which holds the future, to an error.\<close>

definition timeout_future_poll :: "nat \<Rightarrow> nat \<Rightarrow> ('f, 'a, 'e) poller \<Rightarrow> ('f \<Rightarrow> 'e) \<Rightarrow>
    'f timeout_future \<times> wheel_obj \<Rightarrow> (('a, 'e) poll \<times> 'f timeout_future \<times> wheel_obj) option" where
  "timeout_future_poll now task poll_f err = (\<lambda>(tf, inner).
     case tf_future tf of
       None \<Rightarrow> None
     | Some f \<Rightarrow>
         (case poll_f f inner of
            (NotReady, f, inner) \<Rightarrow>
              do {
                (ready, timer, inner) \<leftarrow> timer_poll now task (tf_timer tf, inner);
                if ready then Some (Failed (err f), \<lparr>tf_future = None, tf_timer = timer\<rparr>, inner)
                else Some (NotReady, \<lparr>tf_future = Some f, tf_timer = timer\<rparr>, inner) }
          | (ready, f, inner) \<Rightarrow> Some (ready, tf\<lparr>tf_future := Some f\<rparr>, inner)))"

record 's timeout_stream =
  ts_stream :: "'s option"
  ts_secs :: nat
  ts_timer :: timer_state

definition timeout_stream_new :: "'s \<Rightarrow> nat \<Rightarrow> 's timeout_stream" where
  "timeout_stream_new stream secs = \<lparr>ts_stream = Some stream, ts_secs = secs, ts_timer = timer_new secs\<rparr>"

definition timeout_stream_poll :: "nat \<Rightarrow> nat \<Rightarrow> ('s, 'a option, 'e) poller \<Rightarrow> ('s \<Rightarrow> 'e) \<Rightarrow>
    's timeout_stream \<times> wheel_obj \<Rightarrow> (('a option, 'e) poll \<times> 's timeout_stream \<times> wheel_obj) option" where
  "timeout_stream_poll now task poll_s err = (\<lambda>(ts, inner).
     case ts_stream ts of
       None \<Rightarrow> None
     | Some s \<Rightarrow>
         (case poll_s s inner of
            (NotReady, s, inner) \<Rightarrow>
              do {
                (ready, timer, inner) \<leftarrow> timer_poll now task (ts_timer ts, inner);
                if ready then Some (Failed (err s), ts\<lparr>ts_stream := None, ts_timer := timer\<rparr>, inner)
                else Some (NotReady, ts\<lparr>ts_stream := Some s, ts_timer := timer\<rparr>, inner) }
          | (Ready (Some v), s, inner) \<Rightarrow>
              do {
                (again, timer, inner) \<leftarrow> timer_reschedule now task (ts_secs ts) (ts_timer ts, inner);
                if again then Some (Ready (Some v), ts\<lparr>ts_stream := Some s, ts_timer := timer\<rparr>, inner)
                else Some (Failed (err s), ts\<lparr>ts_stream := None, ts_timer := timer\<rparr>, inner) }
          | (ready_none, s, inner) \<Rightarrow> Some (ready_none, ts\<lparr>ts_stream := Some s\<rparr>, inner)))"

section \<open>Lemmas on timers\<close>

text \<open>A timer that has been scheduled and not dropped has its entry on the wheel.\<close>

definition timer_ok :: "timer_state \<Rightarrow> wheel_obj \<Rightarrow> (nat \<Rightarrow> nat list) \<Rightarrow> bool" where
  "timer_ok st inner L \<longleftrightarrow>
     (case inner of None \<Rightarrow> L = (\<lambda>_. []) | Some w \<Rightarrow> wheel_inv w L \<and> card (dom (slab_map (w_entries w))) < INVALID_INDEX) \<and>
     (case st of Scheduled i \<Rightarrow> \<exists>w. inner = Some w \<and> get_entry i w \<noteq> None | Cancelled \<Rightarrow> False | _ \<Rightarrow> True)"

text \<open>A timer that is due: new with no time to wait, or expired on the wheel.\<close>

definition timer_due :: "timer_state \<Rightarrow> (nat \<Rightarrow> nat list) \<Rightarrow> bool" where
  "timer_due st L = (case st of Scheduled i \<Rightarrow> i \<notin> set (timers L) | Expired \<Rightarrow> True | _ \<Rightarrow> False)"

lemma card_wheel_new: "card (dom (slab_map (w_entries wheel_new))) < INVALID_INDEX"
  by (simp add: wheel_new_def Let_def INVALID_INDEX_def usize_max_def)

lemma wheel_obj_schedule_spec:
  assumes "timer_ok st inner L"
  shows "\<exists>id w' s. wheel_obj_schedule now dur task inner = Some (id, Some w') \<and> s < NUM_OF_SLOTS \<and>
    wheel_inv w' (L(s := L s @ [id])) \<and> get_entry id w' \<noteq> None"
proof -
  let ?w = "case inner of None \<Rightarrow> wheel_new | Some w \<Rightarrow> w"
  have w: "wheel_inv ?w L" "card (dom (slab_map (w_entries ?w))) < INVALID_INDEX"
    using assms wheel_new_inv card_wheel_new by (auto simp: timer_ok_def split: option.splits)
  let ?s = "timeout_slot (w_current ?w) (as_secs dur)"
  have "?s < NUM_OF_SLOTS" by (simp add: timeout_slot_def NUM_OF_SLOTS_def)
  moreover obtain id w' where "wheel_schedule now dur task ?w = Some (id, w')"
    "wheel_inv w' (L(?s := L ?s @ [id]))" "timer_data w' id \<noteq> None"
    using wheel_schedule_spec [OF w, of now dur task] by (auto simp: Let_def)
  ultimately show ?thesis
    using links_dom(3) [of w' id] by (auto simp: wheel_obj_schedule_def Let_def)
qed

lemma timer_poll_spec:
  assumes "timer_ok st inner L"
  shows "\<exists>st' inner'. timer_poll now task (st, inner) = Some (timer_due st L, st', inner') \<and>
    ((\<forall>dur. st \<noteq> Unscheduled dur) \<longrightarrow> st' = st \<and> inner' = inner) \<and>
    (\<forall>dur. st = Unscheduled dur \<longrightarrow> (\<exists>id s L'. st' = Scheduled id \<and> s < NUM_OF_SLOTS \<and> L' = L(s := L s @ [id]) \<and>
      (\<exists>w'. inner' = Some w' \<and> wheel_inv w' L' \<and> get_entry id w' \<noteq> None)))"
proof (cases st)
  case (Unscheduled dur)
  obtain id w' s where "wheel_obj_schedule now dur task inner = Some (id, Some w')" "s < NUM_OF_SLOTS"
    "wheel_inv w' (L(s := L s @ [id]))" "get_entry id w' \<noteq> None"
    using wheel_obj_schedule_spec [OF assms, of now dur task] by blast
  then show ?thesis using Unscheduled by (auto simp: timer_due_def)
next
  case (Scheduled i)
  then obtain w where "inner = Some w" "wheel_inv w L" "get_entry i w \<noteq> None"
    using assms by (auto simp: timer_ok_def)
  then show ?thesis
    using Scheduled is_expired_iff [of w L i] by (auto simp: timer_due_def wheel_obj_is_expired_def)
qed (use assms in \<open>simp_all add: timer_ok_def timer_due_def\<close>)

text \<open>Rescheduling a timer of the wheel that has expired is a call of \<open>unreachable()\<close>.\<close>

lemma timer_reschedule_spec:
  assumes "timer_ok st inner L"
  shows "timer_reschedule now task secs (st, inner) = None \<longleftrightarrow> (\<exists>i. st = Scheduled i) \<and> timer_due st L"
    and "timer_reschedule now task secs (st, inner) = Some (b, st', inner') \<Longrightarrow> b \<longleftrightarrow> st \<noteq> Expired"
proof -
  show "timer_reschedule now task secs (st, inner) = None \<longleftrightarrow> (\<exists>i. st = Scheduled i) \<and> timer_due st L"
  proof (cases st)
    case (Unscheduled dur)
    then show ?thesis using wheel_obj_schedule_spec [OF assms, of now dur task] by (auto simp: timer_due_def)
  next
    case (Scheduled i)
    then obtain w where w: "inner = Some w" "wheel_inv w L" "get_entry i w \<noteq> None"
      using assms by (auto simp: timer_ok_def)
    then obtain task' old where "timer_data w i = Some (task', old)" by (auto simp: timer_data_def)
    from wheel_reschedule_spec(1) [OF w(2) this, of now "secs * nanos_per_sec"] Scheduled w(1) show ?thesis
      by (auto simp: timer_due_def wheel_obj_reschedule_def)
  qed (use assms in \<open>simp_all add: timer_due_def timer_ok_def\<close>)
  show "timer_reschedule now task secs (st, inner) = Some (b, st', inner') \<Longrightarrow> b \<longleftrightarrow> st \<noteq> Expired"
    by (cases st) auto
qed

section \<open>Timers that are lost\<close>

text \<open>A ring with no timers, and an entry beside it that does not count as expired.\<close>

definition orphan :: "nat \<Rightarrow> wheel \<Rightarrow> bool" where
  "orphan x w \<longleftrightarrow> length (w_slots w) = NUM_OF_SLOTS \<and> w_current w < NUM_OF_SLOTS \<and>
     (\<forall>i<NUM_OF_SLOTS. nxt w (TSlot i) = Some (TSlot (next_slot i))) \<and> is_expired x w = Some False"

text \<open>The ring does not depend on where the wheel stands.\<close>

lemma nxt_current: "nxt (w\<lparr>w_current := c\<rparr>) = nxt w" "prv (w\<lparr>w_current := c\<rparr>) = prv w"
  "is_expired x (w\<lparr>w_current := c\<rparr>) = is_expired x w"
  by (auto simp: nxt_def prv_def is_expired_def get_entry_def get_slot_def fun_eq_iff split: token.splits)

lemma is_expired_prv: "is_expired x w = map_option (\<lambda>t. t = TNil) (prv w (TEntry x))"
  by (simp add: is_expired_def prv_def option.map_comp o_def)

lemma orphan_tick:
  assumes "orphan x w"
  shows "wheel_tick env (w, a) = Some (Ok (w\<lparr>w_current := next_slot (w_current w)\<rparr>, a))"
    and "orphan x (w\<lparr>w_current := next_slot (w_current w)\<rparr>)"
proof -
  have "nxt w (TSlot (w_current w)) = Some (TSlot (next_slot (w_current w)))"
    using assms by (simp add: orphan_def)
  then show "wheel_tick env (w, a) = Some (Ok (w\<lparr>w_current := next_slot (w_current w)\<rparr>, a))"
    by (auto simp: nxt_def wheel_tick_def Let_def)
  show "orphan x (w\<lparr>w_current := next_slot (w_current w)\<rparr>)"
    using assms next_slot_facts(1) [of "w_current w"]
    unfolding orphan_def nxt_current by simp
qed

text \<open>No tick will ever find it.\<close>

lemma orphan_forever: "orphan x w \<Longrightarrow> \<exists>w'. wheel_ticks envs (w, a) = Some (Ok (w', a)) \<and> orphan x w'"
proof (induction envs arbitrary: w)
  case (Cons env envs)
  from Cons.IH [OF orphan_tick(2) [OF Cons.prems]] orphan_tick(1) [OF Cons.prems, of env a]
  show ?case by simp
qed simp

lemma next_empty:
  assumes "wheel_inv w L" and "c < NUM_OF_SLOTS" and "L (next_slot c) = []"
  shows "nxt w (TSlot c) = Some (TSlot (next_slot c))" and "prv w (TSlot (next_slot c)) = Some (TSlot c)"
proof -
  have "path (nxt w) (prv w) (seg (next_slot c) (L (next_slot c)))"
    using assms(1) next_slot_facts(1) by (simp add: wheel_inv_def wheel_links_def)
  then show "nxt w (TSlot c) = Some (TSlot (next_slot c))" "prv w (TSlot (next_slot c)) = Some (TSlot c)"
    using assms(3) next_slot_facts(2) [OF assms(2)] by (simp_all add: seg_def)
qed

text \<open>
  A tick whose slot holds one timer only. Once the timer is out of its list, the slot before
  still points to it, and whatever is linked now goes nowhere.
\<close>

lemma lone_tick:
  assumes inv: "wheel_inv w ((\<lambda>_. [])(next_slot c := [x]))" and c: "w_current w = c"
    and e: "get_entry x w = Some e" and w1: "w1 = put_entry x (e\<lparr>e_prev := TNil, e_next := TNil, e_exp := None\<rparr>) w"
    and run: "expire env x (e_exp e) (e_task e) False (w1, a) = Some (False, w2, a2)"
    and w2: "wheel_fit w2" "w_current w2 = c" "\<And>i. i < NUM_OF_SLOTS \<Longrightarrow> nxt w2 (TSlot i) = nxt w (TSlot i)"
    and y: "is_expired y w2 = Some False"
  shows "\<exists>w'. wheel_tick env (w, a) = Some (Ok (w', a2)) \<and> orphan y w' \<and> w_current w' = next_slot c"
proof -
  have cl: "c < NUM_OF_SLOTS" using inv c by (simp add: wheel_inv_def wheel_links_def wheel_fit_def)
  let ?s = "next_slot c" and ?L = "(\<lambda>_. [])(next_slot c := [x])"
  have "path (nxt w) (prv w) (seg ?s (?L ?s))"
    using inv next_slot_facts(1) by (simp only: wheel_inv_def wheel_links_def lessThan_iff)
  then have n: "nxt w (TSlot c) = Some (TEntry x)" "nxt w (TEntry x) = Some (TSlot ?s)"
    using next_slot_facts(2) [OF cl] by (simp_all add: seg_def)
  then obtain sl where sl: "get_slot c w = Some sl" "s_next sl = TEntry x" by (auto simp: nxt_def)
  have "e_next e = TSlot ?s" using n(2) e by (simp add: nxt_def)
  then have loop: "tick_loop env False x (w, a) = Some (Ok (?s, w2, a2))"
    using run e w1 by (subst tick_loop.simps) simp
  obtain w3 where w3: "set_next_of (TSlot c) (TSlot ?s) w2 = Some w3" "wheel_fit w3"
    "nxt w3 = (nxt w2)(TSlot c \<mapsto> TSlot ?s)" "prv w3 = prv w2" "timer_data w3 = timer_data w2" "w_current w3 = c"
    using set_next_of_spec [OF w2(1)] slot_dom(1) [OF w2(1)] cl w2(2) by metis
  have "prv w3 (TSlot ?s) \<noteq> None" using slot_dom(2) [OF w3(2)] next_slot_facts(1) by simp
  then obtain w4 where w4: "set_prev_of (TSlot ?s) (TSlot c) w3 = Some w4" "wheel_fit w4"
    "prv w4 = (prv w3)(TSlot ?s \<mapsto> TSlot c)" "nxt w4 = nxt w3" "timer_data w4 = timer_data w3"
    using set_prev_of_spec [OF w3(2)] by blast
  have "nxt w4 (TSlot i) = Some (TSlot (next_slot i))" if i: "i < NUM_OF_SLOTS" for i
  proof (cases "i = c")
    case False
    then have "next_slot i \<noteq> ?s" using next_slot_facts(2) i cl by metis
    then show ?thesis using next_empty(1) [OF inv i] w2(3) [OF i] False by (simp add: w3 w4)
  qed (simp add: w3 w4)
  moreover have "is_expired y w4 = Some False"
    using y by (simp add: is_expired_prv w3 w4)
  ultimately have "orphan y (w4\<lparr>w_current := ?s\<rparr>)"
    using w4(2) next_slot_facts(1) by (simp add: orphan_def nxt_current wheel_fit_def)
  moreover have "wheel_tick env (w, a) = Some (Ok (w4\<lparr>w_current := ?s\<rparr>, a2))"
    using sl loop w3(1,6) w4(1) by (simp add: wheel_tick_def Let_def c del: set_next_of.simps set_prev_of.simps)
  ultimately show ?thesis by (intro exI [of _ "w4\<lparr>w_current := ?s\<rparr>"]) simp
qed

text \<open>The last links of a timer whose predecessor is, by a stale token of the slot, itself.\<close>

lemma stale_link:
  assumes fit: "wheel_fit v" and E: "get_entry x v = Some E" "e_prev E = TEntry x" and s: "s < NUM_OF_SLOTS"
  shows "\<exists>v1 v2. set_next_of (TEntry x) (TEntry x) v = Some v1 \<and> set_prev_of (TSlot s) (TEntry x) v1 = Some v2 \<and>
    wheel_fit v2 \<and> w_current v2 = w_current v \<and> (\<forall>i. nxt v2 (TSlot i) = nxt v (TSlot i)) \<and> is_expired x v2 = Some False"
proof -
  have "nxt v (TEntry x) \<noteq> None" using E by (simp add: nxt_def)
  then obtain v1 where v1: "set_next_of (TEntry x) (TEntry x) v = Some v1" "wheel_fit v1"
    "nxt v1 = (nxt v)(TEntry x \<mapsto> TEntry x)" "prv v1 = prv v" "w_current v1 = w_current v"
    using set_next_of_spec [OF fit] by blast
  have "prv v1 (TSlot s) \<noteq> None" using slot_dom(2) [OF v1(2)] s by simp
  then obtain v2 where v2: "set_prev_of (TSlot s) (TEntry x) v1 = Some v2" "wheel_fit v2"
    "prv v2 = (prv v1)(TSlot s \<mapsto> TEntry x)" "nxt v2 = nxt v1" "w_current v2 = w_current v1"
    using set_prev_of_spec [OF v1(2)] by blast
  have "prv v2 (TEntry x) = Some (TEntry x)" using E by (simp add: v2 v1 prv_def)
  with v1 v2 show ?thesis by (simp add: is_expired_prv)
qed

text \<open>The situation in which the task of the only timer of a slot runs.\<close>

lemma lone_taken:
  assumes inv: "wheel_inv w ((\<lambda>_. [])(next_slot c := [x]))" and c: "w_current w = c"
    and e: "get_entry x w = Some e" and w1: "w1 = put_entry x (e\<lparr>e_prev := TNil, e_next := TNil, e_exp := None\<rparr>) w"
  shows "wheel_fit w1" and "get_entry x w1 = Some (e\<lparr>e_prev := TNil, e_next := TNil, e_exp := None\<rparr>)"
    and "effective_slot (w_current w1 + 1) w1 = next_slot c"
    and "\<exists>sl. get_slot (next_slot c) w1 = Some sl \<and> s_prev sl = TEntry x"
    and "\<And>i. nxt w1 (TSlot i) = nxt w (TSlot i)" and "w_current w1 = c"
proof -
  have fit: "wheel_fit w" using inv by (simp add: wheel_inv_def wheel_links_def)
  have g: "slab_wf (w_entries w)" "get_entry x w \<noteq> None" using fit e by (simp_all add: wheel_fit_def)
  show fit1: "wheel_fit w1" using get_put_entry(1) [OF g] fit by (simp add: w1 wheel_fit_def)
  show "get_entry x w1 = Some (e\<lparr>e_prev := TNil, e_next := TNil, e_exp := None\<rparr>)"
    using get_put_entry(2) [OF g] by (simp add: w1)
  show cur: "w_current w1 = c" using c by (simp add: w1)
  show "effective_slot (w_current w1 + 1) w1 = next_slot c"
    using timeout_slot_eq(1) [OF fit1, of 1] cur by (simp add: timeout_slot_def next_slot_def NUM_OF_SLOTS_def)
  show "nxt w1 (TSlot i) = nxt w (TSlot i)" for i by (simp add: w1 nxt_def)
  have "prv w (TSlot (next_slot c)) = Some (TEntry x)"
    using seg_last(1) [OF inv [unfolded wheel_inv_def] _ refl, of "next_slot c"] next_slot_facts(1) by simp
  then show "\<exists>sl. get_slot (next_slot c) w1 = Some sl \<and> s_prev sl = TEntry x" by (auto simp: prv_def w1)
qed

lemma entries_update:
  "get_slot j (w\<lparr>w_entries := es\<rparr>) = get_slot j w" "effective_slot k (w\<lparr>w_entries := es\<rparr>) = effective_slot k w"
  "nxt (w\<lparr>w_entries := es\<rparr>) (TSlot j) = nxt w (TSlot j)"
  by (simp_all add: get_slot_def effective_slot_def nxt_def)

text \<open>
  A task that sleeps one second again and again: when it runs, its timer is dropped, then the
  next one is polled.
\<close>

definition sleep_again :: "nat \<Rightarrow> timer_state env" where
  "sleep_again now = \<lparr>clock = (\<lambda>st. (now, st)),
     run_expired_task = (\<lambda>task (w, st).
       case timer_drop (st, Some w) of
         Some (_, inner) \<Rightarrow>
           (case sleep_poll now task (sleep 1, inner) of
              Some (_, st', Some w') \<Rightarrow> (False, w', st')
            | _ \<Rightarrow> (True, w, st))
       | None \<Rightarrow> (True, w, st))\<rparr>"

lemma sleep_again_tick:
  assumes inv: "wheel_inv w ((\<lambda>_. [])(next_slot c := [x]))" and c: "w_current w = c"
    and e: "get_entry x w = Some e" "e_exp e = None" and card: "card (dom (slab_map (w_entries w))) < INVALID_INDEX"
  shows "\<exists>w'. wheel_tick (logged (sleep_again now)) (w, Scheduled x, ts) = Some (Ok (w', Scheduled x, ts @ [e_task e])) \<and>
    orphan x w' \<and> w_current w' = next_slot c"
proof -
  let ?e = "e\<lparr>e_prev := TNil, e_next := TNil, e_exp := None\<rparr>"
  let ?w1 = "put_entry x ?e w"
  note taken = lone_taken [OF inv c e(1) refl]
  obtain sl where sl: "get_slot (next_slot c) ?w1 = Some sl" "s_prev sl = TEntry x" using taken(4) by blast
  have m1: "slab_map (w_entries ?w1) = (slab_map (w_entries w))(x \<mapsto> ?e)"
    using slab_set_spec [of "w_entries w" x ?e] inv e(1)
    by (simp add: put_entry_def get_entry_map wheel_inv_def wheel_links_def wheel_fit_def)
  obtain es where es: "slab_remove x (w_entries ?w1) = (Some ?e, es)" "slab_wf es"
    "slab_map es = (slab_map (w_entries w))(x := None)"
  proof -
    have "slab_wf (w_entries ?w1)" "slab_map (w_entries ?w1) x = Some ?e"
      using taken(1) m1 by (simp_all add: wheel_fit_def)
    then obtain es where "slab_remove x (w_entries ?w1) = (Some ?e, es)" "slab_wf es"
      "slab_map es = (slab_map (w_entries ?w1))(x := None)"
      using slab_remove_spec [of "w_entries ?w1" x] by auto
    then show thesis unfolding m1 fun_upd_upd by (rule that)
  qed
  let ?v = "?w1\<lparr>w_entries := es\<rparr>"
  have cancel: "wheel_cancel x ?w1 = Some ?v" by (simp add: wheel_cancel_def es(1))
  let ?E = "(entry_new (e_task e))\<lparr>e_prev := TEntry x, e_next := TSlot (next_slot c)\<rparr>"
  have "card (dom (slab_map es)) < INVALID_INDEX"
  proof -
    have "finite (dom (slab_map (w_entries w)))" by (simp add: slab_dom)
    then have "card (dom (slab_map es)) \<le> card (dom (slab_map (w_entries w)))"
      by (intro card_mono) (auto simp: es(3))
    with card show ?thesis by simp
  qed
  then obtain i es' where "slab_insert ?E es = (Ok i, es')" "slab_wf es'" "slab_map es' = (slab_map es)(i \<mapsto> ?E)"
    using slab_insert_spec [OF es(2)] by blast
  moreover have "fst (slab_insert ?E es) = Ok x" using slab_insert_after_remove [OF _ es(1)] taken(1) by (simp add: wheel_fit_def)
  ultimately have ins: "slab_insert ?E es = (Ok x, es')" "slab_wf es'" "slab_map es' = (slab_map es)(x \<mapsto> ?E)" by auto
  let ?u = "?v\<lparr>w_entries := es'\<rparr>"
  have fit: "wheel_fit ?u" using taken(1) ins(2) by (simp add: wheel_fit_def)
  have gu: "get_entry x ?u = Some ?E" by (simp add: get_entry_map ins(3))
  have pE: "e_prev ?E = TEntry x" by simp
  obtain v1 v2 where v: "set_next_of (TEntry x) (TEntry x) ?u = Some v1" "set_prev_of (TSlot (next_slot c)) (TEntry x) v1 = Some v2"
    "wheel_fit v2" "w_current v2 = w_current ?u" "\<And>i. nxt v2 (TSlot i) = nxt ?u (TSlot i)" "is_expired x v2 = Some False"
    using stale_link [OF fit gu pE next_slot_facts(1) [of c]] by blast
  have cur: "w_current v2 = c" using v(4) taken(6) by simp
  have eff: "effective_slot (w_current ?v + 1) ?v = next_slot c" using taken(3) by (simp add: entries_update)
  have gs: "get_slot (next_slot c) ?v = Some sl" unfolding entries_update by (rule sl(1))
  have m: "\<not> 1 > w_mask ?v" using taken(1) by (simp add: wheel_fit_def NUM_OF_SLOTS_def)
  have E: "(entry_new (e_task e))\<lparr>e_exp := None, e_prev := TEntry x, e_next := TSlot (next_slot c)\<rparr> = ?E"
    by (simp add: entry_new_def)
  have secs: "as_secs nanos_per_sec = 1" by (simp add: as_secs_def)
  have "wheel_schedule now nanos_per_sec (e_task e) ?v = Some (x, v2)"
    unfolding wheel_schedule_def Let_def secs using m eff gs sl(2) E ins(1) v(1,2)
    by (simp del: set_next_of.simps set_prev_of.simps)
  then have "run_expired_task (sleep_again now) (e_task e) (?w1, Scheduled x) = (False, v2, Scheduled x)"
    by (simp add: sleep_again_def wheel_obj_cancel_def cancel sleep_def sleep_poll_def timer_new_def
        wheel_obj_schedule_def)
  then have run: "expire (logged (sleep_again now)) x (e_exp e) (e_task e) False (?w1, Scheduled x, ts) =
      Some (False, v2, Scheduled x, ts @ [e_task e])"
    by (simp add: expire_def e(2) logged_def)
  have nx: "nxt v2 (TSlot i) = nxt w (TSlot i)" if "i < NUM_OF_SLOTS" for i
  proof -
    have "nxt ?u (TSlot i) = nxt ?w1 (TSlot i)" by (simp only: entries_update)
    then show ?thesis using v(5) [of i] taken(5) by simp
  qed
  show ?thesis by (rule lone_tick [OF inv c e(1) refl run v(3) cur nx v(6)])
qed

text \<open>
  A timer with an expiration of its own that has between 1 and 1.5 seconds left: it is put back
  to the slot that the tick is emptying.
\<close>

lemma reexamined_tick:
  assumes inv: "wheel_inv w ((\<lambda>_. [])(next_slot c := [x]))" and c: "w_current w = c"
    and e: "get_entry x w = Some e" "e_exp e = Some exp" and ck: "clock env a = (now, a)"
    and left: "now + nanos_per_sec \<le> exp" "exp < now + nanos_per_sec + 500000000"
  shows "\<exists>w'. wheel_tick env (w, a) = Some (Ok (w', a)) \<and> orphan x w' \<and> w_current w' = next_slot c"
proof -
  let ?e = "e\<lparr>e_prev := TNil, e_next := TNil, e_exp := None\<rparr>"
  let ?w1 = "put_entry x ?e w"
  note taken = lone_taken [OF inv c e(1) refl]
  obtain sl where sl: "get_slot (next_slot c) ?w1 = Some sl" "s_prev sl = TEntry x" using taken(4) by blast
  have secs: "round_to_secs (exp - now) = 1"
  proof -
    have "exp - now = nanos_per_sec + (exp - now - nanos_per_sec)" "exp - now - nanos_per_sec < 500000000"
      using left by simp_all
    then obtain r where "exp - now = nanos_per_sec + r" "r < 500000000" by blast
    then show ?thesis by (simp add: round_to_secs_def as_secs_def)
  qed
  let ?v = "put_entry x (?e\<lparr>e_prev := TEntry x, e_next := TSlot (next_slot c)\<rparr>) ?w1"
  have g: "slab_wf (w_entries ?w1)" "get_entry x ?w1 \<noteq> None" using taken(1,2) by (simp_all add: wheel_fit_def)
  have gv: "get_entry x ?v = Some (?e\<lparr>e_prev := TEntry x, e_next := TSlot (next_slot c)\<rparr>)"
    using get_put_entry(2) [OF g] by simp
  have fit: "wheel_fit ?v" using get_put_entry(1) [OF g] taken(1) by (simp add: wheel_fit_def)
  have pv: "e_prev (?e\<lparr>e_prev := TEntry x, e_next := TSlot (next_slot c)\<rparr>) = TEntry x" by simp
  obtain v1 v2 where v: "set_next_of (TEntry x) (TEntry x) ?v = Some v1" "set_prev_of (TSlot (next_slot c)) (TEntry x) v1 = Some v2"
    "wheel_fit v2" "w_current v2 = w_current ?v" "\<And>i. nxt v2 (TSlot i) = nxt ?v (TSlot i)" "is_expired x v2 = Some False"
    using stale_link [OF fit gv pv next_slot_facts(1) [of c]] by blast
  have cur: "w_current v2 = c" using v(4) taken(6) by simp
  have m: "\<not> 1 > w_mask ?w1" using taken(1) by (simp add: wheel_fit_def NUM_OF_SLOTS_def)
  have "reschedule_internal now (exp - now) (Some exp) x ?w1 = Some v2"
    unfolding reschedule_internal_def Let_def secs using m taken(2,3) sl v(1,2)
    by (simp del: set_next_of.simps set_prev_of.simps)
  then have run: "expire env x (e_exp e) (e_task e) False (?w1, a) = Some (False, v2, a)"
    using left by (simp add: expire_def e(2) ck)
  have nx: "nxt v2 (TSlot i) = nxt w (TSlot i)" if "i < NUM_OF_SLOTS" for i
    using v(5) [of i] taken(5) by (simp add: nxt_def)
  show ?thesis by (rule lone_tick [OF inv c e(1) refl run v(3) cur nx v(6)])
qed

text \<open>Ticks over empty slots only move the wheel on, whatever the tasks would do.\<close>

lemma empty_ticks:
  assumes "wheel_inv w L" and "w_current w = c" and "\<forall>k<length envs. L ((c + 1 + k) mod NUM_OF_SLOTS) = []"
  shows "\<exists>w'. wheel_ticks envs (w, a) = Some (Ok (w', a)) \<and> wheel_inv w' L \<and>
    w_current w' = (next_slot ^^ length envs) c \<and> (\<forall>i. get_entry i w' = get_entry i w) \<and> w_entries w' = w_entries w"
  using assms
proof (induction envs arbitrary: w c)
  case (Cons env envs)
  let ?w = "w\<lparr>w_current := next_slot c\<rparr>"
  have c: "c < NUM_OF_SLOTS" using Cons.prems(1,2) by (simp add: wheel_inv_def wheel_links_def wheel_fit_def)
  have "L (next_slot c) = []" using Cons.prems(3) by (auto simp: next_slot_def)
  from next_empty(1) [OF Cons.prems(1) c this] have t: "wheel_tick env (w, a) = Some (Ok (?w, a))"
    by (auto simp: nxt_def wheel_tick_def Let_def Cons.prems(2))
  have "wheel_inv ?w L"
    using Cons.prems(1) next_slot_facts(1) [of c]
    by (simp add: wheel_inv_def wheel_links_def nxt_current) (simp add: wheel_fit_def get_entry_def)
  moreover have "\<forall>k<length envs. L ((next_slot c + 1 + k) mod NUM_OF_SLOTS) = []"
  proof (intro allI impI)
    fix k assume "k < length envs"
    then have "L ((c + 1 + Suc k) mod NUM_OF_SLOTS) = []" using Cons.prems(3) by (metis Suc_mono length_Cons)
    moreover have "(next_slot c + 1 + k) mod NUM_OF_SLOTS = (c + 1 + Suc k) mod NUM_OF_SLOTS"
      using mod_add_left_eq [of "c + 1" NUM_OF_SLOTS "1 + k"] by (simp add: next_slot_def)
    ultimately show "L ((next_slot c + 1 + k) mod NUM_OF_SLOTS) = []" by simp
  qed
  ultimately obtain w' where "wheel_ticks envs (?w, a) = Some (Ok (w', a))" "wheel_inv w' L"
    "w_current w' = (next_slot ^^ length envs) (next_slot c)" "\<forall>i. get_entry i w' = get_entry i ?w" "w_entries w' = w_entries ?w"
    using Cons.IH [of ?w "next_slot c"] by auto
  with t show ?case by (simp add: funpow_swap1 get_entry_def)
qed simp

lemma wheel_ticks_append:
  "wheel_ticks xs wx = Some (Ok wx') \<Longrightarrow> wheel_ticks (xs @ ys) wx = wheel_ticks ys wx'"
  by (induction xs arbitrary: wx) (auto split: option.splits outcome.splits)

end
