(* ===== verification/Reactor_Correct.thy ===== *)
theory Reactor_Correct
  imports Wheel_Timer
begin

text \<open>
  What the slab, the timer wheel and the timeouts guarantee to their users, and where they do not.
\<close>

section \<open>The slab\<close>

lemma slab_calls:
  assumes "slab_wf s" and "length cs + card (dom (slab_map s)) \<le> INVALID_INDEX"
  shows "\<exists>es s'. arena_run slab_insert slab_remove slab_set cs s = Some (es, s') \<and> slab_wf s' \<and>
    length es = length cs \<and> log_ok es (slab_map s) \<and> slab_map s' = replay es (slab_map s) \<and>
    slab_len s' = card (dom (slab_map s'))"
proof -
  obtain es s' where "arena_run slab_insert slab_remove slab_set cs s = Some (es, s')" "slab_wf s'"
    "length es = length cs" "log_ok es (slab_map s)" "slab_map s' = replay es (slab_map s)"
    using slab_arena.run_log [OF assms(1) slab_set_absent assms(2)] by blast
  with slab_len_map show ?thesis by blast
qed

lemma slab_reserve_spec:
  "slab_map (slab_reserve n s) = slab_map s \<and> objs_cap s \<le> objs_cap (slab_reserve n s) \<and>
   (slab_len s \<le> length (objs s) \<longrightarrow> length (objs s) = objs_cap s \<longrightarrow> slab_len s + n \<le> objs_cap (slab_reserve n s)) \<and>
   (let five = \<lparr>objs = map Used [0..<5], objs_cap = 10, slab_len = 5, hfree = INVALID_INDEX\<rparr>
    in slab_wf five \<and> objs_cap (slab_reserve 8 five) = 10 \<and> objs_cap (slab_reserve_exact 8 five) = 10)"
proof -
  have "slab_map (slab_reserve n s) = slab_map s"
    by (simp add: slab_map_def slab_get_def slab_reserve_def Let_def fun_eq_iff)
  moreover have "objs_cap s \<le> objs_cap (slab_reserve n s)"
    by (auto simp: slab_reserve_def vec_reserve_def Let_def max_def)
  moreover have "slab_len s + n \<le> objs_cap (slab_reserve n s)"
    if "slab_len s \<le> length (objs s)" "length (objs s) = objs_cap s"
    using that by (auto simp: slab_reserve_def vec_reserve_def Let_def)
  moreover have "let five = \<lparr>objs = map Used [0..<5], objs_cap = 10, slab_len = 5, hfree = INVALID_INDEX\<rparr>
    in slab_wf five \<and> objs_cap (slab_reserve 8 five) = 10 \<and> objs_cap (slab_reserve_exact 8 five) = 10"
  proof -
    let ?five = "\<lparr>objs = map Used [0..<5], objs_cap = 10, slab_len = 5, hfree = INVALID_INDEX\<rparr>"
    have "used_at (map Used [0..<5]) = {..<5}" "free_at (map Used [0..<5]) = {}" by (auto simp: used_at_def free_at_def)
    then have "slab_wf ?five"
      by (intro slab_wfI [of _ "[]"]) (simp_all add: INVALID_INDEX_def usize_max_def)
    then show ?thesis
      by (simp add: slab_reserve_def slab_reserve_exact_def vec_reserve_def vec_reserve_exact_def Let_def)
  qed
  ultimately show ?thesis by blast
qed

text \<open>
  C12. Any calls to a slab return what a finite map would: an insertion gives an index that is not
  in use, a removal gives what the index held. No call panics as long as indices remain.
  \<open>reserve\<close> changes no element and never shrinks the slab, and it makes room for the
  elements asked for when no allocated place is beyond the last object. Otherwise it may not:
  five elements in a slab of capacity 10 stay without room for eight more.
\<close>

theorem slab_is_a_map:
  assumes "slab_wf s" and "length cs + card (dom (slab_map s)) \<le> INVALID_INDEX"
  shows "(\<exists>es s'. arena_run slab_insert slab_remove slab_set cs s = Some (es, s') \<and> slab_wf s' \<and>
    length es = length cs \<and> log_ok es (slab_map s) \<and> slab_map s' = replay es (slab_map s) \<and>
    slab_len s' = card (dom (slab_map s'))) \<and>
   slab_map (slab_reserve n s) = slab_map s \<and> objs_cap s \<le> objs_cap (slab_reserve n s) \<and>
   (slab_len s \<le> length (objs s) \<longrightarrow> length (objs s) = objs_cap s \<longrightarrow> slab_len s + n \<le> objs_cap (slab_reserve n s)) \<and>
   (let five = \<lparr>objs = map Used [0..<5], objs_cap = 10, slab_len = 5, hfree = INVALID_INDEX\<rparr>
    in slab_wf five \<and> objs_cap (slab_reserve 8 five) = 10 \<and> objs_cap (slab_reserve_exact 8 five) = 10)"
  by (rule conjI [OF slab_calls [OF assms] slab_reserve_spec])

theorem slab_is_a_map_witness:
  "\<exists>es s'. arena_run slab_insert slab_remove slab_set [Insert 7, Insert 8, Remove 0, Insert (9::nat)] slab_new = Some (es, s') \<and>
    log_ok es Map.empty \<and> slab_len s' = 2"
proof -
  let ?cs = "[Insert 7, Insert 8, Remove 0, Insert (9::nat)]"
  have "length ?cs + card (dom (slab_map (slab_new :: nat slab))) \<le> INVALID_INDEX"
    by (simp add: INVALID_INDEX_def usize_max_def)
  then obtain es s' where r: "arena_run slab_insert slab_remove slab_set ?cs slab_new = Some (es, s')"
    "log_ok es (slab_map (slab_new :: nat slab))"
    using conjunct1 [OF slab_is_a_map [OF slab_fresh(1)]] by blast
  then have "slab_len s' = 2"
    by (auto simp: slab_insert_def slab_remove_def slab_new_def INVALID_INDEX_def usize_max_def Let_def)
  with r show ?thesis by auto
qed

section \<open>The timer wheel\<close>

text \<open>
  C13. Scheduling appends a timer to the list of the slot that its whole seconds, at most 127,
  lead to; rescheduling moves it to the end of the slot of its rounded seconds, and is possible
  exactly for the timers in a list; cancelling takes it out of its list, if it is in one, and frees
  its entry. The links stay consistent, and the other timers where they are.
\<close>

theorem wheel_calls_correct:
  assumes "wheel_inv w L" and "card (dom (slab_map (w_entries w))) < INVALID_INDEX"
  shows "(\<exists>x w'. wheel_schedule now dur task w = Some (x, w') \<and> get_entry x w = None \<and>
      (let s = timeout_slot (w_current w) (as_secs dur) in wheel_inv w' (L(s := L s @ [x]))) \<and>
      timer_data w' = (timer_data w)(x \<mapsto> (task, if as_secs dur > 127 then Some (now + dur) else None))) \<and>
    (timer_data w x = Some (task', old) \<longrightarrow>
      (wheel_reschedule now dur x w \<noteq> None \<longleftrightarrow> x \<in> set (timers L)) \<and>
      (\<forall>w'. wheel_reschedule now dur x w = Some w' \<longrightarrow>
        (let s = timeout_slot (w_current w) (round_to_secs dur); L1 = without x L
         in wheel_inv w' (L1(s := L1 s @ [x]))) \<and>
        timer_data w' = (timer_data w)(x \<mapsto> (task', if round_to_secs dur > 127 then Some (now + dur) else old))) \<and>
      (\<exists>w'. wheel_cancel x w = Some w' \<and> wheel_inv w' (without x L) \<and> timer_data w' = (timer_data w)(x := None)))"
proof -
  have n: "NUM_OF_SLOTS - 1 = 127" by (simp add: NUM_OF_SLOTS_def)
  have "\<exists>w'. wheel_cancel x w = Some w' \<and> wheel_inv w' (without x L) \<and> timer_data w' = (timer_data w)(x := None)"
    if "timer_data w x = Some (task', old)"
    using wheel_cancel_spec [OF assms(1), of x] links_dom(3) [of w x] that by fastforce
  moreover note wheel_reschedule_spec [OF assms(1), of x task' old now dur, unfolded n]
  moreover have "\<exists>x w'. wheel_schedule now dur task w = Some (x, w') \<and> get_entry x w = None \<and>
      (let s = timeout_slot (w_current w) (as_secs dur) in wheel_inv w' (L(s := L s @ [x]))) \<and>
      timer_data w' = (timer_data w)(x \<mapsto> (task, if as_secs dur > 127 then Some (now + dur) else None))"
    using wheel_schedule_spec [OF assms, of now dur task, unfolded n] by blast
  ultimately show ?thesis by (intro conjI impI allI) simp_all
qed

theorem wheel_calls_correct_witness:
  "\<exists>x w'. wheel_schedule 0 (5 * nanos_per_sec) 1 wheel_new = Some (x, w') \<and> wheel_inv w' ((\<lambda>_. [])(5 := [x]))"
proof -
  have "timeout_slot (w_current wheel_new) (as_secs (5 * nanos_per_sec)) = 5"
    by (simp add: wheel_new_def timeout_slot_def as_secs_def NUM_OF_SLOTS_def Let_def)
  moreover obtain x w' where "wheel_schedule 0 (5 * nanos_per_sec) 1 wheel_new = Some (x, w')"
    "let s = timeout_slot (w_current wheel_new) (as_secs (5 * nanos_per_sec)) in wheel_inv w' ((\<lambda>_. [])(s := [] @ [x]))"
    using wheel_calls_correct [OF wheel_new_inv card_wheel_new, of 0 "5 * nanos_per_sec" 1 0 0 None] by blast
  ultimately show ?thesis by (auto simp: Let_def)
qed

definition drop_expired :: "nat \<Rightarrow> nat env" where
  "drop_expired now = \<lparr>clock = (\<lambda>x. (now, x)),
     run_expired_task = (\<lambda>task (w, x).
       (False, if is_expired x w = Some True then (case wheel_cancel x w of Some w' \<Rightarrow> w' | None \<Rightarrow> w) else w, x))\<rparr>"

lemma quiet_drop_expired: "quiet (drop_expired now) now"
proof -
  have "drops w w'" if "is_expired x w = Some True" "wheel_cancel x w = Some w'" for x w w'
  proof -
    note exp = that(1) and cancel = that(2)
    obtain e where e: "get_entry x w = Some e" "e_prev e = TNil" using exp by (auto simp: is_expired_def)
    then have s: "slab_get x (w_entries w) = Some e" by (simp add: get_entry_def)
    then obtain es where es: "slab_remove x (w_entries w) = (Some e, es)"
      by (auto simp: slab_remove_def slab_get_Some_iff)
    then have w': "w' = w\<lparr>w_entries := es\<rparr>" using cancel e(2) by (simp add: wheel_cancel_def)
    have "slab_get i es = (if i = x then None else slab_get i (w_entries w))" for i
      using es s by (auto simp: slab_remove_def slab_get_def nth_list_update split: if_splits object.splits)
    moreover have "slab_wf (w_entries w) \<Longrightarrow> slab_wf es"
      using slab_remove_spec [of "w_entries w" x] es by auto
    ultimately show ?thesis using e by (auto simp: drops_def w' get_entry_def prv_def)
  qed
  then show ?thesis
    by (auto simp: quiet_def drop_expired_def split: if_splits option.splits) (auto simp: drops_def)
qed

text \<open>
  C14. As long as the tasks only drop timers that have expired, and no timer is put back to the slot
  it is in, ticks in sequence do exactly what the wheel of lists does: each empties the next slot,
  runs its timers in order, and puts back those with a second or more to wait. No tick panics, none
  fails to return, and the ring stays consistent.
\<close>

theorem wheel_ticks_correct:
  assumes "wheel_inv w L" and "agree D w L" and "list_all2 quiet envs nows"
    and "never_to_self nows (w_current w) (D, L, ts)" and "ticks_abs nows (w_current w) (D, L, ts) = (D', L', ts')"
  shows "\<exists>w' a'. wheel_ticks (map logged envs) (w, a, ts) = Some (Ok (w', a', ts')) \<and> wheel_inv w' L' \<and>
    agree D' w' L' \<and> w_current w' = (w_current w + length nows) mod NUM_OF_SLOTS"
proof -
  obtain w' a' where w': "wheel_ticks (map logged envs) (w, a, ts) = Some (Ok (w', a', ts'))" "wheel_inv w' L'"
    "w_current w' = (next_slot ^^ length nows) (w_current w)" "agree D' w' L'"
    using wheel_ticks_spec [OF assms(1,3,2) refl assms(4,5)] by blast
  have "w_current w < NUM_OF_SLOTS" using assms(1) by (simp add: wheel_inv_def wheel_links_def wheel_fit_def)
  with w'(3) have "w_current w' = (w_current w + length nows) mod NUM_OF_SLOTS"
    unfolding next_slot_funpow by (auto simp: NUM_OF_SLOTS_def)
  with w' show ?thesis by blast
qed

theorem wheel_ticks_correct_witness:
  "\<exists>x w w' a'. wheel_schedule 0 (2 * nanos_per_sec) 9 wheel_new = Some (x, w) \<and>
    wheel_ticks (map logged [drop_expired 1, drop_expired 2]) (w, x, []) = Some (Ok (w', a', [9]))"
proof -
  have slot: "timeout_slot (w_current wheel_new) (as_secs (2 * nanos_per_sec)) = 2"
    by (simp add: wheel_new_def timeout_slot_def as_secs_def NUM_OF_SLOTS_def Let_def)
  obtain x w where w: "wheel_schedule 0 (2 * nanos_per_sec) 9 wheel_new = Some (x, w)"
    "wheel_inv w ((\<lambda>_. [])(2 := [x]))" "timer_data w x = Some (9, None)" "w_current w = 0"
    using wheel_schedule_spec [OF wheel_new_inv card_wheel_new, of 0 "2 * nanos_per_sec" 9, unfolded slot]
    by (auto simp: Let_def as_secs_def NUM_OF_SLOTS_def wheel_new_def)
  let ?L = "(\<lambda>_. [])(2 := [x])" and ?D = "[x \<mapsto> (9::nat, None :: nat option)]"
  have "agree ?D w ?L" using w(3) by (auto simp: agree_def set_timers split: if_splits)
  moreover have "never_to_self [1, 2] (w_current w) (?D, ?L, [])"
    "ticks_abs [1, 2] (w_current w) (?D, ?L, []) = (?D, ?L(1 := [], 2 := []), [9])"
  proof -
    have n: "next_slot 0 = 1" "next_slot 1 = 2" by (simp_all add: next_slot_def NUM_OF_SLOTS_def)
    have t: "tick_abs 1 0 (?D, ?L, []) = (?D, ?L(1 := []), [])"
      "tick_abs 2 1 (?D, ?L(1 := []), []) = (?D, ?L(1 := [], 2 := []), [9])"
      unfolding tick_abs_def n by (simp_all add: deferred_def)
    show "ticks_abs [1, 2] (w_current w) (?D, ?L, []) = (?D, ?L(1 := [], 2 := []), [9])"
      unfolding w(4) ticks_abs.simps n t ..
    show "never_to_self [1, 2] (w_current w) (?D, ?L, [])"
      unfolding w(4) never_to_self.simps n t by (simp add: not_to_self_def)
  qed
  moreover have "list_all2 quiet [drop_expired 1, drop_expired 2] [1, 2]"
    by (simp add: quiet_drop_expired)
  ultimately obtain w' a' where
    "wheel_ticks (map logged [drop_expired 1, drop_expired 2]) (w, x, []) = Some (Ok (w', a', [9]))"
    using wheel_ticks_correct [OF w(2), of ?D "[drop_expired 1, drop_expired 2]" "[1, 2]" "[]" ?D "?L(1 := [], 2 := [])" "[9]" x]
    by blast
  with w(1) show ?thesis by (intro exI conjI)
qed



text \<open>Ticks on time, the \<open>k\<close>-th at \<open>k\<close> seconds.\<close>

definition seconds :: "nat \<Rightarrow> nat env list" where
  "seconds n = map (\<lambda>k. drop_expired (Suc k * nanos_per_sec)) [0..<n]"

lemma lost_sleep_poll:
  "orphan x w \<Longrightarrow> \<exists>w'. wheel_ticks envs (w, a) = Some (Ok (w', a)) \<and>
    sleep_poll now task (Scheduled x, Some w') = Some (False, Scheduled x, Some w')"
  using orphan_forever [of x w envs a]
  by (auto simp: sleep_poll_def wheel_obj_is_expired_def orphan_def)

lemma wheel_new_facts:
  "w_current wheel_new = 0" "timer_data wheel_new = Map.empty"
  by (simp_all add: wheel_new_def Let_def timer_data_def get_entry_map fun_eq_iff)

lemma first_timer:
  assumes t: "timer_data w = [x \<mapsto> (7, exp)]"
  shows "\<exists>e. get_entry x w = Some e \<and> e_task e = 7 \<and> e_exp e = exp \<and> card (dom (slab_map (w_entries w))) < INVALID_INDEX"
proof -
  have "get_entry i w = None \<longleftrightarrow> i \<noteq> x" for i using links_dom(3) [of w i] by (auto simp: t split: if_splits)
  then have "dom (slab_map (w_entries w)) = {x}" by (auto simp: dom_def simp flip: get_entry_map)
  then have "card (dom (slab_map (w_entries w))) < INVALID_INDEX" by (simp add: INVALID_INDEX_def usize_max_def)
  moreover have "\<exists>e. get_entry x w = Some e \<and> e_task e = 7 \<and> e_exp e = exp"
    using fun_cong [OF t, of x] by (auto simp: timer_data_def)
  ultimately show ?thesis by blast
qed

lemma first_schedule:
  assumes "timeout_slot 0 (as_secs dur) = s"
  shows "\<exists>x w. wheel_schedule now dur 7 wheel_new = Some (x, w) \<and> wheel_inv w ((\<lambda>_. [])(s := [x])) \<and>
    timer_data w = [x \<mapsto> (7, if as_secs dur > 127 then Some (now + dur) else None)] \<and> w_current w = 0"
  using wheel_schedule_spec [OF wheel_new_inv card_wheel_new, of now dur 7] assms
  by (auto simp: Let_def wheel_new_facts NUM_OF_SLOTS_def)

lemma second_sleep_lost:
  "\<exists>x w0 w1. sleep_poll 0 7 (sleep 1, wheel_obj_new) = Some (False, Scheduled x, Some w0) \<and>
      wheel_tick (logged (sleep_again nanos_per_sec)) (w0, Scheduled x, []) = Some (Ok (w1, Scheduled x, [7])) \<and>
      (\<forall>(envs :: nat env list) a now. \<exists>w. wheel_ticks envs (w1, a) = Some (Ok (w, a)) \<and>
        sleep_poll now 7 (Scheduled x, Some w) = Some (False, Scheduled x, Some w))"
proof -
  have one: "timeout_slot 0 (as_secs nanos_per_sec) = next_slot 0"
    by (simp add: timeout_slot_def next_slot_def as_secs_def NUM_OF_SLOTS_def)
  obtain x w0 where w0: "wheel_schedule 0 nanos_per_sec 7 wheel_new = Some (x, w0)"
    "wheel_inv w0 ((\<lambda>_. [])(next_slot 0 := [x]))" "timer_data w0 = [x \<mapsto> (7, None)]" "w_current w0 = 0"
    using first_schedule [OF one, of 0] by (auto simp: as_secs_def)
  obtain e where e: "get_entry x w0 = Some e" "e_exp e = None" "e_task e = 7" "card (dom (slab_map (w_entries w0))) < INVALID_INDEX"
    using first_timer [OF w0(3)] by blast
  obtain w1 where w1: "wheel_tick (logged (sleep_again nanos_per_sec)) (w0, Scheduled x, []) = Some (Ok (w1, Scheduled x, [7]))"
    "orphan x w1"
    using sleep_again_tick [OF w0(2,4) e(1,2,4), of nanos_per_sec "[]"] e(3) by auto
  have "sleep_poll 0 7 (sleep 1, wheel_obj_new) = Some (False, Scheduled x, Some w0)"
    using w0(1) by (simp add: sleep_poll_def sleep_def timer_new_def wheel_obj_new_def wheel_obj_schedule_def)
  moreover have "\<forall>(envs :: nat env list) a now. \<exists>w. wheel_ticks envs (w1, a) = Some (Ok (w, a)) \<and>
      sleep_poll now 7 (Scheduled x, Some w) = Some (False, Scheduled x, Some w)"
    using lost_sleep_poll [OF w1(2)] by (intro allI)
  ultimately show ?thesis using w1(1) by (intro exI conjI)
qed

lemma long_sleep_lost:
  "\<exists>x w0 w1. sleep_poll 300000000 7 (sleep 128, wheel_obj_new) = Some (False, Scheduled x, Some w0) \<and>
      wheel_ticks (seconds 127) (w0, 0) = Some (Ok (w1, 0)) \<and>
      (\<forall>(envs :: nat env list) a now. \<exists>w. wheel_ticks envs (w1, a) = Some (Ok (w, a)) \<and>
        sleep_poll now 7 (Scheduled x, Some w) = Some (False, Scheduled x, Some w))"
proof -
  have long: "timeout_slot 0 (as_secs (128 * nanos_per_sec)) = 127" "next_slot 126 = 127"
    by (simp_all add: timeout_slot_def next_slot_def as_secs_def NUM_OF_SLOTS_def)
  obtain y v0 where v0: "wheel_schedule 300000000 (128 * nanos_per_sec) 7 wheel_new = Some (y, v0)"
    "wheel_inv v0 ((\<lambda>_. [])(127 := [y]))" "timer_data v0 = [y \<mapsto> (7, Some (300000000 + 128 * nanos_per_sec))]" "w_current v0 = 0"
    using first_schedule [OF long(1), of 300000000] by (auto simp: as_secs_def)
  obtain e where e: "get_entry y v0 = Some e" "e_exp e = Some (300000000 + 128 * nanos_per_sec)"
    using first_timer [OF v0(3)] by blast
  have len: "length (seconds 126) = 126" by (simp add: seconds_def)
  have "(0 + 1 + k) mod NUM_OF_SLOTS \<noteq> 127" if "k < 126" for k using that by (simp add: NUM_OF_SLOTS_def)
  then have "\<forall>k<length (seconds 126). ((\<lambda>_. [])(127 := [y])) ((0 + 1 + k) mod NUM_OF_SLOTS) = []" unfolding len by auto
  from empty_ticks [OF v0(2,4) this, of 0] obtain v where v: "wheel_ticks (seconds 126) (v0, 0) = Some (Ok (v, 0))"
    "wheel_inv v ((\<lambda>_. [])(127 := [y]))" "w_current v = 126" "get_entry y v = Some e"
    unfolding len next_slot_funpow by (auto simp: NUM_OF_SLOTS_def e simp del: fun_upd_apply)
  have "clock (drop_expired (127 * nanos_per_sec)) 0 = (127 * nanos_per_sec, 0)" by (simp add: drop_expired_def)
  from reexamined_tick [OF v(2) [folded long(2)] v(3,4) e(2) this]
  obtain v1 where v1: "wheel_tick (drop_expired (127 * nanos_per_sec)) (v, 0) = Some (Ok (v1, 0))" "orphan y v1"
    by auto
  have "seconds 127 = seconds 126 @ [drop_expired (127 * nanos_per_sec)]"
    by (simp add: seconds_def upt_rec [of 126] upt_add_eq_append [of 0 126 1, simplified])
  then have "wheel_ticks (seconds 127) (v0, 0) = Some (Ok (v1, 0))"
    using wheel_ticks_append [OF v(1)] v1(1) by simp
  moreover have "sleep_poll 300000000 7 (sleep 128, wheel_obj_new) = Some (False, Scheduled y, Some v0)"
    using v0(1) by (simp add: sleep_poll_def sleep_def timer_new_def wheel_obj_new_def wheel_obj_schedule_def)
  moreover have "\<forall>(envs :: nat env list) a now. \<exists>w. wheel_ticks envs (v1, a) = Some (Ok (w, a)) \<and>
      sleep_poll now 7 (Scheduled y, Some w) = Some (False, Scheduled y, Some w)"
    using lost_sleep_poll [OF v1(2)] by (intro allI)
  ultimately show ?thesis by (intro exI conjI)
qed

text \<open>
  C16. Some sleeps never end. A task that sleeps one second twice, with no other timer due at the
  same time, waits for ever after the first second: its second timer is linked behind the entry of
  the first, which the tick cuts off. And a sleep of 128 seconds that begins 0.3 seconds after a
  tick is put back, in its 127th tick, to the very slot that this tick then empties.
\<close>

theorem sleep_lost:
  "(\<exists>x w0 w1. sleep_poll 0 7 (sleep 1, wheel_obj_new) = Some (False, Scheduled x, Some w0) \<and>
      wheel_tick (logged (sleep_again nanos_per_sec)) (w0, Scheduled x, []) = Some (Ok (w1, Scheduled x, [7])) \<and>
      (\<forall>(envs :: nat env list) a now. \<exists>w. wheel_ticks envs (w1, a) = Some (Ok (w, a)) \<and>
        sleep_poll now 7 (Scheduled x, Some w) = Some (False, Scheduled x, Some w))) \<and>
   (\<exists>x w0 w1. sleep_poll 300000000 7 (sleep 128, wheel_obj_new) = Some (False, Scheduled x, Some w0) \<and>
      wheel_ticks (seconds 127) (w0, 0) = Some (Ok (w1, 0)) \<and>
      (\<forall>(envs :: nat env list) a now. \<exists>w. wheel_ticks envs (w1, a) = Some (Ok (w, a)) \<and>
        sleep_poll now 7 (Scheduled x, Some w) = Some (False, Scheduled x, Some w)))"
  using second_sleep_lost long_sleep_lost by (rule conjI)

section \<open>Timeouts\<close>

lemma timeout_future_correct:
  assumes "tf_future tf = Some f" and "poll_f f inner = (r, f', inner1)" and "timer_ok (tf_timer tf) inner1 L"
  shows "\<exists>r' tf' inner'. timeout_future_poll now task poll_f err (tf, inner) = Some (r', tf', inner') \<and>
    r' = (if r = NotReady \<and> timer_due (tf_timer tf) L then Failed (err f') else r) \<and>
    (r = NotReady \<longrightarrow> (tf_future tf' = None \<longleftrightarrow> timer_due (tf_timer tf) L)) \<and>
    (r' = NotReady \<longrightarrow> (\<exists>i w L'. tf_timer tf' = Scheduled i \<and> inner' = Some w \<and> wheel_inv w L' \<and> i \<in> set (timers L')))"
proof (cases r)
  case NotReady
  obtain st inner' where p: "timer_poll now task (tf_timer tf, inner1) = Some (timer_due (tf_timer tf) L, st, inner')"
    "(\<forall>dur. tf_timer tf \<noteq> Unscheduled dur) \<longrightarrow> st = tf_timer tf \<and> inner' = inner1"
    "\<forall>dur. tf_timer tf = Unscheduled dur \<longrightarrow> (\<exists>id s L'. st = Scheduled id \<and> s < NUM_OF_SLOTS \<and> L' = L(s := L s @ [id]) \<and>
      (\<exists>w'. inner' = Some w' \<and> wheel_inv w' L' \<and> get_entry id w' \<noteq> None))"
    using timer_poll_spec [OF assms(3), of now task] by (elim exE conjE) (rule that)
  have "\<exists>i w L'. st = Scheduled i \<and> inner' = Some w \<and> wheel_inv w L' \<and> i \<in> set (timers L')"
    if "\<not> timer_due (tf_timer tf) L"
  proof (cases "tf_timer tf")
    case (Unscheduled dur)
    with p(3) obtain id s w' where w': "st = Scheduled id" "s < NUM_OF_SLOTS" "inner' = Some w'" "wheel_inv w' (L(s := L s @ [id]))"
      by blast
    have "id \<in> set ((L(s := L s @ [id])) s)" by simp
    then have "id \<in> set (timers (L(s := L s @ [id])))" using w'(2) unfolding set_timers by blast
    with w' show ?thesis by blast
  next
    case (Scheduled i)
    with that p(2) assms(3) show ?thesis by (auto simp: timer_due_def timer_ok_def)
  qed (use that assms(3) in \<open>auto simp: timer_due_def timer_ok_def\<close>)
  with p(1) NotReady assms(1,2) show ?thesis by (auto simp: timeout_future_poll_def)
qed (use assms in \<open>simp_all add: timeout_future_poll_def\<close>)

lemma timeout_stream_correct:
  assumes "ts_stream ts = Some s" and "poll_s s inner = (r, s', inner1)" and "timer_ok (ts_timer ts) inner1 L"
  shows "(timeout_stream_poll now task poll_s err (ts, inner) = None \<longleftrightarrow>
      (\<exists>v. r = Ready (Some v)) \<and> (\<exists>i. ts_timer ts = Scheduled i) \<and> timer_due (ts_timer ts) L) \<and>
    (\<forall>r' ts' inner'. timeout_stream_poll now task poll_s err (ts, inner) = Some (r', ts', inner') \<longrightarrow>
      r' = (if r = NotReady \<and> timer_due (ts_timer ts) L \<or> (\<exists>v. r = Ready (Some v)) \<and> ts_timer ts = Expired
            then Failed (err s') else r))"
proof -
  obtain st inner' where p: "timer_poll now task (ts_timer ts, inner1) = Some (timer_due (ts_timer ts) L, st, inner')"
    using timer_poll_spec [OF assms(3), of now task] by (elim exE conjE) (rule that)
  note q = timer_reschedule_spec [OF assms(3), of now task "ts_secs ts"]
  show ?thesis
  proof (cases r)
    case (Ready item)
    show ?thesis
    proof (cases item)
      case (Some v)
      show ?thesis
      proof (cases "timer_reschedule now task (ts_secs ts) (ts_timer ts, inner1)")
        case None
        with q(1) assms(1,2) Ready Some show ?thesis by (simp add: timeout_stream_poll_def)
      next
        case (Some x)
        then obtain b t i where "timer_reschedule now task (ts_secs ts) (ts_timer ts, inner1) = Some (b, t, i)"
          by (metis prod_cases3)
        with q(1) q(2) [OF this] assms(1,2) Ready \<open>item = Some v\<close> show ?thesis by (auto simp: timeout_stream_poll_def)
      qed
    qed (use Ready assms in \<open>simp add: timeout_stream_poll_def\<close>)
  qed (use assms p in \<open>auto simp: timeout_stream_poll_def\<close>)
qed

text \<open>
  C17. A future with a timeout yields the result of its future whenever that has one. It fails with
  the timeout exactly if the future is not ready and the timer is due, and gives up the future
  then. Polled before that, it waits with its timer on the wheel. A stream with a timeout yields the items
  and errors of its stream and fails with the timeout exactly if the stream is not ready and the timer is
  due -- but for a timeout of 0 seconds, where an item that is there is dropped for the timeout, and for
  an item that is there when the timer on the wheel has expired: then the poll reaches \<open>unreachable()\<close>,
  a panic in a debug build.
\<close>

theorem timeouts_correct:
  assumes "tf_future tf = Some f" and "poll_f f inner = (r, f', inner1)" and "timer_ok (tf_timer tf) inner1 L"
    and "ts_stream ts = Some s" and "poll_s s inner2 = (r2, s', inner3)" and "timer_ok (ts_timer ts) inner3 M"
  shows "(\<exists>r' tf' inner'. timeout_future_poll now task poll_f err (tf, inner) = Some (r', tf', inner') \<and>
      r' = (if r = NotReady \<and> timer_due (tf_timer tf) L then Failed (err f') else r) \<and>
      (r = NotReady \<longrightarrow> (tf_future tf' = None \<longleftrightarrow> timer_due (tf_timer tf) L)) \<and>
      (r' = NotReady \<longrightarrow> (\<exists>i w L'. tf_timer tf' = Scheduled i \<and> inner' = Some w \<and> wheel_inv w L' \<and> i \<in> set (timers L')))) \<and>
    (timeout_stream_poll now task poll_s err2 (ts, inner2) = None \<longleftrightarrow>
      (\<exists>v. r2 = Ready (Some v)) \<and> (\<exists>i. ts_timer ts = Scheduled i) \<and> timer_due (ts_timer ts) M) \<and>
    (\<forall>r' ts' inner'. timeout_stream_poll now task poll_s err2 (ts, inner2) = Some (r', ts', inner') \<longrightarrow>
      r' = (if r2 = NotReady \<and> timer_due (ts_timer ts) M \<or> (\<exists>v. r2 = Ready (Some v)) \<and> ts_timer ts = Expired
            then Failed (err2 s') else r2))"
  by (rule conjI [OF timeout_future_correct [where poll_f = poll_f, OF assms(1-3)]
        timeout_stream_correct [where poll_s = poll_s, OF assms(4-6)]])

text \<open>A timer on a wheel whose tick has run it.\<close>

lemma expired_timer: "\<exists>x w. timer_ok (Scheduled x) (Some w) (\<lambda>_. [])"
proof -
  let ?w = "wheel_new\<lparr>w_entries := snd (slab_insert (entry_new 7) (slab_with_capacity 512))\<rparr>"
  obtain x es where es: "slab_insert (entry_new 7) (slab_with_capacity 512) = (Ok x, es)" "slab_wf es"
    "slab_map es = (slab_map (slab_with_capacity 512))(x \<mapsto> entry_new 7)"
    using slab_insert_spec [OF slab_fresh(2), of 512 "entry_new 7"] by (auto simp: INVALID_INDEX_def usize_max_def)
  have "wheel_inv ?w (\<lambda>_. [])"
    using wheel_new_inv es
    by (auto simp: wheel_inv_def wheel_links_def wheel_fit_def seg_def nxt_def prv_def get_slot_def get_entry_map
        entry_new_def set_timers split: if_splits)
  moreover have "get_entry x ?w = Some (entry_new 7)" by (simp add: get_entry_map es)
  moreover have "card (dom (slab_map (w_entries ?w))) < INVALID_INDEX"
    by (simp add: es INVALID_INDEX_def usize_max_def)
  ultimately have "timer_ok (Scheduled x) (Some ?w) (\<lambda>_. [])" by (simp add: timer_ok_def)
  then show ?thesis by blast
qed

theorem timeouts_correct_witness:
  "(\<exists>r' tf' inner'. timeout_future_poll 0 7 (\<lambda>n inner. (if n = 0 then Ready True else NotReady, n - 1, inner)) (\<lambda>n. ''timed out'')
      (timeout_future_new (2::nat) 0, wheel_obj_new) = Some (r', tf', inner') \<and> r' = Failed ''timed out'') \<and>
   (\<exists>x w. timer_ok (Scheduled x) (Some w) (\<lambda>_. []) \<and>
    timeout_stream_poll 0 7 (\<lambda>n inner. (Ready (Some n), n + 1, inner)) (\<lambda>_. ()) (\<lparr>ts_stream = Some (0::nat), ts_secs = 1, ts_timer = Scheduled x\<rparr>, Some w) = None)"
proof -
  obtain x w where ok: "timer_ok (Scheduled x) (Some w) (\<lambda>_. [])" using expired_timer by blast
  have "timer_ok (timer_new 0) wheel_obj_new (\<lambda>_. [])" by (simp add: timer_ok_def timer_new_def wheel_obj_new_def)
  moreover have "timer_due (Scheduled x) (\<lambda>_. [])" by (simp add: timer_due_def set_timers)
  ultimately show ?thesis
    using ok timeouts_correct [of "timeout_future_new (2::nat) 0" 2
        "\<lambda>n inner. (if n = 0 then Ready True else NotReady, n - 1, inner)" wheel_obj_new NotReady 1 wheel_obj_new
        "\<lambda>_. []" "\<lparr>ts_stream = Some (0::nat), ts_secs = 1, ts_timer = Scheduled x\<rparr>" 0
        "\<lambda>n inner. (Ready (Some n), n + 1, inner)" "Some w" "Ready (Some 0)" 1 "Some w" "\<lambda>_. []" 0 7 "\<lambda>n. ''timed out''" "\<lambda>_. ()"]
    by (auto simp: timeout_future_new_def timer_due_def timer_new_def)
qed

end
