(* ===== verification/Ring_Buffer.thy ===== *)
theory Ring_Buffer
  imports Ruyi_Prelude
begin

text \<open>
  The bounded ring of \<open>src/sync/spsc.rs\<close> (\<open>RingBuffer\<close>), as one thread sees it: pushing and
  popping are those of a queue of bounded length. The parts a push and a pop consist of are
  definitions of their own, which the channel interleaves.
\<close>

section \<open>State and operations\<close>

text \<open>
  A cell is \<open>None\<close> if no value lives in it: it was never written, or its value was moved out.
  \<open>front\<close> and \<open>rear\<close> count what was popped and pushed; their shadows are the other side's last
  copies.
\<close>

record 'a ring =
  cells :: "'a option list"
  rb_cap :: nat
  idx_mask :: nat
  front :: nat
  shadow_rear :: nat
  rear :: nat
  shadow_front :: nat

text \<open>\<open>usize::next_power_of_two\<close> of the standard library.\<close>

fun next_power_of_two :: "nat \<Rightarrow> nat" where
  "next_power_of_two n = (if n \<le> 1 then 1 else 2 * next_power_of_two ((n + 1) div 2))"

declare next_power_of_two.simps [simp del]

definition ring_with_capacity :: "nat \<Rightarrow> 'a ring" where
  "ring_with_capacity capacity =
     (let n = next_power_of_two capacity
      in \<lparr>cells = replicate n None, rb_cap = capacity, idx_mask = n - 1,
          front = 0, shadow_rear = 0, rear = 0, shadow_front = 0\<rparr>)"

definition effective_index :: "'a ring \<Rightarrow> nat \<Rightarrow> nat" where
  "effective_index r index = index AND idx_mask r"

abbreviation wrapping_succ :: "nat \<Rightarrow> nat" where
  "wrapping_succ n \<equiv> (n + 1) mod (usize_max + 1)"

text \<open>
  The test for a full ring, \<open>shadow_front + cap <= rear\<close>, and the two halves of a push: writing
  the cell, and making it visible.
\<close>

definition ring_full :: "'a ring \<Rightarrow> nat \<Rightarrow> bool" where
  "ring_full r re \<longleftrightarrow> (shadow_front r + rb_cap r) mod (usize_max + 1) \<le> re"

definition ring_write :: "'a \<Rightarrow> nat \<Rightarrow> 'a ring \<Rightarrow> 'a ring" where
  "ring_write t re r = r\<lparr>cells := (cells r)[effective_index r re := Some t]\<rparr>"

definition ring_publish :: "nat \<Rightarrow> 'a ring \<Rightarrow> 'a ring" where
  "ring_publish re r = r\<lparr>rear := wrapping_succ re\<rparr>"

definition ring_try_push :: "'a \<Rightarrow> 'a ring \<Rightarrow> 'a option \<times> 'a ring" where
  "ring_try_push t r =
     (let re = rear r;
          r = (if ring_full r re then r\<lparr>shadow_front := front r\<rparr> else r)
      in if ring_full r re then (Some t, r) else (None, ring_publish re (ring_write t re r)))"

text \<open>A pop moves the value out of its cell. Reading a cell without a value is undefined.\<close>

definition ring_read :: "nat \<Rightarrow> 'a ring \<Rightarrow> 'a option" where
  "ring_read f r = cells r ! effective_index r f"

definition ring_clear :: "nat \<Rightarrow> 'a ring \<Rightarrow> 'a ring" where
  "ring_clear f r = r\<lparr>cells := (cells r)[effective_index r f := None]\<rparr>"

definition ring_release :: "nat \<Rightarrow> 'a ring \<Rightarrow> 'a ring" where
  "ring_release f r = r\<lparr>front := wrapping_succ f\<rparr>"

definition ring_try_pop :: "'a ring \<Rightarrow> ('a option, unit) outcome \<times> 'a ring" where
  "ring_try_pop r =
     (let f = front r;
          r = (if f = shadow_rear r then r\<lparr>shadow_rear := rear r\<rparr> else r)
      in if f = shadow_rear r then (Ok None, r)
         else case ring_read f r of
                Some v \<Rightarrow> (Ok (Some v), ring_release f (ring_clear f r))
              | None \<Rightarrow> (Panic, r))"

text \<open>Dropping the ring pops what is left; the result is what was dropped.\<close>

partial_function (option) ring_drop :: "'a ring \<Rightarrow> ('a list, unit) outcome option" where
  "ring_drop r =
     (case ring_try_pop r of
        (Ok (Some v), r') \<Rightarrow> Option.bind (ring_drop r') (\<lambda>out. Some (map_outcome ((#) v) out))
      | (Ok None, r') \<Rightarrow> Some (Ok [])
      | _ \<Rightarrow> Some Panic)"

section \<open>Capacities\<close>

lemma next_power_of_two_spec:
  "\<exists>k. next_power_of_two n = 2 ^ k \<and> n \<le> 2 ^ k \<and> (0 < k \<longrightarrow> 2 ^ (k - 1) < n)"
proof (induction n rule: next_power_of_two.induct)
  case (1 n)
  show ?case
  proof (cases "n \<le> 1")
    case True
    then show ?thesis by (intro exI [of _ 0]) (simp add: next_power_of_two.simps)
  next
    case False
    then obtain k where k: "next_power_of_two ((n + 1) div 2) = 2 ^ k" "(n + 1) div 2 \<le> 2 ^ k"
      "0 < k \<longrightarrow> 2 ^ (k - 1) < (n + 1) div 2" using 1 by blast
    have "2 ^ k < n"
    proof (cases k)
      case (Suc j)
      then show ?thesis using k(3) by simp
    qed (use False in simp)
    moreover have "n \<le> 2 * 2 ^ k" using k(2) by simp
    ultimately show ?thesis using False k(1)
      by (intro exI [of _ "Suc k"]) (simp add: next_power_of_two.simps [of n])
  qed
qed

section \<open>What the cells hold\<close>

text \<open>The cells are \<open>2 ^ k\<close> many, and hold the values \<open>xs\<close> from index \<open>lo\<close> on, and no others.\<close>

definition ring_fit :: "'a ring \<Rightarrow> nat \<Rightarrow> bool" where
  "ring_fit r n \<longleftrightarrow> length (cells r) = n \<and> rb_cap r \<le> n \<and> (\<exists>k. n = 2 ^ k) \<and> idx_mask r = n - 1"

definition holds :: "'a ring \<Rightarrow> nat \<Rightarrow> 'a list \<Rightarrow> bool" where
  "holds r lo xs \<longleftrightarrow>
     (let n = length (cells r)
      in length xs \<le> n \<and> (\<forall>i<length xs. cells r ! ((lo + i) mod n) = Some (xs ! i)) \<and>
         (\<forall>j<n. (\<forall>i<length xs. (lo + i) mod n \<noteq> j) \<longrightarrow> cells r ! j = None))"

lemma effective_index_mod:
  assumes "ring_fit r n"
  shows "effective_index r i = i mod n" and "0 < n"
proof -
  obtain k where k: "n = 2 ^ k" "idx_mask r = n - 1" using assms by (auto simp: ring_fit_def)
  then have "idx_mask r = mask k" by (simp add: mask_eq_exp_minus_1)
  then have "effective_index r i = take_bit k i" by (simp add: effective_index_def take_bit_eq_mask)
  then show "effective_index r i = i mod n" by (simp add: k take_bit_eq_mod)
  show "0 < n" by (simp add: k)
qed

lemma mod_cycle_eq:
  assumes "i < (n::nat)" and "j < n" and "(lo + i) mod n = (lo + j) mod n"
  shows "i = j"
proof -
  have "i \<le> j \<Longrightarrow> j < n \<Longrightarrow> (lo + i) mod n = (lo + j) mod n \<Longrightarrow> i = j" for i j
  proof (rule ccontr)
    assume "i \<le> j" "j < n" "(lo + i) mod n = (lo + j) mod n" "i \<noteq> j"
    then have "n dvd (lo + j) - (lo + i)" by (metis mod_eq_dvd_iff_nat add_le_cancel_left)
    then have "n dvd j - i" by simp
    moreover have "0 < j - i" "j - i < n" using \<open>i \<le> j\<close> \<open>j < n\<close> \<open>i \<noteq> j\<close> by simp_all
    ultimately show False using nat_dvd_not_less by blast
  qed
  then show ?thesis using assms by (metis nat_le_linear)
qed

lemma holds_write:
  assumes fit: "ring_fit r n" and h: "holds r lo xs" and "length xs < n" and re: "re = lo + length xs"
  shows "ring_read re r = None" and "holds (ring_write t re r) lo (xs @ [t])"
proof -
  note idx = effective_index_mod [OF fit]
  have n: "length (cells r) = n" using fit by (simp add: ring_fit_def)
  have new: "(lo + i) mod n \<noteq> re mod n" if "i < length xs" for i
    using mod_cycle_eq [of i n "length xs" lo] that assms(3) re by auto
  show "ring_read re r = None"
    using h new idx by (simp add: ring_read_def holds_def Let_def n)
  have lt: "re mod n < n" using idx(2) by simp
  show "holds (ring_write t re r) lo (xs @ [t])"
    using h assms(3) new lt re
    by (auto simp: holds_def ring_write_def Let_def n idx(1) nth_append nth_list_update less_Suc_eq)
qed

lemma holds_clear:
  assumes fit: "ring_fit r n" and h: "holds r lo (x # xs)"
  shows "ring_read lo r = Some x" and "holds (ring_clear lo r) (Suc lo) xs"
proof -
  note idx = effective_index_mod [OF fit]
  have n: "length (cells r) = n" using fit by (simp add: ring_fit_def)
  have le: "Suc (length xs) \<le> n" using h by (simp add: holds_def Let_def n)
  have c: "cells r ! ((lo + i) mod n) = Some ((x # xs) ! i)" if "i < Suc (length xs)" for i
    using h that by (simp add: holds_def Let_def n)
  show "ring_read lo r = Some x" using c [of 0] by (simp add: ring_read_def idx(1))
  have lt: "lo mod n < n" using idx(2) by simp
  have other: "(Suc lo + i) mod n \<noteq> lo mod n" if "i < length xs" for i
    using mod_cycle_eq [of "Suc i" n 0 lo] that le by auto
  have "cells (ring_clear lo r) ! ((Suc lo + i) mod n) = Some (xs ! i)" if "i < length xs" for i
    using c [of "Suc i"] other [OF that] that by (simp add: ring_clear_def idx(1))
  moreover have "cells (ring_clear lo r) ! j = None" if "j < n" "\<forall>i<length xs. (Suc lo + i) mod n \<noteq> j" for j
  proof (cases "j = lo mod n")
    case False
    have "\<forall>i<Suc (length xs). (lo + i) mod n \<noteq> j"
      using that(2) False by (auto simp: less_Suc_eq_0_disj)
    then have "cells r ! j = None" using h that(1) by (simp add: holds_def Let_def n)
    then show ?thesis using False by (simp add: ring_clear_def idx(1))
  qed (use that n in \<open>simp add: ring_clear_def idx(1)\<close>)
  ultimately show "holds (ring_clear lo r) (Suc lo) xs"
    using le by (auto simp: holds_def Let_def) (auto simp: ring_clear_def n)
qed

lemma ring_fit_ops [simp]:
  "ring_fit (ring_write t re r) n = ring_fit r n" "ring_fit (ring_clear f r) n = ring_fit r n"
  "ring_fit (ring_publish re r) n = ring_fit r n" "ring_fit (ring_release f r) n = ring_fit r n"
  "ring_fit (r\<lparr>shadow_front := x\<rparr>) n = ring_fit r n" "ring_fit (r\<lparr>shadow_rear := x\<rparr>) n = ring_fit r n"
  by (simp_all add: ring_fit_def ring_write_def ring_clear_def ring_publish_def ring_release_def)

lemma holds_ops [simp]:
  "holds (ring_publish re r) lo xs = holds r lo xs" "holds (ring_release f r) lo xs = holds r lo xs"
  "holds (r\<lparr>shadow_front := x\<rparr>) lo xs = holds r lo xs" "holds (r\<lparr>shadow_rear := x\<rparr>) lo xs = holds r lo xs"
  by (simp_all add: holds_def ring_publish_def ring_release_def)

section \<open>The ring is a bounded queue\<close>

text \<open>
  The queue \<open>q\<close>. The counters are far from the largest \<open>usize\<close>, where the test for a full ring
  would overflow: a program gets there after \<open>2 ^ 64\<close> pushes.
\<close>

definition ring_inv :: "'a ring \<Rightarrow> 'a list \<Rightarrow> bool" where
  "ring_inv r q \<longleftrightarrow> (\<exists>n. ring_fit r n) \<and> holds r (front r) q \<and> rear r = front r + length q \<and>
     shadow_front r \<le> front r \<and> front r \<le> shadow_rear r \<and> shadow_rear r \<le> rear r \<and>
     rear r \<le> shadow_front r + rb_cap r \<and> rear r + rb_cap r \<le> usize_max"

lemma ring_new_inv: "next_power_of_two c \<le> usize_max \<Longrightarrow> ring_inv (ring_with_capacity c) []"
proof -
  assume c: "next_power_of_two c \<le> usize_max"
  obtain k where k: "next_power_of_two c = 2 ^ k" "c \<le> 2 ^ k" using next_power_of_two_spec [of c] by blast
  then have "ring_fit (ring_with_capacity c) (2 ^ k)" by (auto simp: ring_fit_def ring_with_capacity_def Let_def)
  moreover have "holds (ring_with_capacity c) 0 []"
    by (simp add: holds_def ring_with_capacity_def Let_def)
  ultimately show ?thesis using k c by (auto simp: ring_inv_def) (simp_all add: ring_with_capacity_def Let_def)
qed

lemma ring_inv_cap: "ring_inv r q \<Longrightarrow> length q \<le> rb_cap r"
  by (auto simp: ring_inv_def)

lemma ring_try_push_spec:
  assumes inv: "ring_inv r q" and room: "rear r + rb_cap r < usize_max"
  shows "\<exists>r'. ring_try_push t r = (if length q < rb_cap r then None else Some t, r') \<and>
    ring_inv r' (if length q < rb_cap r then q @ [t] else q) \<and> rb_cap r' = rb_cap r"
proof -
  obtain n where fit: "ring_fit r n" using inv by (auto simp: ring_inv_def)
  have i: "holds r (front r) q" "rear r = front r + length q" "shadow_front r \<le> front r" "front r \<le> shadow_rear r"
    "shadow_rear r \<le> rear r" "rear r \<le> shadow_front r + rb_cap r" "rb_cap r \<le> n"
    using inv fit by (simp_all add: ring_inv_def ring_fit_def)
  define r1 where "r1 = (if ring_full r (rear r) then r\<lparr>shadow_front := front r\<rparr> else r)"
  have r1: "ring_fit r1 n" "holds r1 (front r) q" "front r1 = front r" "rear r1 = rear r" "shadow_rear r1 = shadow_rear r"
    "rb_cap r1 = rb_cap r" "shadow_front r1 \<le> front r" "rear r \<le> shadow_front r1 + rb_cap r"
    using fit i by (simp_all add: r1_def)
  have "(shadow_front r1 + rb_cap r1) mod (usize_max + 1) = shadow_front r1 + rb_cap r1"
    "(shadow_front r + rb_cap r) mod (usize_max + 1) = shadow_front r + rb_cap r"
    using i r1 room by simp_all
  then have full: "ring_full r1 (rear r) \<longleftrightarrow> \<not> length q < rb_cap r"
    using i unfolding r1_def ring_full_def by (auto split: if_splits)
  show ?thesis
  proof (cases "length q < rb_cap r")
    case True
    let ?r = "ring_publish (rear r) (ring_write t (rear r) r1)"
    have "ring_try_push t r = (None, ?r)"
      using full True by (simp add: ring_try_push_def r1_def [symmetric] Let_def)
    moreover have lt: "length q < n" using True i by simp
    moreover have "holds ?r (front r) (q @ [t])"
      using holds_write(2) [OF r1(1,2) lt i(2)] by simp
    moreover have "rear ?r = Suc (rear r)" using room by (simp add: ring_publish_def)
    moreover have "shadow_front ?r = shadow_front r1" "shadow_rear ?r = shadow_rear r" "front ?r = front r" "rb_cap ?r = rb_cap r"
      using r1 by (simp_all add: ring_publish_def ring_write_def)
    moreover have "rear r < shadow_front r1 + rb_cap r"
      using full True r1 \<open>(shadow_front r1 + rb_cap r1) mod _ = _\<close> by (simp add: ring_full_def)
    ultimately show ?thesis using True r1(1) i r1 room by (auto simp: ring_inv_def)
  next
    case False
    then have "ring_try_push t r = (Some t, r1)" using full by (simp add: ring_try_push_def r1_def [symmetric] Let_def)
    moreover have "ring_inv r1 q" using r1 i inv by (auto simp: ring_inv_def)
    ultimately show ?thesis using False r1 by simp
  qed
qed

lemma ring_try_pop_spec:
  assumes inv: "ring_inv r q"
  shows "\<exists>r'. ring_try_pop r = (Ok (case q of [] \<Rightarrow> None | x # _ \<Rightarrow> Some x), r') \<and> ring_inv r' (tl q) \<and>
    rb_cap r' = rb_cap r \<and> rear r' = rear r"
proof -
  obtain n where fit: "ring_fit r n" using inv by (auto simp: ring_inv_def)
  define r1 where "r1 = (if front r = shadow_rear r then r\<lparr>shadow_rear := rear r\<rparr> else r)"
  have i: "holds r (front r) q" "rear r = front r + length q" "shadow_front r \<le> front r" "front r \<le> shadow_rear r"
    "shadow_rear r \<le> rear r" "rear r \<le> shadow_front r + rb_cap r" "rear r + rb_cap r \<le> usize_max"
    using inv by (simp_all add: ring_inv_def)
  have r1: "ring_fit r1 n" "holds r1 (front r) q" "front r1 = front r" "rear r1 = rear r" "shadow_front r1 = shadow_front r"
    "rb_cap r1 = rb_cap r" "shadow_rear r1 \<le> rear r" "front r \<le> shadow_rear r1"
    using fit i by (auto simp: r1_def)
  have pop: "ring_try_pop r = (if front r = shadow_rear r1 then (Ok None, r1)
      else case ring_read (front r) r1 of
             Some v \<Rightarrow> (Ok (Some v), ring_release (front r) (ring_clear (front r) r1))
           | None \<Rightarrow> (Panic, r1))"
    unfolding ring_try_pop_def Let_def r1_def by (rule refl)
  have empty: "front r = shadow_rear r1 \<longleftrightarrow> q = []" using i by (auto simp: r1_def split: if_splits)
  show ?thesis
  proof (cases q)
    case Nil
    have "ring_inv r1 []" using r1 i inv fit Nil by (auto simp: ring_inv_def)
    with Nil empty r1 show ?thesis unfolding pop by simp
  next
    case (Cons x xs)
    let ?r = "ring_release (front r) (ring_clear (front r) r1)"
    note clear = holds_clear [OF r1(1) r1(2) [unfolded Cons]]
    have "ring_try_pop r = (Ok (Some x), ?r)"
      using empty Cons clear(1) unfolding pop by simp
    moreover have "front ?r = Suc (front r)" using i Cons by (simp add: ring_release_def)
    moreover have "shadow_front ?r = shadow_front r" "shadow_rear ?r = shadow_rear r1" "rear ?r = rear r" "rb_cap ?r = rb_cap r"
      using r1 by (simp_all add: ring_release_def ring_clear_def)
    moreover have "front r \<noteq> shadow_rear r1" using empty Cons by simp
    ultimately show ?thesis using clear(2) r1 i Cons by (auto simp: ring_inv_def)
  qed
qed

text \<open>Dropping a ring drops exactly the values in it.\<close>

lemma ring_drop_spec: "ring_inv r q \<Longrightarrow> ring_drop r = Some (Ok q)"
proof (induction q arbitrary: r)
  case Nil
  from ring_try_pop_spec [OF this] show ?case by (subst ring_drop.simps) auto
next
  case (Cons x q)
  from ring_try_pop_spec [OF Cons.prems] obtain r' where r': "ring_try_pop r = (Ok (Some x), r')" "ring_inv r' q" by auto
  from Cons.IH [OF r'(2)] r'(1) show ?case by (subst ring_drop.simps) simp
qed

end
