(* ===== verification/Channel.thy ===== *)
theory Channel
  imports Ring_Buffer
begin

text \<open>
  The channel of \<open>src/sync/spsc.rs\<close> with the receiver of \<open>src/sys/unix/spsc.rs\<close> and the awakener
  of \<open>src/sys/unix/awakener.rs\<close>, as a state machine: the atomic steps of the senders and of the
  receiver interleave in any order.

  \<open>rear\<close> is stored with \<open>Release\<close> and loaded with \<open>Acquire\<close>, so a load may return any value
  between the last one the loading thread knows of and the current one; the same holds for
  \<open>front\<close>. A thread knows of what it loaded, and of what happened before a \<open>SeqCst\<close> store whose
  value it loaded (\<open>wake_view\<close>, \<open>recv_view\<close>). The loads and stores of \<open>need_wakeup\<close> itself are
  \<open>SeqCst\<close>, hence in one order.
\<close>

section \<open>State\<close>

text \<open>
  Where a sender is: in \<open>try_send\<close> or \<open>send\<close> with the message \<open>t\<close> (and the \<open>rear\<close> it loaded), or
  in \<open>wakeup\<close>. A rejected message is in \<open>S_Full\<close>.
\<close>

datatype 'a sender_pc = S_Idle | S_Push 'a | S_Refresh 'a nat | S_Full 'a | S_Write 'a nat | S_Publish 'a nat
  | S_Wake | S_Signal | S_Clear

text \<open>Where the receiver is: between polls, in \<open>reset\<close>, or in \<open>try_pop\<close>.\<close>

datatype 'a receiver_pc = R_Idle | R_Reset | R_Drain | R_Rearm | R_Pop | R_Refresh nat | R_Take nat
  | R_Release 'a nat | R_Count

text \<open>
  \<open>event\<close> says whether the event counter is readable; the event loop polls a receiver that is
  \<open>waiting\<close> when it is. \<open>gone\<close> and \<open>recv_gone\<close> say which side was dropped, \<open>ended\<close> that the stream
  of messages ended. \<open>sent\<close> and \<open>received\<close> record the messages pushed and handed out.
\<close>

record 'a chan =
  ring :: "'a ring"
  senders :: "nat \<Rightarrow> 'a sender_pc"
  receiver :: "'a receiver_pc"
  need_wakeup :: bool
  event :: bool
  need_reset :: bool
  waiting :: bool
  gone :: bool
  recv_gone :: bool
  ended :: bool
  wake_view :: nat
  recv_view :: nat
  sent :: "'a list"
  received :: "'a list"

definition sync_channel :: "nat \<Rightarrow> 'a chan" where
  "sync_channel capacity =
     \<lparr>ring = ring_with_capacity capacity, senders = (\<lambda>_. S_Idle), receiver = R_Idle, need_wakeup = True,
      event = False, need_reset = True, waiting = False, gone = False, recv_gone = False, ended = False,
      wake_view = 0, recv_view = 0, sent = [], received = []\<rparr>"

section \<open>The steps\<close>

text \<open>
  The number of an action of a sender is that of its thread; \<open>Push_Refresh\<close> and \<open>Pop_Refresh\<close> carry
  the value their load returns.
\<close>

datatype 'a action = Send nat 'a | Push_Load nat | Push_Refresh nat nat | Retry nat | Give_Up nat
  | Push_Write nat | Push_Publish nat | Wake_Load nat | Wake_Signal nat | Wake_Clear nat | Drop_Sender
  | Poll | Reset_Load | Reset_Drain | Reset_Rearm | Pop_Load | Pop_Refresh nat | Pop_Take | Pop_Release
  | Count | Drop_Receiver

definition sender_to :: "nat \<Rightarrow> 'a sender_pc \<Rightarrow> 'a chan \<Rightarrow> 'a chan" where
  "sender_to i p c = c\<lparr>senders := (senders c)(i := p)\<rparr>"

text \<open>\<open>try_push\<close>, the calls of it by \<open>try_send\<close> and \<open>send\<close>, and \<open>wakeup\<close>.\<close>

fun send_next :: "'a action \<Rightarrow> 'a chan \<Rightarrow> 'a chan option" where
  "send_next (Send i t) c =
     (if senders c i = S_Idle \<and> \<not> gone c then Some (if recv_gone c then c else sender_to i (S_Push t) c) else None)"
| "send_next (Push_Load i) c =
     (case senders c i of
        S_Push t \<Rightarrow>
          (let re = rear (ring c)
           in Some (sender_to i (if ring_full (ring c) re then S_Refresh t re else S_Write t re) c))
      | _ \<Rightarrow> None)"
| "send_next (Push_Refresh i k) c =
     (case senders c i of
        S_Refresh t re \<Rightarrow>
          (if shadow_front (ring c) \<le> k \<and> k \<le> front (ring c) then
             (let r = (ring c)\<lparr>shadow_front := k\<rparr>
              in Some (sender_to i (if ring_full r re then S_Full t else S_Write t re) (c\<lparr>ring := r\<rparr>)))
           else None)
      | _ \<Rightarrow> None)"
| "send_next (Retry i) c =
     (case senders c i of
        S_Full t \<Rightarrow> Some (sender_to i (if recv_gone c then S_Idle else S_Push t) c)
      | _ \<Rightarrow> None)"
| "send_next (Give_Up i) c =
     (case senders c i of S_Full t \<Rightarrow> Some (sender_to i S_Idle c) | _ \<Rightarrow> None)"
| "send_next (Push_Write i) c =
     (case senders c i of
        S_Write t re \<Rightarrow> Some (sender_to i (S_Publish t re) (c\<lparr>ring := ring_write t re (ring c)\<rparr>))
      | _ \<Rightarrow> None)"
| "send_next (Push_Publish i) c =
     (case senders c i of
        S_Publish t re \<Rightarrow> Some (sender_to i S_Wake (c\<lparr>ring := ring_publish re (ring c), sent := sent c @ [t]\<rparr>))
      | _ \<Rightarrow> None)"
| "send_next a c = None"

fun wake_next :: "'a action \<Rightarrow> 'a chan \<Rightarrow> 'a chan option" where
  "wake_next (Wake_Load i) c =
     (if senders c i = S_Wake then Some (sender_to i (if need_wakeup c then S_Signal else S_Idle) c) else None)"
| "wake_next (Wake_Signal i) c =
     (if senders c i = S_Signal
      then Some (if event c then sender_to i S_Idle c else sender_to i S_Clear (c\<lparr>event := True\<rparr>)) else None)"
| "wake_next (Wake_Clear i) c =
     (if senders c i = S_Clear
      then Some (sender_to i S_Idle (c\<lparr>need_wakeup := False, wake_view := rear (ring c)\<rparr>)) else None)"
| "wake_next Drop_Sender c =
     (if \<not> gone c \<and> senders c = (\<lambda>_. S_Idle) then Some (sender_to 0 S_Wake (c\<lparr>gone := True\<rparr>)) else None)"
| "wake_next a c = None"

text \<open>\<open>Recv::poll\<close>, with \<open>reset\<close> and \<open>try_pop\<close>.\<close>

fun recv_next :: "'a action \<Rightarrow> 'a chan \<Rightarrow> 'a chan option" where
  "recv_next Poll c =
     (if receiver c = R_Idle \<and> \<not> ended c \<and> \<not> recv_gone c \<and> (waiting c \<longrightarrow> event c)
      then Some (c\<lparr>waiting := False, receiver := (if need_reset c then R_Reset else R_Pop)\<rparr>) else None)"
| "recv_next Reset_Load c =
     (if receiver c = R_Reset
      then Some (if need_wakeup c then c\<lparr>need_reset := False, receiver := R_Pop\<rparr>
                 else c\<lparr>recv_view := max (recv_view c) (wake_view c), receiver := R_Drain\<rparr>) else None)"
| "recv_next Reset_Drain c =
     (if receiver c = R_Drain
      then Some (if event c then c\<lparr>event := False, receiver := R_Rearm\<rparr>
                 else c\<lparr>waiting := True, receiver := R_Idle\<rparr>) else None)"
| "recv_next Reset_Rearm c =
     (if receiver c = R_Rearm then Some (c\<lparr>need_wakeup := True, need_reset := False, receiver := R_Pop\<rparr>) else None)"
| "recv_next Pop_Load c =
     (if receiver c = R_Pop then
        (let f = front (ring c)
         in Some (c\<lparr>receiver := (if f = shadow_rear (ring c) then R_Refresh f else R_Take f)\<rparr>)) else None)"
| "recv_next (Pop_Refresh k) c =
     (case receiver c of
        R_Refresh f \<Rightarrow>
          (if recv_view c \<le> k \<and> k \<le> rear (ring c)
           then Some (c\<lparr>ring := (ring c)\<lparr>shadow_rear := k\<rparr>, recv_view := k,
                        receiver := (if f = k then R_Count else R_Take f)\<rparr>) else None)
      | _ \<Rightarrow> None)"
| "recv_next Pop_Take c =
     (case receiver c of
        R_Take f \<Rightarrow>
          map_option (\<lambda>v. c\<lparr>ring := ring_clear f (ring c), receiver := R_Release v f\<rparr>) (ring_read f (ring c))
      | _ \<Rightarrow> None)"
| "recv_next Pop_Release c =
     (case receiver c of
        R_Release v f \<Rightarrow> Some (c\<lparr>ring := ring_release f (ring c), received := received c @ [v], receiver := R_Idle\<rparr>)
      | _ \<Rightarrow> None)"
| "recv_next Count c =
     (if receiver c = R_Count
      then Some (if gone c then c\<lparr>need_reset := True, ended := True, receiver := R_Idle\<rparr>
                 else c\<lparr>need_reset := True, waiting := True, receiver := R_Idle\<rparr>) else None)"
| "recv_next Drop_Receiver c =
     (if receiver c = R_Idle \<and> \<not> recv_gone c then Some (c\<lparr>recv_gone := True\<rparr>) else None)"
| "recv_next a c = None"

definition chan_next :: "'a action \<Rightarrow> 'a chan \<Rightarrow> 'a chan option" where
  "chan_next a c =
     (case send_next a c of
        Some c' \<Rightarrow> Some c'
      | None \<Rightarrow> (case wake_next a c of Some c' \<Rightarrow> Some c' | None \<Rightarrow> recv_next a c))"

fun chan_exec :: "'a action list \<Rightarrow> 'a chan \<Rightarrow> 'a chan option" where
  "chan_exec [] c = Some c"
| "chan_exec (a # as) c = (case chan_next a c of Some c' \<Rightarrow> chan_exec as c' | None \<Rightarrow> None)"

text \<open>The channels that runs of the allowed actions lead to.\<close>

inductive chan_reach :: "('a chan \<Rightarrow> 'a action \<Rightarrow> bool) \<Rightarrow> nat \<Rightarrow> 'a chan \<Rightarrow> bool" for ok capacity where
  reach_new: "chan_reach ok capacity (sync_channel capacity)"
| reach_step: "chan_reach ok capacity c \<Longrightarrow> ok c a \<Longrightarrow> chan_next a c = Some c' \<Longrightarrow> chan_reach ok capacity c'"

text \<open>One thread sends.\<close>

fun sender_of :: "'a action \<Rightarrow> nat option" where
  "sender_of (Send i t) = Some i"
| "sender_of (Push_Load i) = Some i"
| "sender_of (Push_Refresh i k) = Some i"
| "sender_of (Retry i) = Some i"
| "sender_of (Give_Up i) = Some i"
| "sender_of (Push_Write i) = Some i"
| "sender_of (Push_Publish i) = Some i"
| "sender_of (Wake_Load i) = Some i"
| "sender_of (Wake_Signal i) = Some i"
| "sender_of (Wake_Clear i) = Some i"
| "sender_of a = None"

definition one_sender :: "'a chan \<Rightarrow> 'a action \<Rightarrow> bool" where
  "one_sender c a \<longleftrightarrow> sender_of a \<in> {None, Some 0}"

text \<open>Loads of \<open>rear\<close> return its current value, as they would if its accesses were \<open>SeqCst\<close>.\<close>

definition fresh_loads :: "'a chan \<Rightarrow> 'a action \<Rightarrow> bool" where
  "fresh_loads c a \<longleftrightarrow> (\<forall>k. a = Pop_Refresh k \<longrightarrow> k = rear (ring c))"

section \<open>The ring in a channel\<close>

definition offset :: "'a chan \<Rightarrow> nat" where
  "offset c = (case receiver c of R_Release v f \<Rightarrow> 1 | _ \<Rightarrow> 0)"

definition staged :: "'a chan \<Rightarrow> 'a list" where
  "staged c = (case senders c 0 of S_Publish t re \<Rightarrow> [t] | _ \<Rightarrow> [])"

definition sender_ok :: "'a ring \<Rightarrow> 'a sender_pc \<Rightarrow> bool" where
  "sender_ok r p = (case p of
     S_Refresh t re \<Rightarrow> re = rear r
   | S_Write t re \<Rightarrow> re = rear r \<and> rear r < shadow_front r + rb_cap r
   | S_Publish t re \<Rightarrow> re = rear r \<and> rear r < shadow_front r + rb_cap r
   | _ \<Rightarrow> True)"

definition receiver_ok :: "'a ring \<Rightarrow> 'a list \<Rightarrow> 'a receiver_pc \<Rightarrow> bool" where
  "receiver_ok r ts p = (case p of
     R_Refresh f \<Rightarrow> f = front r \<and> f = shadow_rear r
   | R_Take f \<Rightarrow> f = front r \<and> f < shadow_rear r
   | R_Release v f \<Rightarrow> f = front r \<and> f < shadow_rear r \<and> v = ts ! f
   | _ \<Rightarrow> True)"

definition chan_inv :: "'a chan \<Rightarrow> bool" where
  "chan_inv c \<longleftrightarrow> (let r = ring c in
     (\<forall>i. i \<noteq> 0 \<longrightarrow> senders c i = S_Idle) \<and> ring_fit r (length (cells r)) \<and>
     front r = length (received c) \<and> rear r = length (sent c) \<and> take (length (received c)) (sent c) = received c \<and>
     shadow_front r \<le> front r \<and> front r \<le> shadow_rear r \<and> shadow_rear r \<le> recv_view c \<and> recv_view c \<le> rear r \<and>
     wake_view c \<le> rear r \<and> rear r \<le> shadow_front r + rb_cap r \<and>
     holds r (length (received c) + offset c) (drop (length (received c) + offset c) (sent c) @ staged c) \<and>
     sender_ok r (senders c 0) \<and> receiver_ok r (sent c) (receiver c))"

lemma ring_full_iff:
  "shadow_front r + rb_cap r \<le> usize_max \<Longrightarrow> ring_full r re \<longleftrightarrow> shadow_front r + rb_cap r \<le> re"
  by (simp add: ring_full_def)

lemma sender_to_simps [simp]:
  "ring (sender_to i p c) = ring c" "senders (sender_to i p c) j = (if j = i then p else senders c j)"
  "receiver (sender_to i p c) = receiver c" "sent (sender_to i p c) = sent c" "received (sender_to i p c) = received c"
  "recv_view (sender_to i p c) = recv_view c" "wake_view (sender_to i p c) = wake_view c"
  "need_wakeup (sender_to i p c) = need_wakeup c" "event (sender_to i p c) = event c"
  "need_reset (sender_to i p c) = need_reset c" "waiting (sender_to i p c) = waiting c" "gone (sender_to i p c) = gone c"
  "offset (sender_to i p c) = offset c"
  by (simp_all add: sender_to_def offset_def)

lemma ring_ops_simps [simp]:
  "length (cells (ring_write t re r)) = length (cells r)" "length (cells (ring_clear f r)) = length (cells r)"
  "cells (ring_publish re r) = cells r" "cells (ring_release f r) = cells r"
  "front (ring_write t re r) = front r" "rear (ring_write t re r) = rear r" "shadow_front (ring_write t re r) = shadow_front r"
  "shadow_rear (ring_write t re r) = shadow_rear r" "rb_cap (ring_write t re r) = rb_cap r"
  "front (ring_publish re r) = front r" "rear (ring_publish re r) = wrapping_succ re" "shadow_front (ring_publish re r) = shadow_front r"
  "shadow_rear (ring_publish re r) = shadow_rear r" "rb_cap (ring_publish re r) = rb_cap r"
  "front (ring_clear f r) = front r" "rear (ring_clear f r) = rear r" "shadow_front (ring_clear f r) = shadow_front r"
  "shadow_rear (ring_clear f r) = shadow_rear r" "rb_cap (ring_clear f r) = rb_cap r"
  "front (ring_release f r) = wrapping_succ f" "rear (ring_release f r) = rear r" "shadow_front (ring_release f r) = shadow_front r"
  "shadow_rear (ring_release f r) = shadow_rear r" "rb_cap (ring_release f r) = rb_cap r"
  by (simp_all add: ring_write_def ring_publish_def ring_clear_def ring_release_def)

text \<open>The invariant does not speak of the awakener.\<close>

lemma chan_inv_flags [simp]:
  "chan_inv (c\<lparr>event := b\<rparr>) = chan_inv c" "chan_inv (c\<lparr>gone := b\<rparr>) = chan_inv c" "chan_inv (c\<lparr>need_wakeup := b\<rparr>) = chan_inv c"
  "chan_inv (c\<lparr>need_reset := b\<rparr>) = chan_inv c" "chan_inv (c\<lparr>waiting := b\<rparr>) = chan_inv c" "chan_inv (c\<lparr>ended := b\<rparr>) = chan_inv c"
  "chan_inv (c\<lparr>recv_gone := b\<rparr>) = chan_inv c"
  by (simp_all add: chan_inv_def Let_def offset_def staged_def)

lemma staged_simps [simp]:
  "staged (sender_to 0 p c) = (case p of S_Publish t re \<Rightarrow> [t] | _ \<Rightarrow> [])"
  "staged (c\<lparr>event := b\<rparr>) = staged c" "staged (c\<lparr>gone := b\<rparr>) = staged c" "staged (c\<lparr>need_wakeup := b\<rparr>) = staged c"
  "staged (c\<lparr>wake_view := k\<rparr>) = staged c"
  by (simp_all add: staged_def)

lemma chan_invD:
  assumes "chan_inv c"
  shows "shadow_front (ring c) \<le> front (ring c)" and "front (ring c) \<le> shadow_rear (ring c)" and "shadow_rear (ring c) \<le> recv_view c"
    and "recv_view c \<le> rear (ring c)" and "wake_view c \<le> rear (ring c)" and "rear (ring c) = length (sent c)"
    and "sender_ok (ring c) (senders c 0)" and "receiver_ok (ring c) (sent c) (receiver c)"
    and "front (ring c) + offset c \<le> rear (ring c)" and "ring_fit (ring c) (length (cells (ring c)))"
    and "holds (ring c) (length (received c) + offset c) (drop (length (received c) + offset c) (sent c) @ staged c)"
    and "front (ring c) = length (received c)" and "take (length (received c)) (sent c) = received c"
    and "rear (ring c) \<le> shadow_front (ring c) + rb_cap (ring c)" and "i \<noteq> 0 \<Longrightarrow> senders c i = S_Idle"
proof -
  show "shadow_front (ring c) \<le> front (ring c)" "front (ring c) \<le> shadow_rear (ring c)" "shadow_rear (ring c) \<le> recv_view c"
    "recv_view c \<le> rear (ring c)" "wake_view c \<le> rear (ring c)" "rear (ring c) = length (sent c)" "sender_ok (ring c) (senders c 0)"
    and r: "receiver_ok (ring c) (sent c) (receiver c)" and "ring_fit (ring c) (length (cells (ring c)))"
    "holds (ring c) (length (received c) + offset c) (drop (length (received c) + offset c) (sent c) @ staged c)"
    "front (ring c) = length (received c)" "take (length (received c)) (sent c) = received c"
    "rear (ring c) \<le> shadow_front (ring c) + rb_cap (ring c)" "i \<noteq> 0 \<Longrightarrow> senders c i = S_Idle"
    using assms by (simp_all add: chan_inv_def Let_def)
  then show "front (ring c) + offset c \<le> rear (ring c)"
    by (cases "receiver c") (simp_all add: offset_def receiver_ok_def)
qed

text \<open>A thread that moves without touching the cells.\<close>

lemma chan_inv_sender:
  assumes "chan_inv c" and "staged c = []" and "sender_ok (ring c) p" and "\<forall>t re. p \<noteq> S_Publish t re"
  shows "chan_inv (sender_to 0 p c)"
proof -
  have "staged (sender_to 0 p c) = []" using assms(4) by (cases p) simp_all
  then show ?thesis using assms(1-3) by (simp add: chan_inv_def Let_def)
qed

lemma chan_inv_receiver:
  assumes "chan_inv c" and "offset c = 0" and "receiver_ok (ring c) (sent c) p" and "\<forall>v f. p \<noteq> R_Release v f"
  shows "chan_inv (c\<lparr>receiver := p\<rparr>)"
proof -
  have "offset (c\<lparr>receiver := p\<rparr>) = 0" using assms(4) by (cases p) (simp_all add: offset_def)
  moreover have "staged (c\<lparr>receiver := p\<rparr>) = staged c" by (simp add: staged_def)
  ultimately show ?thesis using assms(1-3) by (simp add: chan_inv_def Let_def)
qed

text \<open>The value a load of \<open>front\<close> or \<open>rear\<close> returns is remembered.\<close>

lemma chan_inv_shadow_front:
  assumes inv: "chan_inv c" and p: "senders c 0 = S_Refresh t re" and k: "shadow_front (ring c) \<le> k" "k \<le> front (ring c)"
  shows "chan_inv (c\<lparr>ring := (ring c)\<lparr>shadow_front := k\<rparr>\<rparr>)"
proof -
  have "receiver_ok ((ring c)\<lparr>shadow_front := k\<rparr>) (sent c) (receiver c)"
    using chan_invD(8) [OF inv] by (cases "receiver c") (simp_all add: receiver_ok_def)
  moreover have "sender_ok ((ring c)\<lparr>shadow_front := k\<rparr>) (senders c 0)"
    using chan_invD(7) [OF inv] p by (simp add: sender_ok_def)
  ultimately show ?thesis
    using chan_invD [OF inv] k by (simp add: chan_inv_def Let_def offset_def staged_def)
qed

lemma chan_inv_shadow_rear:
  assumes inv: "chan_inv c" and p: "receiver c = R_Refresh f" and k: "recv_view c \<le> k" "k \<le> rear (ring c)"
  shows "chan_inv (c\<lparr>ring := (ring c)\<lparr>shadow_rear := k\<rparr>, recv_view := k, receiver := (if f = k then R_Count else R_Take f)\<rparr>)"
proof -
  have "sender_ok ((ring c)\<lparr>shadow_rear := k\<rparr>) (senders c 0)"
    using chan_invD(7) [OF inv] by (cases "senders c 0") (simp_all add: sender_ok_def)
  moreover have f: "f = front (ring c)" "f = shadow_rear (ring c)" "offset c = 0"
    using chan_invD(8) [OF inv] p by (simp_all add: receiver_ok_def offset_def)
  ultimately show ?thesis
    using chan_invD [OF inv] k
    by (auto simp: chan_inv_def Let_def offset_def staged_def receiver_ok_def)
qed

lemma send_next_inv:
  assumes inv: "chan_inv c" and one: "one_sender c a" and s: "send_next a c = Some c'"
    and bound: "length (sent c') + rb_cap (ring c) \<le> usize_max"
  shows "chan_inv c' \<and> rb_cap (ring c') = rb_cap (ring c)"
proof -
  note i = chan_invD [OF inv]
  show ?thesis
  proof (cases a)
    case (Send j t)
    then have "j = 0" "senders c 0 = S_Idle" "c' = c \<or> c' = sender_to 0 (S_Push t) c"
      using one s by (auto simp: one_sender_def split: if_splits)
    then show ?thesis
      using inv chan_inv_sender [OF inv, of "S_Push t"] by (auto simp: staged_def sender_ok_def)
  next
    case (Push_Load j)
    then obtain t where t: "j = 0" "senders c 0 = S_Push t"
      "c' = sender_to 0 (if ring_full (ring c) (rear (ring c)) then S_Refresh t (rear (ring c)) else S_Write t (rear (ring c))) c"
      using one s by (auto simp: one_sender_def Let_def split: sender_pc.splits)
    have "ring_full (ring c) (rear (ring c)) \<longleftrightarrow> shadow_front (ring c) + rb_cap (ring c) \<le> rear (ring c)"
      using i bound by (intro ring_full_iff) (simp add: t)
    then show ?thesis unfolding t(3)
      using chan_inv_sender [OF inv] t(2) by (simp add: staged_def sender_ok_def)
  next
    case (Push_Refresh j k)
    then obtain t re where t: "j = 0" "senders c 0 = S_Refresh t re" "shadow_front (ring c) \<le> k" "k \<le> front (ring c)"
      "c' = (let r = (ring c)\<lparr>shadow_front := k\<rparr> in sender_to 0 (if ring_full r re then S_Full t else S_Write t re) (c\<lparr>ring := r\<rparr>))"
      using one s by (auto simp: one_sender_def Let_def split: sender_pc.splits if_splits)
    let ?r = "(ring c)\<lparr>shadow_front := k\<rparr>"
    have inv2: "chan_inv (c\<lparr>ring := ?r\<rparr>)" by (rule chan_inv_shadow_front [OF inv t(2-4)])
    have "ring_full ?r re \<longleftrightarrow> k + rb_cap (ring c) \<le> re"
      using i t bound ring_full_iff [of ?r re] by (simp add: Let_def)
    moreover have "re = rear (ring c)" using i(7) t(2) by (simp add: sender_ok_def)
    ultimately show ?thesis unfolding t(5)
      using chan_inv_sender [OF inv2] t(2) by (simp add: staged_def sender_ok_def Let_def)
  next
    case (Retry j)
    then obtain t where "j = 0" "senders c 0 = S_Full t" "c' = sender_to 0 (if recv_gone c then S_Idle else S_Push t) c"
      using one s by (auto simp: one_sender_def split: sender_pc.splits)
    then show ?thesis using chan_inv_sender [OF inv] by (simp add: staged_def sender_ok_def)
  next
    case (Give_Up j)
    then obtain t where "j = 0" "senders c 0 = S_Full t" "c' = sender_to 0 S_Idle c"
      using one s by (auto simp: one_sender_def split: sender_pc.splits)
    then show ?thesis using chan_inv_sender [OF inv] by (simp add: staged_def sender_ok_def)
  next
    case (Push_Write j)
    then obtain t re where t: "j = 0" "senders c 0 = S_Write t re"
      "c' = sender_to 0 (S_Publish t re) (c\<lparr>ring := ring_write t re (ring c)\<rparr>)"
      using one s by (auto simp: one_sender_def split: sender_pc.splits)
    then have re: "re = rear (ring c)" "rear (ring c) < shadow_front (ring c) + rb_cap (ring c)"
      using i(7) by (simp_all add: sender_ok_def)
    define n where "n = length (cells (ring c))"
    have n: "ring_fit (ring c) n" "rb_cap (ring c) \<le> n" using i(10) by (simp_all add: ring_fit_def n_def)
    let ?lo = "length (received c) + offset c"
    have h: "holds (ring c) ?lo (drop ?lo (sent c))" using i(11) t(2) by (simp add: staged_def)
    have "length (drop ?lo (sent c)) < n" "re = ?lo + length (drop ?lo (sent c))"
      using i(1,6,9,12) re n(2) by auto
    from holds_write(2) [OF n(1) h this, of t]
    have "holds (ring_write t re (ring c)) ?lo (drop ?lo (sent c) @ [t])" .
    moreover have "receiver_ok (ring_write t re (ring c)) (sent c) (receiver c)"
      using i(8) by (cases "receiver c") (simp_all add: receiver_ok_def)
    moreover have "offset (c\<lparr>ring := ring_write t re (ring c)\<rparr>) = offset c" by (simp add: offset_def)
    ultimately show ?thesis using i re n(1)
      by (auto simp: t(3) chan_inv_def Let_def sender_ok_def)
  next
    case (Push_Publish j)
    then obtain t re where t: "j = 0" "senders c 0 = S_Publish t re"
      "c' = sender_to 0 S_Wake (c\<lparr>ring := ring_publish re (ring c), sent := sent c @ [t]\<rparr>)"
      using one s by (auto simp: one_sender_def split: sender_pc.splits)
    then have re: "re = rear (ring c)" "rear (ring c) < shadow_front (ring c) + rb_cap (ring c)"
      using i(7) by (simp_all add: sender_ok_def)
    have succ: "wrapping_succ re = Suc re" using re i(6) bound by (simp add: t(3))
    have "receiver_ok (ring_publish re (ring c)) (sent c @ [t]) (receiver c)"
      using i(3,4,6,8) by (cases "receiver c") (simp_all add: receiver_ok_def nth_append)
    moreover have "offset (c\<lparr>ring := ring_publish re (ring c), sent := sent c @ [t]\<rparr>) = offset c" by (simp add: offset_def)
    ultimately show ?thesis using i re succ t(2)
      by (auto simp: t(3) chan_inv_def Let_def sender_ok_def staged_def)
  qed (use s in simp_all)
qed

lemma wake_next_inv:
  assumes inv: "chan_inv c" and one: "one_sender c a" and s: "wake_next a c = Some c'"
  shows "chan_inv c' \<and> sent c' = sent c \<and> ring c' = ring c"
proof -
  have view: "chan_inv (c\<lparr>need_wakeup := False, wake_view := rear (ring c)\<rparr>)"
    using inv by (simp add: chan_inv_def Let_def offset_def staged_def)
  have to: "chan_inv (sender_to 0 p d)"
    if "chan_inv d" "senders d 0 \<in> {S_Idle, S_Wake, S_Signal, S_Clear}" "p \<in> {S_Idle, S_Wake, S_Signal, S_Clear}" for p d
    by (rule chan_inv_sender) (use that in \<open>auto simp: staged_def sender_ok_def\<close>)
  show ?thesis
  proof (cases a)
    case (Wake_Load j)
    then have "j = 0" "senders c 0 = S_Wake" "c' = sender_to 0 (if need_wakeup c then S_Signal else S_Idle) c"
      using one s by (auto simp: one_sender_def split: if_splits)
    then show ?thesis using to [OF inv] by simp
  next
    case (Wake_Signal j)
    then have j: "j = 0" "senders c 0 = S_Signal" "c' = (if event c then sender_to 0 S_Idle c else sender_to 0 S_Clear (c\<lparr>event := True\<rparr>))"
      using one s by (auto simp: one_sender_def split: if_splits)
    then show ?thesis using to [OF inv] to [of "c\<lparr>event := True\<rparr>" S_Clear] inv by simp
  next
    case (Wake_Clear j)
    then have j: "j = 0" "senders c 0 = S_Clear" "c' = sender_to 0 S_Idle (c\<lparr>need_wakeup := False, wake_view := rear (ring c)\<rparr>)"
      using one s by (auto simp: one_sender_def split: if_splits)
    then show ?thesis using to [OF view, of S_Idle] by simp
  next
    case Drop_Sender
    then have "senders c 0 = S_Idle" "c' = sender_to 0 S_Wake (c\<lparr>gone := True\<rparr>)" using s by (auto split: if_splits)
    then show ?thesis using to [of "c\<lparr>gone := True\<rparr>" S_Wake] inv by simp
  qed (use s in simp_all)
qed

lemma recv_next_inv:
  assumes inv: "chan_inv c" and s: "recv_next a c = Some c'" and bound: "length (sent c) + rb_cap (ring c) \<le> usize_max"
  shows "chan_inv c' \<and> sent c' = sent c \<and> rb_cap (ring c') = rb_cap (ring c)"
proof -
  note i = chan_invD [OF inv]
  have to: "chan_inv (d\<lparr>receiver := p\<rparr>)"
    if "chan_inv d" "receiver d \<in> {R_Idle, R_Reset, R_Drain, R_Rearm, R_Pop, R_Count}"
      "p \<in> {R_Idle, R_Reset, R_Drain, R_Rearm, R_Pop, R_Count}" for p d
    by (rule chan_inv_receiver [OF that(1)]) (use that in \<open>auto simp: offset_def receiver_ok_def\<close>)
  show ?thesis
  proof (cases a)
    case Poll
    then have "receiver c = R_Idle" "c' = c\<lparr>waiting := False, receiver := (if need_reset c then R_Reset else R_Pop)\<rparr>"
      using s by (auto split: if_splits)
    then show ?thesis using to [of "c\<lparr>waiting := False\<rparr>" "if need_reset c then R_Reset else R_Pop"] inv by simp
  next
    case Reset_Load
    then have r: "receiver c = R_Reset" and c': "c' = (if need_wakeup c then c\<lparr>need_reset := False, receiver := R_Pop\<rparr>
        else c\<lparr>recv_view := max (recv_view c) (wake_view c), receiver := R_Drain\<rparr>)"
      using s by (auto split: if_splits)
    have "chan_inv (c\<lparr>recv_view := max (recv_view c) (wake_view c)\<rparr>)"
      using i by (simp add: chan_inv_def Let_def offset_def staged_def)
    from to [OF this, of R_Drain] to [of "c\<lparr>need_reset := False\<rparr>" R_Pop] inv r show ?thesis by (simp add: c')
  next
    case Pop_Load
    then have "receiver c = R_Pop" "c' = c\<lparr>receiver := (if front (ring c) = shadow_rear (ring c) then R_Refresh (front (ring c)) else R_Take (front (ring c)))\<rparr>"
      using s by (auto simp: Let_def split: if_splits)
    then show ?thesis using chan_inv_receiver [OF inv] i(2) by (simp add: offset_def receiver_ok_def)
  next
    case (Pop_Refresh k)
    then obtain f where "receiver c = R_Refresh f" "recv_view c \<le> k" "k \<le> rear (ring c)"
      "c' = c\<lparr>ring := (ring c)\<lparr>shadow_rear := k\<rparr>, recv_view := k, receiver := (if f = k then R_Count else R_Take f)\<rparr>"
      using s by (auto split: receiver_pc.splits if_splits)
    then show ?thesis using chan_inv_shadow_rear [OF inv] by simp
  next
    case Pop_Take
    then obtain f v where f: "receiver c = R_Take f" "ring_read f (ring c) = Some v"
      "c' = c\<lparr>ring := ring_clear f (ring c), receiver := R_Release v f\<rparr>"
      using s by (auto split: receiver_pc.splits)
    note n = i(10)
    have ff: "f = front (ring c)" "f < shadow_rear (ring c)" using i(8) f(1) by (simp_all add: receiver_ok_def)
    have "holds (ring c) f (drop f (sent c) @ staged c)" using i(11,12) f(1) ff(1) by (simp add: offset_def)
    moreover have "drop f (sent c) = sent c ! f # drop (Suc f) (sent c)" using ff i(3,4,6) by (simp add: drop_eq_nth_Cons)
    ultimately have h: "holds (ring c) f (sent c ! f # (drop (Suc f) (sent c) @ staged c))" by simp
    have "sender_ok (ring_clear f (ring c)) (senders c 0)"
      using i(7) by (cases "senders c 0") (simp_all add: sender_ok_def)
    moreover have "staged c' = staged c" by (simp add: f(3) staged_def)
    ultimately show ?thesis using holds_clear [OF n h] i n f(2) ff
      by (auto simp: f(3) chan_inv_def Let_def offset_def receiver_ok_def)
  next
    case Pop_Release
    then obtain v f where f: "receiver c = R_Release v f"
      "c' = c\<lparr>ring := ring_release f (ring c), received := received c @ [v], receiver := R_Idle\<rparr>"
      using s by (auto split: receiver_pc.splits)
    have ff: "f = front (ring c)" "f < shadow_rear (ring c)" "v = sent c ! f" using i(8) f(1) by (simp_all add: receiver_ok_def)
    have lt: "f < length (sent c)" using ff(2) i(3,4,6) by simp
    then have succ: "wrapping_succ f = Suc f" using bound by simp
    have "sender_ok (ring_release f (ring c)) (senders c 0)"
      using i(7) by (cases "senders c 0") (simp_all add: sender_ok_def)
    moreover have "staged c' = staged c" by (simp add: f(2) staged_def)
    moreover have "take (Suc f) (sent c) = take f (sent c) @ [v]" using lt ff(3) by (simp add: take_Suc_conv_app_nth)
    ultimately show ?thesis using i f(1) ff(1,2) succ
      by (auto simp: f(2) chan_inv_def Let_def offset_def receiver_ok_def)
  next
    case Count
    then have "receiver c = R_Count" "c' = c\<lparr>need_reset := True, ended := True, receiver := R_Idle\<rparr> \<or>
        c' = c\<lparr>need_reset := True, waiting := True, receiver := R_Idle\<rparr>"
      using s by (auto split: if_splits)
    then show ?thesis
      using to [of "c\<lparr>need_reset := True, ended := True\<rparr>" R_Idle] to [of "c\<lparr>need_reset := True, waiting := True\<rparr>" R_Idle] inv
      by auto
  next
    case Reset_Drain
    then have "receiver c = R_Drain" "c' = c\<lparr>event := False, receiver := R_Rearm\<rparr> \<or> c' = c\<lparr>waiting := True, receiver := R_Idle\<rparr>"
      using s by (auto split: if_splits)
    then show ?thesis
      using to [of "c\<lparr>event := False\<rparr>" R_Rearm] to [of "c\<lparr>waiting := True\<rparr>" R_Idle] inv by auto
  next
    case Reset_Rearm
    then have "receiver c = R_Rearm" "c' = c\<lparr>need_wakeup := True, need_reset := False, receiver := R_Pop\<rparr>"
      using s by (auto split: if_splits)
    then show ?thesis using to [of "c\<lparr>need_wakeup := True, need_reset := False\<rparr>" R_Pop] inv by simp
  next
    case Drop_Receiver
    then show ?thesis using s inv by (auto split: if_splits)
  qed (use s in simp_all)
qed

lemma chan_next_cases:
  assumes "chan_next a c = Some c'"
  obtains "send_next a c = Some c'" | "wake_next a c = Some c'" | "recv_next a c = Some c'"
  using assms by (auto simp: chan_next_def split: option.splits)

text \<open>Nothing that was sent is forgotten.\<close>

lemma chan_next_sent:
  assumes "chan_next a c = Some c'"
  shows "\<exists>ts. sent c' = sent c @ ts"
  using assms
proof (cases rule: chan_next_cases)
  case 1
  then show ?thesis by (cases a) (auto simp: Let_def split: if_splits sender_pc.splits)
next
  case 2
  then have "sent c' = sent c" by (cases a) (auto split: if_splits)
  then show ?thesis by simp
next
  case 3
  then have "sent c' = sent c" by (cases a) (auto simp: Let_def split: if_splits receiver_pc.splits)
  then show ?thesis by simp
qed

lemma chan_next_inv:
  assumes inv: "chan_inv c" and one: "one_sender c a" and s: "chan_next a c = Some c'"
    and bound: "length (sent c') + rb_cap (ring c) \<le> usize_max"
  shows "chan_inv c' \<and> rb_cap (ring c') = rb_cap (ring c)"
  using s
proof (cases rule: chan_next_cases)
  case 1
  then show ?thesis using send_next_inv [OF inv one] bound by blast
next
  case 2
  then show ?thesis using wake_next_inv [OF inv one] by simp
next
  case 3
  moreover have "length (sent c) + rb_cap (ring c) \<le> usize_max" using chan_next_sent [OF s] bound by auto
  ultimately show ?thesis using recv_next_inv [OF inv] by blast
qed

lemma sync_channel_inv: "chan_inv (sync_channel capacity) \<and> rb_cap (ring (sync_channel capacity)) = capacity"
proof -
  obtain k where k: "next_power_of_two capacity = 2 ^ k" "capacity \<le> 2 ^ k" using next_power_of_two_spec by blast
  then show ?thesis
    by (auto simp: chan_inv_def sync_channel_def Let_def ring_with_capacity_def ring_fit_def holds_def offset_def staged_def
        sender_ok_def receiver_ok_def)
qed

lemma chan_reach_inv:
  assumes "chan_reach ok capacity c" and "\<And>c a. ok c a \<Longrightarrow> one_sender c a" and "length (sent c) + capacity \<le> usize_max"
  shows "chan_inv c \<and> rb_cap (ring c) = capacity"
  using assms(1,3)
proof (induction rule: chan_reach.induct)
  case reach_new
  show ?case by (rule sync_channel_inv)
next
  case (reach_step c a c')
  obtain ts where "sent c' = sent c @ ts" using chan_next_sent [OF reach_step.hyps(3)] by blast
  then have "length (sent c) + capacity \<le> usize_max" using reach_step.prems by simp
  with reach_step have "chan_inv c" "rb_cap (ring c) = capacity" by simp_all
  with chan_next_inv [OF this(1) assms(2) reach_step.hyps(3)] reach_step.hyps(2) reach_step.prems show ?case by simp
qed

section \<open>Waking the receiver\<close>

text \<open>
  What the awakener guarantees when loads of \<open>rear\<close> are fresh: the flag is down only while the
  event is up or being consumed, and a receiver that found the ring empty is woken for what came
  later.
\<close>

definition wake_inv :: "'a chan \<Rightarrow> bool" where
  "wake_inv c \<longleftrightarrow>
     (\<not> need_wakeup c \<longrightarrow> receiver c \<noteq> R_Rearm \<longrightarrow> event c) \<and>
     (senders c 0 \<in> {S_Signal, S_Clear} \<longrightarrow> need_wakeup c) \<and> (need_wakeup c \<and> event c \<longleftrightarrow> senders c 0 = S_Clear) \<and>
     (receiver c \<in> {R_Drain, R_Rearm} \<longrightarrow> \<not> need_wakeup c) \<and> (receiver c = R_Rearm \<longrightarrow> \<not> event c) \<and>
     (waiting c \<longrightarrow> receiver c = R_Idle) \<and>
     (receiver c = R_Count \<or> waiting c \<longrightarrow> front (ring c) \<noteq> rear (ring c) \<or> waiting c \<and> gone c \<longrightarrow>
       senders c 0 \<in> {S_Wake, S_Signal} \<or> event c)"

lemma wake_inv_send:
  assumes w: "wake_inv c" and one: "one_sender c a" and s: "send_next a c = Some c'"
  shows "wake_inv c'"
proof -
  have to: "wake_inv (sender_to 0 p (c\<lparr>ring := r\<rparr>))"
    if "senders c 0 \<notin> {S_Wake, S_Signal, S_Clear}" "p \<notin> {S_Wake, S_Signal, S_Clear}"
      "front r = front (ring c)" "rear r = rear (ring c)" for p r
    using w that by (simp add: wake_inv_def)
  have to': "wake_inv (sender_to 0 p c)"
    if "senders c 0 \<notin> {S_Wake, S_Signal, S_Clear}" "p \<notin> {S_Wake, S_Signal, S_Clear}" for p
    using w that by (simp add: wake_inv_def)
  show ?thesis
  proof (cases a)
    case (Push_Publish j)
    then obtain t re where "j = 0" "senders c 0 = S_Publish t re"
      "c' = sender_to 0 S_Wake (c\<lparr>ring := ring_publish re (ring c), sent := sent c @ [t]\<rparr>)"
      using one s by (auto simp: one_sender_def split: sender_pc.splits)
    then show ?thesis using w by (auto simp: wake_inv_def)
  next
    case (Push_Refresh j k)
    then obtain t re where "j = 0" "senders c 0 = S_Refresh t re"
      "c' = (let r = (ring c)\<lparr>shadow_front := k\<rparr> in sender_to 0 (if ring_full r re then S_Full t else S_Write t re) (c\<lparr>ring := r\<rparr>))"
      using one s by (auto simp: one_sender_def Let_def split: sender_pc.splits if_splits)
    then show ?thesis using to by (simp add: Let_def)
  next
    case (Push_Write j)
    then show ?thesis using one s to by (auto simp: one_sender_def split: sender_pc.splits)
  next
    case (Send j t)
    then show ?thesis using one s to' w by (auto simp: one_sender_def split: if_splits)
  next
    case (Push_Load j)
    then show ?thesis using one s to' by (auto simp: one_sender_def Let_def split: sender_pc.splits)
  next
    case (Retry j)
    then show ?thesis using one s to' by (auto simp: one_sender_def split: sender_pc.splits)
  next
    case (Give_Up j)
    then show ?thesis using one s to' by (auto simp: one_sender_def split: sender_pc.splits)
  qed (use s in simp_all)
qed

lemma wake_inv_wake:
  assumes w: "wake_inv c" and one: "one_sender c a" and s: "wake_next a c = Some c'"
  shows "wake_inv c'"
proof (cases a)
  case (Wake_Load j)
  then have "j = 0" "senders c 0 = S_Wake" "c' = sender_to 0 (if need_wakeup c then S_Signal else S_Idle) c"
    using one s by (auto simp: one_sender_def split: if_splits)
  then show ?thesis using w by (auto simp: wake_inv_def)
next
  case (Wake_Signal j)
  then have "j = 0" "senders c 0 = S_Signal" "c' = (if event c then sender_to 0 S_Idle c else sender_to 0 S_Clear (c\<lparr>event := True\<rparr>))"
    using one s by (auto simp: one_sender_def split: if_splits)
  then show ?thesis using w by (auto simp: wake_inv_def)
next
  case (Wake_Clear j)
  then have "j = 0" "senders c 0 = S_Clear" "c' = sender_to 0 S_Idle (c\<lparr>need_wakeup := False, wake_view := rear (ring c)\<rparr>)"
    using one s by (auto simp: one_sender_def split: if_splits)
  then show ?thesis using w by (auto simp: wake_inv_def)
next
  case Drop_Sender
  then have "senders c 0 = S_Idle" "c' = sender_to 0 S_Wake (c\<lparr>gone := True\<rparr>)" using s by (auto split: if_splits)
  then show ?thesis using w by (auto simp: wake_inv_def)
qed (use s in simp_all)

lemma wake_inv_recv:
  assumes inv: "chan_inv c" and w: "wake_inv c" and fresh: "fresh_loads c a" and s: "recv_next a c = Some c'"
  shows "wake_inv c'"
proof (cases a)
  case (Pop_Refresh k)
  then obtain f where f: "receiver c = R_Refresh f" "k = rear (ring c)"
    "c' = c\<lparr>ring := (ring c)\<lparr>shadow_rear := k\<rparr>, recv_view := k, receiver := (if f = k then R_Count else R_Take f)\<rparr>"
    using s fresh by (auto simp: fresh_loads_def split: receiver_pc.splits if_splits)
  then have "f = front (ring c)" using chan_invD(8) [OF inv] by (simp add: receiver_ok_def)
  then show ?thesis using w f by (auto simp: wake_inv_def)
next
  case Count
  then have r: "receiver c = R_Count" and c': "c' = (if gone c then c\<lparr>need_reset := True, ended := True, receiver := R_Idle\<rparr>
      else c\<lparr>need_reset := True, waiting := True, receiver := R_Idle\<rparr>)"
    using s by (simp_all split: if_splits)
  have n: "\<not> waiting c" and ev: "\<not> need_wakeup c \<longrightarrow> event c" "senders c 0 \<in> {S_Signal, S_Clear} \<longrightarrow> need_wakeup c"
    "need_wakeup c \<and> event c \<longleftrightarrow> senders c 0 = S_Clear"
    and q: "front (ring c) \<noteq> rear (ring c) \<longrightarrow> senders c 0 \<in> {S_Wake, S_Signal} \<or> event c"
    using w r unfolding wake_inv_def by simp_all
  show ?thesis
  proof (cases "gone c")
    case True
    then have "c' = c\<lparr>need_reset := True, ended := True, receiver := R_Idle\<rparr>" using c' by simp
    then show ?thesis using n ev unfolding wake_inv_def by simp
  next
    case False
    then have c': "c' = c\<lparr>need_reset := True, waiting := True, receiver := R_Idle\<rparr>" using c' by simp
    have f: "receiver c' = R_Idle" "ring c' = ring c" "senders c' = senders c" "need_wakeup c' = need_wakeup c"
      "event c' = event c" "waiting c' = True" "gone c' = gone c" by (simp_all add: c')
    show ?thesis unfolding wake_inv_def f using q ev by (simp add: False)
  qed
next
  case Pop_Take
  then obtain f v where f: "receiver c = R_Take f" "c' = c\<lparr>ring := ring_clear f (ring c), receiver := R_Release v f\<rparr>"
    using s by (auto split: receiver_pc.splits)
  then show ?thesis using w unfolding wake_inv_def by simp
next
  case Pop_Release
  then obtain f v where f: "receiver c = R_Release v f"
    "c' = c\<lparr>ring := ring_release f (ring c), received := received c @ [v], receiver := R_Idle\<rparr>"
    using s by (auto split: receiver_pc.splits)
  then show ?thesis using w unfolding wake_inv_def by simp
next
  case Poll
  then have r: "receiver c = R_Idle" and c': "c' = c\<lparr>waiting := False, receiver := (if need_reset c then R_Reset else R_Pop)\<rparr>"
    using s by (simp_all split: if_splits)
  show ?thesis using w r unfolding c' by (cases "need_reset c") (simp_all add: wake_inv_def)
next
  case Reset_Load
  then have r: "receiver c = R_Reset" and c': "c' = (if need_wakeup c then c\<lparr>need_reset := False, receiver := R_Pop\<rparr>
      else c\<lparr>recv_view := max (recv_view c) (wake_view c), receiver := R_Drain\<rparr>)"
    using s by (simp_all split: if_splits)
  show ?thesis using w r unfolding c' by (cases "need_wakeup c") (simp_all add: wake_inv_def)
next
  case Reset_Drain
  then have r: "receiver c = R_Drain" and c': "c' = (if event c then c\<lparr>event := False, receiver := R_Rearm\<rparr>
      else c\<lparr>waiting := True, receiver := R_Idle\<rparr>)"
    using s by (simp_all split: if_splits)
  have "event c" "\<not> need_wakeup c" "senders c 0 \<notin> {S_Signal, S_Clear}" using w r by (auto simp: wake_inv_def)
  then show ?thesis using w r unfolding c' by (simp add: wake_inv_def)
next
  case Reset_Rearm
  then have r: "receiver c = R_Rearm" and c': "c' = c\<lparr>need_wakeup := True, need_reset := False, receiver := R_Pop\<rparr>"
    using s by (simp_all split: if_splits)
  have "\<not> need_wakeup c" "\<not> event c" "senders c 0 \<notin> {S_Signal, S_Clear}" using w r by (auto simp: wake_inv_def)
  then show ?thesis using w r unfolding c' by (simp add: wake_inv_def)
next
  case Pop_Load
  then have r: "receiver c = R_Pop" and c': "c' = c\<lparr>receiver := (if front (ring c) = shadow_rear (ring c)
      then R_Refresh (front (ring c)) else R_Take (front (ring c)))\<rparr>"
    using s by (simp_all add: Let_def split: if_splits)
  show ?thesis using w r unfolding c' by (cases "front (ring c) = shadow_rear (ring c)") (simp_all add: wake_inv_def)
next
  case Drop_Receiver
  then have "c' = c\<lparr>recv_gone := True\<rparr>" using s by (simp split: if_splits)
  then show ?thesis using w by (simp add: wake_inv_def)
qed (use s in simp_all)

lemma chan_reach_wake:
  assumes "chan_reach (\<lambda>c a. one_sender c a \<and> fresh_loads c a) capacity c" and "length (sent c) + capacity \<le> usize_max"
  shows "wake_inv c"
  using assms
proof (induction rule: chan_reach.induct)
  case reach_new
  show ?case by (simp add: wake_inv_def sync_channel_def)
next
  case (reach_step c a c')
  obtain ts where "sent c' = sent c @ ts" using chan_next_sent [OF reach_step.hyps(3)] by blast
  then have bound: "length (sent c) + capacity \<le> usize_max" using reach_step.prems by simp
  have w: "wake_inv c" using reach_step.IH bound by simp
  have inv: "chan_inv c" by (rule chan_reach_inv [OF reach_step.hyps(1) _ bound, THEN conjunct1]) simp
  from reach_step.hyps(3) show ?case
  proof (cases rule: chan_next_cases)
    case 1
    then show ?thesis using wake_inv_send [OF w] reach_step.hyps(2) by blast
  next
    case 2
    then show ?thesis using wake_inv_wake [OF w] reach_step.hyps(2) by blast
  next
    case 3
    then show ?thesis using wake_inv_recv [OF inv w] reach_step.hyps(2) by blast
  qed
qed

end
