(* ===== verification/Channel_Correct.thy ===== *)
theory Channel_Correct
  imports Channel
begin

text \<open>
  What the ring and the channel guarantee to one sender and one receiver, and three races.
\<close>

section \<open>The ring\<close>

text \<open>Pushes (\<open>Some t\<close>) and pops (\<open>None\<close>), and what a queue of bounded length returns for them.\<close>

fun ring_run :: "'a option list \<Rightarrow> 'a ring \<Rightarrow> ('a option, unit) outcome list \<times> 'a ring" where
  "ring_run [] r = ([], r)"
| "ring_run (Some t # ops) r =
     (case ring_try_push t r of (res, r') \<Rightarrow> apfst ((#) (Ok res)) (ring_run ops r'))"
| "ring_run (None # ops) r =
     (case ring_try_pop r of (res, r') \<Rightarrow> apfst ((#) res) (ring_run ops r'))"

fun queue_run :: "nat \<Rightarrow> 'a option list \<Rightarrow> 'a list \<Rightarrow> 'a option list \<times> 'a list" where
  "queue_run cap [] q = ([], q)"
| "queue_run cap (Some t # ops) q =
     (if length q < cap then apfst ((#) None) (queue_run cap ops (q @ [t]))
      else apfst ((#) (Some t)) (queue_run cap ops q))"
| "queue_run cap (None # ops) q =
     (case q of [] \<Rightarrow> apfst ((#) None) (queue_run cap ops []) | x # q' \<Rightarrow> apfst ((#) (Some x)) (queue_run cap ops q'))"

lemma ring_run_spec:
  assumes "ring_inv r q" and "rear r + length ops + rb_cap r \<le> usize_max"
  shows "\<exists>r'. ring_run ops r = (map Ok (fst (queue_run (rb_cap r) ops q)), r') \<and> ring_inv r' (snd (queue_run (rb_cap r) ops q))"
  using assms
proof (induction ops arbitrary: r q)
  case (Cons op ops)
  show ?case
  proof (cases op)
    case None
    obtain r1 where r1: "ring_try_pop r = (Ok (case q of [] \<Rightarrow> None | x # _ \<Rightarrow> Some x), r1)" "ring_inv r1 (tl q)"
      "rb_cap r1 = rb_cap r" "rear r1 = rear r"
      using ring_try_pop_spec [OF Cons.prems(1)] by blast
    from Cons.IH [OF r1(2)] Cons.prems(2) r1 None show ?thesis by (cases q) auto
  next
    case (Some t)
    have "rear r + rb_cap r < usize_max" using Cons.prems(2) by simp
    from ring_try_push_spec [OF Cons.prems(1) this, of t]
    obtain r1 where r1: "ring_try_push t r = (if length q < rb_cap r then None else Some t, r1)"
      "ring_inv r1 (if length q < rb_cap r then q @ [t] else q)" "rb_cap r1 = rb_cap r" by blast
    have "rear r1 \<le> Suc (rear r)"
      using r1(1) Cons.prems(2) by (auto simp: ring_try_push_def Let_def ring_publish_def ring_write_def split: if_splits)
    with Cons.IH [OF r1(2)] Cons.prems(2) r1 Some show ?thesis by (cases "length q < rb_cap r") auto
  qed
qed simp

text \<open>
  C20. Used by one thread, the ring returns what a queue of at most \<open>capacity\<close> values would: a push
  is rejected, with its value, exactly if that many are in it, a pop takes the oldest, and dropping
  the ring drops the rest. (A ring of capacity 0 thus rejects every push.) The calls are fewer than
  \<open>2 ^ 64 - capacity\<close>, so that the counters do not overflow.
\<close>

theorem ring_is_a_queue:
  assumes "length ops + capacity \<le> usize_max" and "next_power_of_two capacity \<le> usize_max"
  shows "\<exists>r'. ring_run ops (ring_with_capacity capacity) = (map Ok (fst (queue_run capacity ops [])), r') \<and>
    ring_drop r' = Some (Ok (snd (queue_run capacity ops [])))"
proof -
  have cap: "rb_cap (ring_with_capacity capacity) = capacity" "rear (ring_with_capacity capacity) = 0"
    by (simp_all add: ring_with_capacity_def Let_def)
  obtain r' where "ring_run ops (ring_with_capacity capacity) = (map Ok (fst (queue_run capacity ops [])), r')"
    "ring_inv r' (snd (queue_run capacity ops []))"
    using ring_run_spec [OF ring_new_inv [OF assms(2)], of ops, unfolded cap] assms(1) by auto
  with ring_drop_spec show ?thesis by blast
qed

theorem ring_is_a_queue_witness:
  "fst (ring_run [Some (1::nat), Some 2, Some 3, None, Some 4, None, None] (ring_with_capacity 2)) =
    map Ok [None, None, Some 3, Some (1::nat), None, Some 2, Some 4]"
proof -
  have n: "next_power_of_two 2 = 2" by (simp add: next_power_of_two.simps)
  have "7 + 2 \<le> usize_max" by (simp add: usize_max_def)
  then show ?thesis
    using ring_is_a_queue [of "[Some (1::nat), Some 2, Some 3, None, Some 4, None, None]" 2] by (auto simp: n)
qed

section \<open>One sender and one receiver\<close>

text \<open>A run whose actions are all allowed where they are taken.\<close>

fun run_ok :: "('a chan \<Rightarrow> 'a action \<Rightarrow> bool) \<Rightarrow> 'a action list \<Rightarrow> 'a chan \<Rightarrow> bool" where
  "run_ok ok [] c = True"
| "run_ok ok (a # as) c = (ok c a \<and> (case chan_next a c of Some c' \<Rightarrow> run_ok ok as c' | None \<Rightarrow> False))"

lemma chan_exec_reach:
  "chan_reach ok capacity c \<Longrightarrow> chan_exec as c = Some c' \<Longrightarrow> run_ok ok as c \<Longrightarrow> chan_reach ok capacity c'"
  by (induction as arbitrary: c) (auto split: option.splits dest: reach_step)


text \<open>A first message, sent while the receiver looks for one.\<close>

definition first_message :: "nat action list" where
  "first_message = [Poll, Reset_Load, Send 0 7, Push_Load 0, Push_Write 0, Push_Publish 0, Pop_Load, Pop_Refresh 1]"

lemma capacity_2: "next_power_of_two 2 = 2" "next_power_of_two (Suc (Suc 0)) = 2"
  by (simp_all add: next_power_of_two.simps)

lemmas channel_eval = chan_next_def sync_channel_def sender_to_def ring_with_capacity_def ring_full_def ring_write_def
  ring_publish_def ring_read_def ring_clear_def ring_release_def effective_index_def usize_max_def capacity_2 Let_def


text \<open>
  C19. If loads of \<open>rear\<close> return its current value, as sequentially consistent accesses of \<open>rear\<close>
  would guarantee, no wakeup is lost: when the sender is between calls, a receiver that waits is
  going to be polled if a message is on the way or the sender was dropped. Nor does a call of
  \<open>wakeup\<close> ever find the event still up, which it would report as an error.
\<close>

theorem no_lost_wakeup:
  assumes "chan_reach (\<lambda>c a. one_sender c a \<and> fresh_loads c a) capacity c" and "length (sent c) + capacity \<le> usize_max"
  shows "(waiting c \<and> senders c 0 = S_Idle \<and> (received c \<noteq> sent c \<or> gone c) \<longrightarrow> event c) \<and>
    (senders c 0 = S_Signal \<longrightarrow> \<not> event c)"
proof -
  have inv: "chan_inv c" by (rule chan_reach_inv [OF assms(1) _ assms(2), THEN conjunct1]) simp
  have w: "wake_inv c" by (rule chan_reach_wake [OF assms])
  have "front (ring c) \<noteq> rear (ring c)" if "received c \<noteq> sent c"
    using chan_invD(6,12,13) [OF inv] that by auto
  then have "event c" if "waiting c" "senders c 0 = S_Idle" "received c \<noteq> sent c \<or> gone c"
    using w that by (auto simp: wake_inv_def)
  moreover have "\<not> event c" if "senders c 0 = S_Signal" using w that by (auto simp: wake_inv_def)
  ultimately show ?thesis by blast
qed

text \<open>The receiver finds nothing and waits; then a message comes.\<close>

definition wait_then_message :: "nat action list" where
  "wait_then_message = [Poll, Reset_Load, Pop_Load, Pop_Refresh 0, Count, Send 0 7, Push_Load 0, Push_Write 0,
     Push_Publish 0, Wake_Load 0, Wake_Signal 0, Wake_Clear 0]"

theorem no_lost_wakeup_witness:
  "\<exists>c. chan_exec wait_then_message (sync_channel 2) = Some c \<and> waiting c \<and> received c = [] \<and> event c"
proof -
  let ?ok = "\<lambda>c a. one_sender c a \<and> fresh_loads c a"
  obtain c where c: "chan_exec wait_then_message (sync_channel 2) = Some c"
    "waiting c" "received c = []" "sent c = [7]" "senders c 0 = S_Idle"
    by (simp add: wait_then_message_def channel_eval)
  have "chan_reach ?ok 2 c"
    by (rule chan_exec_reach [OF reach_new c(1)])
      (simp add: wait_then_message_def one_sender_def fresh_loads_def channel_eval)
  with no_lost_wakeup [of 2 c] c show ?thesis by (auto simp: usize_max_def)
qed

section \<open>Races\<close>

text \<open>
  The second message is published, and the flag found down, just before the receiver raises the
  flag; the receiver then loads the old value of \<open>rear\<close>.
\<close>

definition stale_rear :: "nat action list" where
  "stale_rear = [Send 0 1, Push_Load 0, Push_Write 0, Push_Publish 0, Wake_Load 0, Wake_Signal 0, Wake_Clear 0,
     Poll, Reset_Load, Reset_Drain,
     Send 0 2, Push_Load 0, Push_Write 0, Push_Publish 0, Wake_Load 0,
     Reset_Rearm, Pop_Load, Pop_Refresh 1, Pop_Take, Pop_Release, Poll, Pop_Load, Pop_Refresh 1, Count]"

text \<open>The sender sends and is dropped after the receiver found the ring empty, before it counts the handles.\<close>

definition late_message :: "nat action list" where
  "late_message = [Poll, Reset_Load, Pop_Load, Pop_Refresh 0,
     Send 0 1, Push_Load 0, Push_Write 0, Push_Publish 0, Wake_Load 0, Wake_Signal 0, Wake_Clear 0, Drop_Sender, Wake_Load 0,
     Count]"

text \<open>Two threads send through the same sender, which \<open>unsafe impl Sync for SyncSender\<close> allows.\<close>

definition two_threads :: "nat action list" where
  "two_threads = [Send 0 1, Send 1 2, Push_Load 0, Push_Load 1, Push_Write 0, Push_Write 1, Push_Publish 0, Push_Publish 1,
     Wake_Load 0, Wake_Signal 0, Wake_Clear 0, Wake_Load 1,
     Poll, Reset_Load, Reset_Drain, Reset_Rearm, Pop_Load, Pop_Refresh 1, Pop_Take, Pop_Release, Poll, Pop_Load, Pop_Refresh 1, Count]"

lemma three_races:
  "(\<exists>c. chan_exec stale_rear (sync_channel 2) = Some c \<and> list_all (one_sender c) stale_rear \<and> sent c = [1, 2] \<and>
      received c = [1] \<and> waiting c \<and> \<not> event c \<and> senders c = (\<lambda>_. S_Idle) \<and> chan_next Poll c = None) \<and>
   (\<exists>c. chan_exec late_message (sync_channel 2) = Some c \<and> list_all (one_sender c) late_message \<and> sent c = [1] \<and>
      received c = [] \<and> ended c) \<and>
   (\<exists>c. chan_exec two_threads (sync_channel 2) = Some c \<and> sent c = [1, 2] \<and> received c = [2] \<and>
      waiting c \<and> rear (ring c) = front (ring c) \<and> chan_next Poll c = None)"
proof (intro conjI)
  show "\<exists>c. chan_exec stale_rear (sync_channel 2) = Some c \<and> list_all (one_sender c) stale_rear \<and> sent c = [1, 2] \<and>
      received c = [1] \<and> waiting c \<and> \<not> event c \<and> senders c = (\<lambda>_. S_Idle) \<and> chan_next Poll c = None"
    by (simp add: stale_rear_def channel_eval one_sender_def fun_eq_iff)
  show "\<exists>c. chan_exec late_message (sync_channel 2) = Some c \<and> list_all (one_sender c) late_message \<and> sent c = [1] \<and>
      received c = [] \<and> ended c"
    by (simp add: late_message_def channel_eval one_sender_def fun_eq_iff)
  show "\<exists>c. chan_exec two_threads (sync_channel 2) = Some c \<and> sent c = [1, 2] \<and> received c = [2] \<and>
      waiting c \<and> rear (ring c) = front (ring c) \<and> chan_next Poll c = None"
    by (simp add: two_threads_def channel_eval fun_eq_iff)
qed

end
