(* ===== verification/Timer_Queue.thy ===== *)
theory Timer_Queue
  imports Slab "HOL-Library.Multiset" "HOL-Library.Monad_Syntax"
begin

text \<open>
  The timer queue of the event loop, \<open>src/reactor/timer.rs\<close>: a slab of timer tasks and a heap of
  their expirations, the timers that are scheduled on it, and the loop that runs the tasks of the
  timers that are due.

  Instants and durations are nanoseconds. \<open>Panic\<close>, or \<open>None\<close> where there is no other result, is a
  call of \<open>unreachable()\<close> or a read of an element of the slab that is not there. \<open>Dangling\<close> is
  the use of a reference into the slab after what it refers to was moved or removed.
\<close>

section \<open>State\<close>

datatype task_state = OneshotTask | PeriodicTask nat | ExpiredTask | CancelledTask

record timer_task =
  tk_id :: nat
  tk_state :: task_state

datatype expiration = Expiration (ex_at: nat) (ex_task: nat)

text \<open>\<open>Ord\<close> of expirations is reversed, for the heap is one with the greatest element first.\<close>

instantiation expiration :: preorder
begin

definition less_eq_expiration :: "expiration \<Rightarrow> expiration \<Rightarrow> bool" where
  "less_eq_expiration e f \<longleftrightarrow> ex_at f \<le> ex_at e"

definition less_expiration :: "expiration \<Rightarrow> expiration \<Rightarrow> bool" where
  "less_expiration e f \<longleftrightarrow> ex_at f < ex_at e"

instance
  by standard (auto simp: less_eq_expiration_def less_expiration_def)

end

record queue =
  q_tasks :: "timer_task slab"
  q_heap :: "expiration list"

definition queue_new :: queue where
  "queue_new = \<lparr>q_tasks = slab_new, q_heap = []\<rparr>"

datatype queue_fault = Dangling

section \<open>The heap\<close>

text \<open>
  \<open>BinaryHeap\<close> of the standard library, as the list of what is in it. It promises that the element
  first in line is a greatest one; which one of several is its choice, \<open>tie\<close>.
\<close>

type_synonym tie = "expiration list \<Rightarrow> nat"

definition greatest :: "expiration list \<Rightarrow> expiration list" where
  "greatest h = filter (\<lambda>e. list_all (\<lambda>f. f \<le> e) h) h"

definition heap_push :: "expiration \<Rightarrow> expiration list \<Rightarrow> expiration list" where
  "heap_push e h = e # h"

definition heap_peek :: "tie \<Rightarrow> expiration list \<Rightarrow> expiration option" where
  "heap_peek tie h = (if h = [] then None else Some (greatest h ! (tie h mod length (greatest h))))"

definition heap_pop :: "tie \<Rightarrow> expiration list \<Rightarrow> (expiration \<times> expiration list) option" where
  "heap_pop tie h = map_option (\<lambda>e. (e, remove1 e h)) (heap_peek tie h)"

section \<open>Operations\<close>

definition queue_add :: "nat \<Rightarrow> nat \<Rightarrow> queue \<Rightarrow> (nat \<times> queue) option" where
  "queue_add at task q =
     (case slab_insert \<lparr>tk_id = task, tk_state = OneshotTask\<rparr> (q_tasks q) of
        (Ok i, ts) \<Rightarrow> Some (i, q\<lparr>q_tasks := ts, q_heap := heap_push (Expiration at i) (q_heap q)\<rparr>)
      | _ \<Rightarrow> None)"

definition queue_add_periodic :: "nat \<Rightarrow> nat \<Rightarrow> nat \<Rightarrow> queue \<Rightarrow> (nat \<times> queue) option" where
  "queue_add_periodic at period task q =
     (case slab_insert \<lparr>tk_id = task, tk_state = PeriodicTask period\<rparr> (q_tasks q) of
        (Ok i, ts) \<Rightarrow> Some (i, q\<lparr>q_tasks := ts, q_heap := heap_push (Expiration at i) (q_heap q)\<rparr>)
      | _ \<Rightarrow> None)"

definition set_task_state :: "nat \<Rightarrow> timer_task \<Rightarrow> task_state \<Rightarrow> queue \<Rightarrow> queue" where
  "set_task_state i task st q = q\<lparr>q_tasks := slab_set i (task\<lparr>tk_state := st\<rparr>) (q_tasks q)\<rparr>"

definition remove_task :: "nat \<Rightarrow> queue \<Rightarrow> queue" where
  "remove_task i q = q\<lparr>q_tasks := snd (slab_remove i (q_tasks q))\<rparr>"

definition queue_cancel :: "nat \<Rightarrow> queue \<Rightarrow> (bool \<times> queue) option" where
  "queue_cancel i q =
     do {
       task \<leftarrow> slab_get i (q_tasks q);
       case tk_state task of
         ExpiredTask \<Rightarrow> Some (False, remove_task i (set_task_state i task CancelledTask q))
       | CancelledTask \<Rightarrow> Some (True, q)
       | _ \<Rightarrow> Some (True, set_task_state i task CancelledTask q) }"

definition is_task_expired :: "nat \<Rightarrow> queue \<Rightarrow> bool option" where
  "is_task_expired i q = map_option (\<lambda>task. tk_state task = ExpiredTask) (slab_get i (q_tasks q))"

subsection \<open>The timers\<close>

datatype oneshot_state = TimerUnscheduled nat | TimerScheduled nat | TimerCancelled

definition oneshot_new :: "nat \<Rightarrow> nat \<Rightarrow> oneshot_state" where
  "oneshot_new now dur = TimerUnscheduled (now + dur)"

fun oneshot_poll :: "nat \<Rightarrow> oneshot_state \<times> queue \<Rightarrow> (bool \<times> oneshot_state \<times> queue) option" where
  "oneshot_poll task (TimerScheduled i, q) =
     map_option (\<lambda>ready. (ready, TimerScheduled i, q)) (is_task_expired i q)"
| "oneshot_poll task (TimerUnscheduled at, q) =
     map_option (\<lambda>(i, q). (False, TimerScheduled i, q)) (queue_add at task q)"
| "oneshot_poll task (TimerCancelled, q) = None"

fun oneshot_cancel :: "oneshot_state \<times> queue \<Rightarrow> (bool \<times> oneshot_state \<times> queue) option" where
  "oneshot_cancel (TimerScheduled i, q) = map_option (\<lambda>(b, q). (b, TimerCancelled, q)) (queue_cancel i q)"
| "oneshot_cancel (TimerUnscheduled at, q) = Some (True, TimerCancelled, q)"
| "oneshot_cancel (TimerCancelled, q) = Some (True, TimerCancelled, q)"

datatype periodic_state = PeriodicUnscheduled nat nat | PeriodicScheduled nat | PeriodicExpired nat | PeriodicCancelled

definition periodic_new :: "nat \<Rightarrow> nat \<Rightarrow> nat \<Rightarrow> periodic_state" where
  "periodic_new now dur period = PeriodicUnscheduled (now + dur) period"

text \<open>The result is whether the stream yields; it never ends.\<close>

fun periodic_poll :: "nat \<Rightarrow> periodic_state \<times> queue \<Rightarrow> (bool \<times> periodic_state \<times> queue) option" where
  "periodic_poll task (PeriodicUnscheduled at period, q) =
     map_option (\<lambda>(i, q). (False, PeriodicScheduled i, q)) (queue_add_periodic at period task q)"
| "periodic_poll task (PeriodicScheduled i, q) =
     map_option (\<lambda>ready. (ready, if ready then PeriodicExpired i else PeriodicScheduled i, q)) (is_task_expired i q)"
| "periodic_poll task (PeriodicExpired i, q) = Some (False, PeriodicScheduled i, q)"
| "periodic_poll task (PeriodicCancelled, q) = None"

fun periodic_cancel :: "periodic_state \<times> queue \<Rightarrow> (bool \<times> periodic_state \<times> queue) option" where
  "periodic_cancel (PeriodicScheduled i, q) = map_option (\<lambda>(b, q). (b, PeriodicCancelled, q)) (queue_cancel i q)"
| "periodic_cancel (PeriodicExpired i, q) = map_option (\<lambda>(b, q). (b, PeriodicCancelled, q)) (queue_cancel i q)"
| "periodic_cancel (st, q) = Some (True, PeriodicCancelled, q)"

subsection \<open>Running what is due\<close>

text \<open>
  What the loop of \<open>poll\<close> meets outside the queue: the clock, the choice of the heap, and
  \<open>runner.run_task\<close>, which runs the task of a timer. A task is arbitrary code that may call the
  queue again; the result says whether the event loop is to exit.
\<close>

record 'x queue_env =
  qe_now :: "'x \<Rightarrow> nat \<times> 'x"
  qe_tie :: tie
  qe_run :: "nat \<Rightarrow> queue \<times> 'x \<Rightarrow> bool \<times> queue \<times> 'x"

text \<open>
  What is done with the expiration popped; the result says whether to return at once. The reference
  \<open>task\<close> is used again after the run of a periodic task.
\<close>

definition queue_fire :: "'x queue_env \<Rightarrow> expiration \<Rightarrow> queue \<times> 'x \<Rightarrow> (bool \<times> queue \<times> 'x, queue_fault) outcome" where
  "queue_fire env e qx =
     (let (q, x) = qx; i = ex_task e
      in case slab_get i (q_tasks q) of
           None \<Rightarrow> Panic
         | Some task \<Rightarrow>
             (case tk_state task of
                PeriodicTask dur \<Rightarrow>
                  (let (exit, q1, x) = qe_run env (tk_id task) (set_task_state i task ExpiredTask q, x)
                   in if exit then Ok (True, q1, x)
                      else if objs_cap (q_tasks q1) \<noteq> objs_cap (q_tasks q) then Err Dangling
                      else case slab_get i (q_tasks q1) of
                             None \<Rightarrow> Err Dangling
                           | Some task \<Rightarrow>
                               if tk_state task = CancelledTask then Ok (False, remove_task i q1, x)
                               else (let q2 = set_task_state i task (PeriodicTask dur) q1
                                     in Ok (False, q2\<lparr>q_heap := heap_push (Expiration (ex_at e + dur) i) (q_heap q2)\<rparr>, x)))
              | OneshotTask \<Rightarrow>
                  (let (exit, q1, x) = qe_run env (tk_id task) (set_task_state i task ExpiredTask q, x)
                   in Ok (exit, q1, x))
              | CancelledTask \<Rightarrow> Ok (False, remove_task i q, x)
              | ExpiredTask \<Rightarrow> Panic))"

text \<open>
  The result is \<open>None\<close> for an exit, \<open>Some None\<close> if no timer is left, and else how long to wait for
  the next one. That the loop itself does not end is \<open>None\<close> outside.
\<close>

partial_function (option) queue_poll ::
  "'x queue_env \<Rightarrow> queue \<times> 'x \<Rightarrow> (nat option option \<times> queue \<times> 'x, queue_fault) outcome option" where
  "queue_poll env qx =
     (let (q, x) = qx
      in case heap_pop (qe_tie env) (q_heap q) of
           None \<Rightarrow> Some (Ok (Some None, q, x))
         | Some (e, h) \<Rightarrow>
             (let (now, x) = qe_now env x
              in if ex_at e > now then Some (Ok (Some (Some (ex_at e - now)), q, x))
                 else case queue_fire env e (q\<lparr>q_heap := h\<rparr>, x) of
                        Ok (exit, q, x) \<Rightarrow> if exit then Some (Ok (None, q, x)) else queue_poll env (q, x)
                      | Err f \<Rightarrow> Some (Err f)
                      | Panic \<Rightarrow> Some Panic))"

section \<open>The interface of the heap\<close>

locale max_heap =
  fixes items :: "'h \<Rightarrow> 'a::preorder multiset" and push :: "'a \<Rightarrow> 'h \<Rightarrow> 'h"
    and peek :: "'h \<Rightarrow> 'a option" and pop :: "'h \<Rightarrow> ('a \<times> 'h) option"
  assumes items_push: "items (push x h) = add_mset x (items h)"
    and peek_None: "peek h = None \<longleftrightarrow> items h = {#}"
    and peek_Some: "peek h = Some x \<Longrightarrow> x \<in># items h \<and> (\<forall>y\<in>#items h. y \<le> x)"
    and pop_peek: "map_option fst (pop h) = peek h"
    and pop_items: "pop h = Some (x, h') \<Longrightarrow> items h' = items h - {#x#}"
begin

lemma pop_None: "pop h = None \<longleftrightarrow> items h = {#}"
  using pop_peek [of h] peek_None [of h] by (cases "pop h") auto

lemma pop_Some:
  assumes "pop h = Some (x, h')"
  shows "items h = add_mset x (items h')" and "\<forall>y\<in>#items h'. y \<le> x"
proof -
  have p: "x \<in># items h" "\<forall>y\<in>#items h. y \<le> x" using assms pop_peek [of h] peek_Some [of h x] by auto
  then show i: "items h = add_mset x (items h')" using pop_items [OF assms] by simp
  show "\<forall>y\<in>#items h'. y \<le> x" using p(2) by (simp add: i)
qed

end

lemma greatest_not_Nil: "h \<noteq> [] \<Longrightarrow> greatest h \<noteq> []"
proof (induction h)
  case (Cons e h)
  show ?case
  proof (cases "h = []")
    case False
    with Cons obtain f where f: "f \<in> set h" "\<forall>g\<in>set h. g \<le> f"
      by (auto simp: greatest_def filter_empty_conv list_all_iff)
    have "f \<le> e \<or> e \<le> f" by (auto simp: less_eq_expiration_def)
    then show ?thesis
    proof
      assume "f \<le> e"
      then have "e \<in> set (greatest (e # h))" using f order_trans by (auto simp: greatest_def list_all_iff)
      then show ?thesis by (metis empty_iff empty_set)
    next
      assume "e \<le> f"
      then have "f \<in> set (greatest (e # h))" using f by (auto simp: greatest_def list_all_iff)
      then show ?thesis by (metis empty_iff empty_set)
    qed
  qed (simp add: greatest_def)
qed simp

interpretation expiration_heap: max_heap mset heap_push "heap_peek tie" "heap_pop tie"
proof unfold_locales
  fix h :: "expiration list" and x h'
  show "mset (heap_push x h) = add_mset x (mset h)" by (simp add: heap_push_def)
  show "heap_peek tie h = None \<longleftrightarrow> mset h = {#}" by (simp add: heap_peek_def)
  show "map_option fst (heap_pop tie h) = heap_peek tie h" by (simp add: heap_pop_def option.map_comp o_def option.map_ident)
  show "x \<in># mset h \<and> (\<forall>y\<in>#mset h. y \<le> x)" if "heap_peek tie h = Some x"
  proof -
    have "h \<noteq> []" "x = greatest h ! (tie h mod length (greatest h))" using that by (auto simp: heap_peek_def split: if_splits)
    then have "x \<in> set (greatest h)" using greatest_not_Nil [of h] by (auto intro!: nth_mem)
    then show ?thesis by (simp add: greatest_def list_all_iff)
  qed
  show "mset h' = mset h - {#x#}" if "heap_pop tie h = Some (x, h')" using that by (auto simp: heap_pop_def)
qed

end
