(* ===== verification/Event_Loop.thy ===== *)
theory Event_Loop
  imports Timer_Queue
begin

text \<open>
  The event loop: the tasks and the schedules of \<open>src/sys/eloop.rs\<close>, the interest of a socket in
  \<open>src/sys/unix/linux/nio_imp.rs\<close> and the runner of \<open>src/reactor/eloop.rs\<close> with its gates
  (\<open>src/reactor/gate.rs\<close>) and its main task.

  A task is named by a value of type \<open>'f\<close>; its state, the clock, the kernel and the timer wheel are part
  of \<open>'x\<close>. Polling a task is arbitrary code that may call the loop again. \<open>None\<close>, or \<open>Panic\<close>, is a call
  of \<open>unreachable()\<close>, a failed assertion of a debug build, or an unchecked access to an element of a
  slab that is not there.
\<close>

section \<open>Tasks and schedules\<close>

record schedule =
  sc_read_task :: nat
  sc_write_task :: nat
  sc_read_ready :: bool
  sc_write_ready :: bool

definition schedule_new :: "nat \<Rightarrow> schedule" where
  "schedule_new task = \<lparr>sc_read_task = task, sc_write_task = task, sc_read_ready = True, sc_write_ready = True\<rparr>"

datatype ready_tasks = Single nat | Pair nat nat

record event =
  ev_token :: nat
  ev_read :: bool
  ev_write :: bool

record 'f sys_loop =
  sl_tasks :: "'f slab"
  sl_schedules :: "schedule slab"
  sl_current :: nat

definition SCHEDULE_CAPACITY :: nat where
  "SCHEDULE_CAPACITY = 512"

definition sys_loop_new :: "nat \<Rightarrow> 'f sys_loop" where
  "sys_loop_new c = \<lparr>sl_tasks = slab_with_capacity (2 * c), sl_schedules = slab_with_capacity c, sl_current = INVALID_INDEX\<rparr>"

text \<open>\<open>get_ready_tasks\<close> of \<open>nio_imp.rs\<close>: the tasks that an event is for.\<close>

definition ready_of :: "event \<Rightarrow> schedule \<Rightarrow> ready_tasks \<times> schedule" where
  "ready_of ev s =
     (if ev_read ev then
        if ev_write ev
        then (Pair (sc_read_task s) (sc_write_task s), s\<lparr>sc_read_ready := True, sc_write_ready := True\<rparr>)
        else (Single (sc_read_task s), s\<lparr>sc_read_ready := True\<rparr>)
      else (Single (sc_write_task s), s\<lparr>sc_write_ready := True\<rparr>))"

definition get_ready_tasks :: "event \<Rightarrow> 'f sys_loop \<Rightarrow> (ready_tasks \<times> 'f sys_loop) option" where
  "get_ready_tasks ev sl =
     do {
       s \<leftarrow> slab_get (ev_token ev) (sl_schedules sl);
       let (tasks, s) = ready_of ev s;
       Some (tasks, sl\<lparr>sl_schedules := slab_set (ev_token ev) s (sl_schedules sl)\<rparr>) }"

definition add_task :: "'f \<Rightarrow> 'f sys_loop \<Rightarrow> (nat \<times> 'f sys_loop) option" where
  "add_task f sl =
     (case slab_insert f (sl_tasks sl) of (Ok i, ts) \<Rightarrow> Some (i, sl\<lparr>sl_tasks := ts\<rparr>) | _ \<Rightarrow> None)"

definition drop_task :: "nat \<Rightarrow> 'f sys_loop \<Rightarrow> 'f sys_loop" where
  "drop_task i sl = sl\<lparr>sl_tasks := snd (slab_remove i (sl_tasks sl))\<rparr>"

definition sys_clear :: "'f sys_loop \<Rightarrow> 'f sys_loop" where
  "sys_clear sl = sl\<lparr>sl_tasks := slab_clear (sl_tasks sl), sl_current := INVALID_INDEX\<rparr>"

definition sys_schedule :: "'f sys_loop \<Rightarrow> (nat \<times> 'f sys_loop) option" where
  "sys_schedule sl =
     (case slab_insert (schedule_new (sl_current sl)) (sl_schedules sl) of
        (Ok i, ss) \<Rightarrow> Some (i, sl\<lparr>sl_schedules := ss\<rparr>) | _ \<Rightarrow> None)"

definition change_schedule :: "nat \<Rightarrow> (schedule \<Rightarrow> schedule) \<Rightarrow> 'f sys_loop \<Rightarrow> 'f sys_loop option" where
  "change_schedule tok g sl =
     do { s \<leftarrow> slab_get tok (sl_schedules sl); Some (sl\<lparr>sl_schedules := slab_set tok (g s) (sl_schedules sl)\<rparr>) }"

definition sys_schedule_read :: "nat \<Rightarrow> 'f sys_loop \<Rightarrow> 'f sys_loop option" where
  "sys_schedule_read tok sl = change_schedule tok (\<lambda>s. s\<lparr>sc_read_ready := False, sc_read_task := sl_current sl\<rparr>) sl"

definition sys_schedule_write :: "nat \<Rightarrow> 'f sys_loop \<Rightarrow> 'f sys_loop option" where
  "sys_schedule_write tok sl = change_schedule tok (\<lambda>s. s\<lparr>sc_write_ready := False, sc_write_task := sl_current sl\<rparr>) sl"

definition sys_cancel_read :: "nat \<Rightarrow> 'f sys_loop \<Rightarrow> 'f sys_loop option" where
  "sys_cancel_read tok sl = change_schedule tok (\<lambda>s. s\<lparr>sc_read_ready := True\<rparr>) sl"

definition sys_cancel_write :: "nat \<Rightarrow> 'f sys_loop \<Rightarrow> 'f sys_loop option" where
  "sys_cancel_write tok sl = change_schedule tok (\<lambda>s. s\<lparr>sc_write_ready := True\<rparr>) sl"

definition sys_cancel :: "nat \<Rightarrow> 'f sys_loop \<Rightarrow> 'f sys_loop" where
  "sys_cancel tok sl = sl\<lparr>sl_schedules := snd (slab_remove tok (sl_schedules sl))\<rparr>"

section \<open>Sockets\<close>

text \<open>
  \<open>Nio\<close> without the descriptor it holds. The poller is a function \<open>ctl\<close> that registers the interest of
  the descriptor in reading and in writing, and may fail with an error.
\<close>

record nio =
  nio_token :: nat
  nio_read :: bool
  nio_write :: bool

type_synonym 'p poller_ctl = "bool \<times> bool \<Rightarrow> nat \<Rightarrow> 'p \<Rightarrow> bool \<times> 'p"

definition nio_try_from :: "'p poller_ctl \<Rightarrow> 'f sys_loop \<times> 'p \<Rightarrow> ((nio, unit) outcome \<times> 'f sys_loop \<times> 'p)" where
  "nio_try_from ctl lp =
     (let (sl, p) = lp
      in case sys_schedule sl of
           None \<Rightarrow> (Panic, sl, p)
         | Some (tok, sl) \<Rightarrow>
             (case ctl (False, False) tok p of
                (True, p) \<Rightarrow> (Ok \<lparr>nio_token = tok, nio_read = False, nio_write = False\<rparr>, sl, p)
              | (False, p) \<Rightarrow> (Err (), sys_cancel tok sl, p)))"

text \<open>The calls that register interest: \<open>after\<close> is what is done with the schedule if \<open>ctl\<close> succeeds.\<close>

definition nio_reregister :: "'p poller_ctl \<Rightarrow> (nat \<Rightarrow> 'f sys_loop \<Rightarrow> 'f sys_loop option) \<Rightarrow> nio \<Rightarrow> 'f sys_loop \<times> 'p \<Rightarrow>
    (unit, unit) outcome \<times> nio \<times> 'f sys_loop \<times> 'p" where
  "nio_reregister ctl after n lp =
     (let (sl, p) = lp
      in case ctl (nio_read n, nio_write n) (nio_token n) p of
           (False, p) \<Rightarrow> (Err (), n, sl, p)
         | (True, p) \<Rightarrow> (case after (nio_token n) sl of Some sl \<Rightarrow> (Ok (), n, sl, p) | None \<Rightarrow> (Panic, n, sl, p)))"

definition nio_schedule_read :: "'p poller_ctl \<Rightarrow> nio \<Rightarrow> 'f sys_loop \<times> 'p \<Rightarrow> (unit, unit) outcome \<times> nio \<times> 'f sys_loop \<times> 'p" where
  "nio_schedule_read ctl n lp =
     (if nio_read n then (Ok (), n, lp) else nio_reregister ctl sys_schedule_read (n\<lparr>nio_read := True\<rparr>) lp)"

definition nio_schedule_write :: "'p poller_ctl \<Rightarrow> nio \<Rightarrow> 'f sys_loop \<times> 'p \<Rightarrow> (unit, unit) outcome \<times> nio \<times> 'f sys_loop \<times> 'p" where
  "nio_schedule_write ctl n lp =
     (if nio_write n then (Ok (), n, lp) else nio_reregister ctl sys_schedule_write (n\<lparr>nio_write := True\<rparr>) lp)"

definition nio_cancel_write :: "'p poller_ctl \<Rightarrow> nio \<Rightarrow> 'f sys_loop \<times> 'p \<Rightarrow> (unit, unit) outcome \<times> nio \<times> 'f sys_loop \<times> 'p" where
  "nio_cancel_write ctl n lp =
     (if nio_write n then nio_reregister ctl sys_cancel_write (n\<lparr>nio_write := False\<rparr>) lp else (Ok (), n, lp))"

definition nio_is_read_ready :: "nio \<Rightarrow> 'f sys_loop \<Rightarrow> bool option" where
  "nio_is_read_ready n sl =
     (if nio_read n then map_option sc_read_ready (slab_get (nio_token n) (sl_schedules sl)) else Some True)"

definition nio_is_write_ready :: "nio \<Rightarrow> 'f sys_loop \<Rightarrow> bool option" where
  "nio_is_write_ready n sl =
     (if nio_write n then map_option sc_write_ready (slab_get (nio_token n) (sl_schedules sl)) else Some True)"

text \<open>Dropping a socket deregisters it (\<open>del\<close>); if that fails the schedule is left.\<close>

definition nio_drop :: "('p \<Rightarrow> bool \<times> 'p) \<Rightarrow> nio \<Rightarrow> 'f sys_loop \<times> 'p \<Rightarrow> 'f sys_loop \<times> 'p" where
  "nio_drop del n lp =
     (let (sl, p) = lp in case del p of (True, p) \<Rightarrow> (sys_cancel (nio_token n) sl, p) | (False, p) \<Rightarrow> (sl, p))"

section \<open>The runner\<close>

record 'f task_runner =
  tr_inner :: "'f sys_loop"
  tr_spawn_stack :: "nat list"
  tr_gate :: nat
  tr_main :: bool

text \<open>The main task: whether its future is still there, and the result.\<close>

record ('a, 'e) main_task =
  mt_inner :: bool
  mt_ret :: "('e + 'a) option"

record ('f, 'a, 'e, 'x) eloop =
  el_runner :: "'f task_runner"
  el_queue :: queue
  el_main :: "('a, 'e) main_task"
  el_world :: 'x

definition eloop_new :: "'x \<Rightarrow> ('f, 'a, 'e, 'x) eloop" where
  "eloop_new x = \<lparr>el_runner = \<lparr>tr_inner = sys_loop_new SCHEDULE_CAPACITY, tr_spawn_stack = [], tr_gate = 0, tr_main = False\<rparr>,
     el_queue = queue_new, el_main = \<lparr>mt_inner = False, mt_ret = None\<rparr>, el_world = x\<rparr>"

text \<open>
  What the loop is run with: the polls of the main future and of the tasks, the clock, the choice of
  the heap, and the kernel's wait, which returns at most so many events, or an error.
\<close>

record ('f, 'a, 'e, 'x) futures =
  fu_main :: "('f, 'a, 'e, 'x) eloop \<Rightarrow> ('a, 'e) poll \<times> ('f, 'a, 'e, 'x) eloop"
  fu_poll :: "'f \<Rightarrow> ('f, 'a, 'e, 'x) eloop \<Rightarrow> (unit, unit) poll \<times> ('f, 'a, 'e, 'x) eloop"
  fu_now :: "'x \<Rightarrow> nat \<times> 'x"
  fu_tie :: tie
  fu_wait :: "nat \<Rightarrow> int \<Rightarrow> 'x \<Rightarrow> event list option \<times> 'x"

definition set_runner :: "('f task_runner \<Rightarrow> 'f task_runner) \<Rightarrow> ('f, 'a, 'e, 'x) eloop \<Rightarrow> ('f, 'a, 'e, 'x) eloop" where
  "set_runner g l = l\<lparr>el_runner := g (el_runner l)\<rparr>"

definition set_inner :: "('f sys_loop \<Rightarrow> 'f sys_loop) \<Rightarrow> ('f, 'a, 'e, 'x) eloop \<Rightarrow> ('f, 'a, 'e, 'x) eloop" where
  "set_inner g = set_runner (\<lambda>r. r\<lparr>tr_inner := g (tr_inner r)\<rparr>)"

abbreviation inner :: "('f, 'a, 'e, 'x) eloop \<Rightarrow> 'f sys_loop" where
  "inner l \<equiv> tr_inner (el_runner l)"

definition set_current_task :: "nat \<Rightarrow> ('f, 'a, 'e, 'x) eloop \<Rightarrow> ('f, 'a, 'e, 'x) eloop" where
  "set_current_task t = set_inner (\<lambda>sl. sl\<lparr>sl_current := t\<rparr>)"

definition has_gate :: "('f, 'a, 'e, 'x) eloop \<Rightarrow> bool" where
  "has_gate l \<longleftrightarrow> tr_gate (el_runner l) \<noteq> 0"

definition enter_gate :: "('f, 'a, 'e, 'x) eloop \<Rightarrow> bool \<times> ('f, 'a, 'e, 'x) eloop" where
  "enter_gate l =
     (if tr_main (el_runner l) then (True, set_runner (\<lambda>r. r\<lparr>tr_gate := tr_gate r + 1\<rparr>) l) else (False, l))"

definition leave_gate :: "('f, 'a, 'e, 'x) eloop \<Rightarrow> ('f, 'a, 'e, 'x) eloop option" where
  "leave_gate l =
     (if has_gate l then Some (set_runner (\<lambda>r. r\<lparr>tr_gate := tr_gate r - 1\<rparr>) l) else None)"

definition set_main_task :: "('f, 'a, 'e, 'x) eloop \<Rightarrow> ('f, 'a, 'e, 'x) eloop" where
  "set_main_task l = set_runner (\<lambda>r. r\<lparr>tr_main := True\<rparr>) (l\<lparr>el_main := \<lparr>mt_inner = True, mt_ret = None\<rparr>\<rparr>)"

text \<open>\<open>MainTask::poll\<close>: whether the main task is finished.\<close>

definition main_poll :: "('f, 'a, 'e, 'x) futures \<Rightarrow> ('f, 'a, 'e, 'x) eloop \<Rightarrow> (bool \<times> ('f, 'a, 'e, 'x) eloop) option" where
  "main_poll fs l =
     (if \<not> mt_inner (el_main l) then None
      else case fu_main fs l of
             (NotReady, l) \<Rightarrow> Some (False, l)
           | (Ready a, l) \<Rightarrow> Some (True, l\<lparr>el_main := \<lparr>mt_inner = False, mt_ret = Some (Inr a)\<rparr>\<rparr>)
           | (Failed e, l) \<Rightarrow> Some (True, l\<lparr>el_main := \<lparr>mt_inner = False, mt_ret = Some (Inl e)\<rparr>\<rparr>))"

definition run_main_task :: "('f, 'a, 'e, 'x) futures \<Rightarrow> ('f, 'a, 'e, 'x) eloop \<Rightarrow> (bool \<times> ('f, 'a, 'e, 'x) eloop) option" where
  "run_main_task fs l =
     (if \<not> tr_main (el_runner l) then None
      else do {
        (ready, l) \<leftarrow> main_poll fs l;
        if \<not> ready then Some (False, l)
        else let l = set_runner (\<lambda>r. r\<lparr>tr_main := False\<rparr>) l in Some (\<not> has_gate l, l) })"

text \<open>Polling a task of the slab, which is removed when it is finished.\<close>

definition poll_task :: "('f, 'a, 'e, 'x) futures \<Rightarrow> nat \<Rightarrow> ('f, 'a, 'e, 'x) eloop \<Rightarrow> ('f, 'a, 'e, 'x) eloop option" where
  "poll_task fs t l =
     do {
       f \<leftarrow> slab_get t (sl_tasks (inner l));
       case fu_poll fs f l of
         (NotReady, l) \<Rightarrow> Some l
       | (_, l) \<Rightarrow> Some (set_inner (drop_task t) l) }"

definition run_task :: "('f, 'a, 'e, 'x) futures \<Rightarrow> nat \<Rightarrow> ('f, 'a, 'e, 'x) eloop \<Rightarrow> (bool \<times> ('f, 'a, 'e, 'x) eloop) option" where
  "run_task fs t l =
     (let l = set_current_task t l
      in if t \<noteq> INVALID_INDEX
         then do { l \<leftarrow> poll_task fs t l; Some (\<not> tr_main (el_runner l) \<and> \<not> has_gate l, l) }
         else run_main_task fs l)"

definition spawn :: "('f, 'a, 'e, 'x) futures \<Rightarrow> 'f \<Rightarrow> ('f, 'a, 'e, 'x) eloop \<Rightarrow> ('f, 'a, 'e, 'x) eloop option" where
  "spawn fs f l =
     (if \<not> tr_main (el_runner l) then None
      else do {
        let l = set_runner (\<lambda>r. r\<lparr>tr_spawn_stack := sl_current (tr_inner r) # tr_spawn_stack r\<rparr>) l;
        (t, sl) \<leftarrow> add_task f (inner l);
        let l = set_current_task t (set_inner (\<lambda>_. sl) l);
        l \<leftarrow> poll_task fs t l;
        case tr_spawn_stack (el_runner l) of
          [] \<Rightarrow> None
        | t # stack \<Rightarrow> Some (set_current_task t (set_runner (\<lambda>r. r\<lparr>tr_spawn_stack := stack\<rparr>) l)) })"

section \<open>The loop\<close>

fun run_events :: "('f, 'a, 'e, 'x) futures \<Rightarrow> event list \<Rightarrow> ('f, 'a, 'e, 'x) eloop \<Rightarrow> (bool \<times> ('f, 'a, 'e, 'x) eloop) option" where
  "run_events fs [] l = Some (False, l)"
| "run_events fs (ev # evs) l =
     do {
       (tasks, sl) \<leftarrow> get_ready_tasks ev (inner l);
       let l = set_inner (\<lambda>_. sl) l;
       (exit, l) \<leftarrow>
         (case tasks of
            Single t \<Rightarrow> run_task fs t l
          | Pair t1 t2 \<Rightarrow> do { (exit, l) \<leftarrow> run_task fs t1 l; if exit then Some (True, l) else run_task fs t2 l });
       if exit then Some (True, l) else run_events fs evs l }"

text \<open>The milliseconds given to \<open>epoll_wait\<close>, cast to a \<open>c_int\<close>; a negative number means no limit.\<close>

definition into_millis :: "nat \<Rightarrow> nat" where
  "into_millis dur =
     ((dur div 1000000000 * 1000) mod (usize_max + 1) + (dur mod 1000000000 + 999999) div 1000000) mod (usize_max + 1)"

definition epoll_timeout :: "nat option \<Rightarrow> int" where
  "epoll_timeout timeout =
     (case timeout of Some dur \<Rightarrow> sint (word_of_nat (into_millis dur) :: 32 word) | None \<Rightarrow> -1)"

text \<open>
  The timer queue runs tasks by \<open>run_task\<close>. A panic there unwinds the whole run: it is an exit, and no
  loop is left (\<open>None\<close>).
\<close>

definition loop_env :: "('f, 'a, 'e, 'x) futures \<Rightarrow> ('f, 'a, 'e, 'x) eloop option queue_env" where
  "loop_env fs = \<lparr>
     qe_now = (\<lambda>w. case w of
         None \<Rightarrow> (0, None)
       | Some l \<Rightarrow> (case fu_now fs (el_world l) of (now, x) \<Rightarrow> (now, Some (l\<lparr>el_world := x\<rparr>)))),
     qe_tie = fu_tie fs,
     qe_run = (\<lambda>t (q, w). case w of
         None \<Rightarrow> (True, q, None)
       | Some l \<Rightarrow>
           (case run_task fs t (l\<lparr>el_queue := q\<rparr>) of
              None \<Rightarrow> (True, q, None)
            | Some (exit, l) \<Rightarrow> (exit, el_queue l, Some l)))\<rparr>"

text \<open>
  One turn of the loop, and whether to leave it; \<open>cap\<close> is the capacity of the vector of events, which is
  doubled when it was filled. \<open>None\<close> is a loop that does not end.
\<close>

definition loop_turn :: "('f, 'a, 'e, 'x) futures \<Rightarrow> nat \<Rightarrow> ('f, 'a, 'e, 'x) eloop \<Rightarrow>
    (bool \<times> nat \<times> ('f, 'a, 'e, 'x) eloop, queue_fault) outcome option" where
  "loop_turn fs cap l =
     (case queue_poll (loop_env fs) (el_queue l, Some l) of
        None \<Rightarrow> None
      | Some (Err f) \<Rightarrow> Some (Err f)
      | Some Panic \<Rightarrow> Some Panic
      | Some (Ok (v, q, None)) \<Rightarrow> Some Panic
      | Some (Ok (None, q, Some l)) \<Rightarrow> Some (Ok (True, cap, l\<lparr>el_queue := q\<rparr>))
      | Some (Ok (Some timeout, q, Some l)) \<Rightarrow>
          (case fu_wait fs cap (epoll_timeout timeout) (el_world l) of
             (None, x) \<Rightarrow> Some Panic
           | (Some evs, x) \<Rightarrow>
               (case run_events fs evs (l\<lparr>el_queue := q, el_world := x\<rparr>) of
                  None \<Rightarrow> Some Panic
                | Some (exit, l) \<Rightarrow> Some (Ok (exit, if length evs = cap then 2 * cap else cap, l)))))"

partial_function (option) run_loop ::
  "('f, 'a, 'e, 'x) futures \<Rightarrow> nat \<Rightarrow> ('f, 'a, 'e, 'x) eloop \<Rightarrow> (('f, 'a, 'e, 'x) eloop, queue_fault) outcome option" where
  "run_loop fs cap l =
     (case loop_turn fs cap l of
        None \<Rightarrow> None
      | Some (Ok (exit, cap, l)) \<Rightarrow> if exit then Some (Ok l) else run_loop fs cap l
      | Some (Err f) \<Rightarrow> Some (Err f)
      | Some Panic \<Rightarrow> Some Panic)"

definition runner_run :: "('f, 'a, 'e, 'x) futures \<Rightarrow> ('f, 'a, 'e, 'x) eloop \<Rightarrow> (('f, 'a, 'e, 'x) eloop, queue_fault) outcome option" where
  "runner_run fs l =
     (case run_main_task fs l of
        None \<Rightarrow> Some Panic
      | Some (True, l) \<Rightarrow> Some (Ok l)
      | Some (False, l) \<Rightarrow> run_loop fs (SCHEDULE_CAPACITY * 2) l)"

text \<open>\<open>EventLoop::run\<close> with the main future of \<open>fs\<close>, and its result.\<close>

definition eloop_run :: "('f, 'a, 'e, 'x) futures \<Rightarrow> ('f, 'a, 'e, 'x) eloop \<Rightarrow>
    (('e + 'a) \<times> ('f, 'a, 'e, 'x) eloop, queue_fault) outcome option" where
  "eloop_run fs l =
     (case runner_run fs (set_main_task l) of
        None \<Rightarrow> None
      | Some (Err f) \<Rightarrow> Some (Err f)
      | Some Panic \<Rightarrow> Some Panic
      | Some (Ok l) \<Rightarrow>
          (let l = set_runner (\<lambda>r. r\<lparr>tr_inner := sys_clear (tr_inner r), tr_main := False\<rparr>) l
           in case mt_ret (el_main l) of
                None \<Rightarrow> Some Panic
              | Some r \<Rightarrow> Some (Ok (r, l\<lparr>el_main := (el_main l)\<lparr>mt_ret := None\<rparr>\<rparr>))))"

end
