(* ===== verification/Tcp_Stream.thy ===== *)
theory Tcp_Stream
  imports Event_Loop Codec
begin

text \<open>
  Sockets on unix: \<open>src/sys/unix/net/tcp.rs\<close> (the blocks that are read into, receiving, sending,
  connecting, accepting) and the stream, sink and future of \<open>src/net/tcp.rs\<close> on top of it.

  The kernel is a state \<open>'k\<close> and a record of functions, one for each system call the code makes.
  A poll that panics, or follows a token to a schedule that is not there, is \<open>None\<close>.
\<close>

section \<open>The kernel\<close>

text \<open>\<open>CtlError\<close> is whatever error the poller returned.\<close>

datatype io_error = WouldBlock | InvalidInput | CtlError | IoError nat

text \<open>
  \<open>readv\<close> is given the lengths of the two slices and returns the bytes it put there, in order; \<open>writev\<close>
  is given the slices and returns how many of their bytes it took.
\<close>

record 'k kernel =
  so_readv :: "nat list \<Rightarrow> 'k \<Rightarrow> (io_error + u8 list) \<times> 'k"
  so_writev :: "u8 list list \<Rightarrow> 'k \<Rightarrow> (io_error + nat) \<times> 'k"
  so_ctl :: "'k poller_ctl"
  so_del :: "'k \<Rightarrow> bool \<times> 'k"
  so_shutdown :: "'k \<Rightarrow> io_error option \<times> 'k"
  so_take_error :: "'k \<Rightarrow> (io_error + io_error option) \<times> 'k"

section \<open>The blocks that are read into\<close>

definition BUF_SIZE :: nat where
  "BUF_SIZE = 128 * 1024"

record recv_buffer =
  rb_block1 :: block
  rb_block2 :: block
  rb_reverse :: bool

definition recv_buffer_new :: recv_buffer where
  "recv_buffer_new = \<lparr>rb_block1 = block_with_capacity BUF_SIZE, rb_block2 = block_with_capacity BUF_SIZE, rb_reverse = False\<rparr>"

text \<open>The two blocks in the order in which they are filled, and putting them back.\<close>

definition rb_pair :: "recv_buffer \<Rightarrow> block \<times> block" where
  "rb_pair bf = (if rb_reverse bf then (rb_block2 bf, rb_block1 bf) else (rb_block1 bf, rb_block2 bf))"

definition rb_put :: "block \<Rightarrow> block \<Rightarrow> recv_buffer \<Rightarrow> recv_buffer" where
  "rb_put b1 b2 bf =
     (if rb_reverse bf then bf\<lparr>rb_block2 := b1, rb_block1 := b2\<rparr> else bf\<lparr>rb_block1 := b1, rb_block2 := b2\<rparr>)"

text \<open>\<open>mem::size_of::<usize>()\<close> is 8; the block that is returned has been split off in front of \<open>b1\<close>.\<close>

definition rb_readv :: "(nat list \<Rightarrow> 'k \<Rightarrow> (io_error + u8 list) \<times> 'k) \<Rightarrow> recv_buffer \<Rightarrow> 'k \<Rightarrow>
    (io_error + (bytebuf \<times> nat) option) \<times> recv_buffer \<times> 'k" where
  "rb_readv r bf k =
     (let (b1, b2) = rb_pair bf
      in case r [cap b1, cap b2] k of
           (Inl e, k) \<Rightarrow> (Inl e, bf, k)
         | (Inr bytes, k) \<Rightarrow>
             (let n = length bytes;
                  b1 = block_write 0 (take (cap b1) bytes) b1;
                  b2 = block_write 0 (drop (cap b1) bytes) b2
              in if n = 0 then (Inr None, rb_put b1 b2 bf, k)
                 else if n \<le> appendable b1 then
                   (let (b1, block) = block_split_off n (block_set_write_pos n b1);
                        buf = bb_add_block block bytebuf_new;
                        b1 = (if appendable b1 < 8 then block_with_capacity BUF_SIZE else b1)
                    in (Inr (Some (buf, n)), rb_put b1 b2 bf, k))
                 else
                   (let len = n - appendable b1;
                        buf = bb_add_block (block_set_write_pos (cap b1) b1) bytebuf_new;
                        b1 = block_with_capacity BUF_SIZE;
                        (b2, block) = block_split_off len (block_set_write_pos len b2);
                        buf = bb_add_block block buf
                    in if appendable b2 < 8
                       then (Inr (Some (buf, n)), rb_put b1 (block_with_capacity BUF_SIZE) bf, k)
                       else (Inr (Some (buf, n)), (rb_put b1 b2 bf)\<lparr>rb_reverse := \<not> rb_reverse bf\<rparr>, k))))"

section \<open>A socket\<close>

text \<open>
  What the operations of one connection work on: its \<open>Nio\<close>, which both halves of a split socket share,
  the blocks of the thread, the buffer of the sink, the loop and the kernel.
\<close>

record ('f, 'k) tcp =
  tc_nio :: nio
  tc_recv :: recv_buffer
  tc_buf :: bytebuf
  tc_loop :: "'f sys_loop"
  tc_kernel :: 'k

text \<open>\<open>nio.schedule_read()?; Ok(x)\<close>, and the like.\<close>

definition tc_nio_then :: "(nio \<Rightarrow> 'f sys_loop \<times> 'k \<Rightarrow> (unit, unit) outcome \<times> nio \<times> 'f sys_loop \<times> 'k) \<Rightarrow> ('a, io_error) poll \<Rightarrow>
    ('f, 'k) tcp \<Rightarrow> (('a, io_error) poll \<times> ('f, 'k) tcp) option" where
  "tc_nio_then call x t =
     (case call (tc_nio t) (tc_loop t, tc_kernel t) of
        (r, n, sl, k) \<Rightarrow>
          (let t = t\<lparr>tc_nio := n, tc_loop := sl, tc_kernel := k\<rparr>
           in case r of Ok _ \<Rightarrow> Some (x, t) | Err _ \<Rightarrow> Some (Failed CtlError, t) | Panic \<Rightarrow> None))"

definition poll_recv :: "'k kernel \<Rightarrow> ('f, 'k) tcp \<Rightarrow> ((bytebuf option, io_error) poll \<times> ('f, 'k) tcp) option" where
  "poll_recv env t =
     (case nio_is_read_ready (tc_nio t) (tc_loop t) of
        None \<Rightarrow> None
      | Some False \<Rightarrow> Some (NotReady, t)
      | Some True \<Rightarrow>
          (case rb_readv (so_readv env) (tc_recv t) (tc_kernel t) of
             (r, bf, k) \<Rightarrow>
               (let t = t\<lparr>tc_recv := bf, tc_kernel := k\<rparr>
                in case r of
                     Inr (Some (data, _)) \<Rightarrow> tc_nio_then (nio_schedule_read (so_ctl env)) (Ready (Some data)) t
                   | Inr None \<Rightarrow> Some (Ready None, t)
                   | Inl WouldBlock \<Rightarrow> tc_nio_then (nio_schedule_read (so_ctl env)) NotReady t
                   | Inl e \<Rightarrow> Some (Failed e, t))))"

text \<open>The slices that are handed to \<open>writev\<close>: one for each block with bytes.\<close>

function get_iovs :: "get_iter \<Rightarrow> u8 list list" where
  "get_iovs it =
     (case get_next it of
        (None, it1) \<Rightarrow> []
      | (Some gb, it1) \<Rightarrow> as_bytes_range (gb_get_pos gb) (gb_len gb) (gb_inner gb) # get_iovs it1)"
  by pat_completeness auto
termination
  by (relation "measure (\<lambda>it. length (gi_blocks it) - gi_idx it)") (auto dest: get_next_decreases)

declare get_iovs.simps [simp del]

definition tcp_writev :: "'k kernel \<Rightarrow> bytebuf \<Rightarrow> 'k \<Rightarrow> ((io_error option) \<times> bytebuf \<times> 'k) option" where
  "tcp_writev env data k =
     (case bb_get 0 (\<lambda>it. Ok (get_iovs it)) data of
        Ok iovs \<Rightarrow>
          (case so_writev env iovs k of
             (Inl e, k) \<Rightarrow> Some (Some e, data, k)
           | (Inr n, k) \<Rightarrow> Some (None, snd (bb_skip n data), k))
      | _ \<Rightarrow> None)"

definition poll_send :: "'k kernel \<Rightarrow> ('f, 'k) tcp \<Rightarrow> ((unit, io_error) poll \<times> ('f, 'k) tcp) option" where
  "poll_send env t =
     (if bb_is_empty (tc_buf t) then Some (Ready (), t)
      else case nio_is_write_ready (tc_nio t) (tc_loop t) of
             None \<Rightarrow> None
           | Some False \<Rightarrow> Some (NotReady, t)
           | Some True \<Rightarrow>
               (case tcp_writev env (tc_buf t) (tc_kernel t) of
                  None \<Rightarrow> None
                | Some (None, data, k) \<Rightarrow>
                    (let data = bb_compact data; t = t\<lparr>tc_buf := data, tc_kernel := k\<rparr>
                     in if bb_is_empty data
                        then tc_nio_then (nio_cancel_write (so_ctl env)) (Ready ()) t
                        else tc_nio_then (nio_schedule_write (so_ctl env)) NotReady t)
                | Some (Some WouldBlock, data, k) \<Rightarrow>
                    tc_nio_then (nio_schedule_write (so_ctl env)) NotReady (t\<lparr>tc_buf := data, tc_kernel := k\<rparr>)
                | Some (Some e, data, k) \<Rightarrow> Some (Failed e, t\<lparr>tc_buf := data, tc_kernel := k\<rparr>)))"

text \<open>The sink: \<open>start_send\<close> always accepts its data; \<open>poll_complete\<close> is \<open>poll_send\<close>.\<close>

definition start_send :: "bytebuf \<Rightarrow> ('f, 'k) tcp \<Rightarrow> ('f, 'k) tcp" where
  "start_send data t = t\<lparr>tc_buf := if bb_is_empty (tc_buf t) then data else bb_extend data (tc_buf t)\<rparr>"

definition tcp_close :: "'k kernel \<Rightarrow> ('f, 'k) tcp \<Rightarrow> ((unit, io_error) poll \<times> ('f, 'k) tcp) option" where
  "tcp_close env t =
     (case poll_send env t of
        Some (Ready _, t) \<Rightarrow>
          (case so_shutdown env (tc_kernel t) of
             (None, k) \<Rightarrow> Some (Ready (), t\<lparr>tc_kernel := k\<rparr>)
           | (Some e, k) \<Rightarrow> Some (Failed e, t\<lparr>tc_kernel := k\<rparr>))
      | r \<Rightarrow> r)"

text \<open>
  A new receiver or sender, or both halves (\<open>split\<close>); a receiver turned into a sender, which starts with an empty
  buffer; a sender turned into a receiver, which drops what it has buffered; and either turned into two halves,
  where the sending half of a sender keeps its buffer.
\<close>

definition tcp_try_from :: "'k kernel \<Rightarrow> recv_buffer \<Rightarrow> 'f sys_loop \<times> 'k \<Rightarrow> (('f, 'k) tcp, 'f sys_loop \<times> 'k) outcome" where
  "tcp_try_from env bf lp =
     (case nio_try_from (so_ctl env) lp of
        (Ok n, sl, k) \<Rightarrow> Ok \<lparr>tc_nio = n, tc_recv = bf, tc_buf = bytebuf_new, tc_loop = sl, tc_kernel = k\<rparr>
      | (Err _, lp) \<Rightarrow> Err lp
      | (Panic, lp) \<Rightarrow> Panic)"

definition recv_into_sender :: "('f, 'k) tcp \<Rightarrow> ('f, 'k) tcp" where
  "recv_into_sender t = t\<lparr>tc_buf := bytebuf_new\<rparr>"

definition sender_into_recv :: "('f, 'k) tcp \<Rightarrow> ('f, 'k) tcp" where
  "sender_into_recv t = t\<lparr>tc_buf := bytebuf_new\<rparr>"

definition recv_into_twoway :: "('f, 'k) tcp \<Rightarrow> ('f, 'k) tcp" where
  "recv_into_twoway t = t\<lparr>tc_buf := bytebuf_new\<rparr>"

definition sender_into_twoway :: "('f, 'k) tcp \<Rightarrow> ('f, 'k) tcp" where
  "sender_into_twoway t = t\<lparr>tc_buf := tc_buf t\<rparr>"

definition tcp_split :: "'k kernel \<Rightarrow> recv_buffer \<Rightarrow> 'f sys_loop \<times> 'k \<Rightarrow> (('f, 'k) tcp, 'f sys_loop \<times> 'k) outcome" where
  "tcp_split env bf lp =
     (case tcp_try_from env bf lp of Ok t \<Rightarrow> Ok (t\<lparr>tc_buf := bytebuf_new\<rparr>) | Err lp \<Rightarrow> Err lp | Panic \<Rightarrow> Panic)"

section \<open>A connection in use\<close>

text \<open>
  The calls of the owner, or of the owners of the two halves, and the events of the loop that are for
  this socket, with their flags.
\<close>

datatype tcp_step = DoRecv | DoSend bytebuf | DoComplete | DoClose | Wakeup bool bool

datatype tcp_result =
    Received "(bytebuf option, io_error) poll"
  | Accepted
  | Sent "(unit, io_error) poll"
  | Woken ready_tasks

definition tcp_step :: "'k kernel \<Rightarrow> tcp_step \<Rightarrow> ('f, 'k) tcp \<Rightarrow> (tcp_result \<times> ('f, 'k) tcp) option" where
  "tcp_step env s t =
     (case s of
        DoRecv \<Rightarrow> do { (r, t) \<leftarrow> poll_recv env t; Some (Received r, t) }
      | DoSend data \<Rightarrow> Some (Accepted, start_send data t)
      | DoComplete \<Rightarrow> do { (r, t) \<leftarrow> poll_send env t; Some (Sent r, t) }
      | DoClose \<Rightarrow> do { (r, t) \<leftarrow> tcp_close env t; Some (Sent r, t) }
      | Wakeup r w \<Rightarrow> do {
          (ts, sl) \<leftarrow> get_ready_tasks \<lparr>ev_token = nio_token (tc_nio t), ev_read = r, ev_write = w\<rparr> (tc_loop t);
          Some (Woken ts, t\<lparr>tc_loop := sl\<rparr>) })"

fun tcp_run :: "'k kernel \<Rightarrow> tcp_step list \<Rightarrow> ('f, 'k) tcp \<Rightarrow> (tcp_result list \<times> ('f, 'k) tcp) option" where
  "tcp_run env [] t = Some ([], t)"
| "tcp_run env (s # ss) t =
     do { (r, t) \<leftarrow> tcp_step env s t; (rs, t) \<leftarrow> tcp_run env ss t; Some (r # rs, t) }"

section \<open>Accepting and connecting\<close>

text \<open>\<open>Incoming::poll_accept\<close>; \<open>accept\<close> is the system call.\<close>

definition poll_accept :: "('k \<Rightarrow> (io_error + 'c) \<times> 'k) \<Rightarrow> 'k kernel \<Rightarrow> ('f, 'k) tcp \<Rightarrow> (('c option, io_error) poll \<times> ('f, 'k) tcp) option" where
  "poll_accept accept env t =
     (case accept (tc_kernel t) of
        (Inr c, k) \<Rightarrow> Some (Ready (Some c), t\<lparr>tc_kernel := k\<rparr>)
      | (Inl WouldBlock, k) \<Rightarrow> tc_nio_then (nio_schedule_read (so_ctl env)) NotReady (t\<lparr>tc_kernel := k\<rparr>)
      | (Inl e, k) \<Rightarrow> Some (Failed e, t\<lparr>tc_kernel := k\<rparr>))"

datatype connect_state = Connecting nio | Finishing nio | Connected nio | ConnectError io_error | Done

text \<open>What \<open>connect(2)\<close> returns; \<open>InProgress\<close> is \<open>EINPROGRESS\<close>.\<close>

datatype connect_result = ConnectOk | InProgress | ConnectErr io_error

text \<open>\<open>Connect::from\<close>: a socket is made and registered, and dropped again if connecting fails at once.\<close>

definition connect_from :: "('k \<Rightarrow> io_error option \<times> 'k) \<Rightarrow> ('k \<Rightarrow> connect_result \<times> 'k) \<Rightarrow> 'k kernel \<Rightarrow> 'f sys_loop \<times> 'k \<Rightarrow>
    (connect_state \<times> 'f sys_loop \<times> 'k) option" where
  "connect_from socket conn env lp =
     (let (sl, k) = lp
      in case socket k of
           (Some e, k) \<Rightarrow> Some (ConnectError e, sl, k)
         | (None, k) \<Rightarrow>
             (case nio_try_from (so_ctl env) (sl, k) of
                (Panic, _) \<Rightarrow> None
              | (Err _, lp) \<Rightarrow> Some (ConnectError CtlError, lp)
              | (Ok n, sl, k) \<Rightarrow>
                  (case conn k of
                     (ConnectOk, k) \<Rightarrow> Some (Connected n, sl, k)
                   | (InProgress, k) \<Rightarrow> Some (Connecting n, sl, k)
                   | (ConnectErr e, k) \<Rightarrow> Some (ConnectError e, nio_drop (so_del env) n (sl, k)))))"

text \<open>\<open>poll_connect\<close>. The state is \<open>Done\<close> while it runs; a socket that is not put back is dropped.\<close>

definition poll_connect :: "'k kernel \<Rightarrow> connect_state \<times> 'f sys_loop \<times> 'k \<Rightarrow>
    ((nio, io_error) poll \<times> connect_state \<times> 'f sys_loop \<times> 'k) option" where
  "poll_connect env c =
     (case c of
        (Connecting n, lp) \<Rightarrow>
          (case nio_schedule_write (so_ctl env) n lp of
             (Ok _, n, lp) \<Rightarrow> Some (NotReady, Finishing n, lp)
           | (Err _, n, lp) \<Rightarrow> Some (Failed CtlError, Done, nio_drop (so_del env) n lp)
           | (Panic, _) \<Rightarrow> None)
      | (Finishing n, sl, k) \<Rightarrow>
          (case nio_is_write_ready n sl of
             None \<Rightarrow> None
           | Some False \<Rightarrow> Some (NotReady, Finishing n, sl, k)
           | Some True \<Rightarrow>
               (case so_take_error env k of
                  (Inr None, k) \<Rightarrow>
                    (case nio_cancel_write (so_ctl env) n (sl, k) of
                       (Ok _, n, lp) \<Rightarrow> Some (Ready n, Done, lp)
                     | (Err _, n, lp) \<Rightarrow> Some (Failed CtlError, Done, nio_drop (so_del env) n lp)
                     | (Panic, _) \<Rightarrow> None)
                | (Inr (Some e), k) \<Rightarrow> Some (Failed e, Done, nio_drop (so_del env) n (sl, k))
                | (Inl e, k) \<Rightarrow> Some (Failed e, Done, nio_drop (so_del env) n (sl, k))))
      | (Connected n, lp) \<Rightarrow> Some (Ready n, Done, lp)
      | (ConnectError e, lp) \<Rightarrow> Some (Failed e, Done, lp)
      | (Done, lp) \<Rightarrow> None)"

end
