(* ===== verification/Tcp_Windows.thy ===== *)
theory Tcp_Windows
  imports Tcp_Stream
begin

text \<open>
  Sockets on Windows: \<open>src/sys/windows/nio.rs\<close>, \<open>poll.rs\<close>, \<open>net/mod.rs\<close> and \<open>net/tcp.rs\<close>. An operation
  either succeeds at once, or is pending (\<open>WouldBlock\<close>): the kernel keeps the slices it was given and queues
  an event on the completion port when it is done, after which \<open>get_overlapped_result\<close> tells the result.

  The poll of a socket that panics, or follows a token to a schedule that is not there, is \<open>None\<close>.
\<close>

section \<open>Handles\<close>

record iocp_event =
  io_token :: nat
  io_read :: bool

definition iocp_ready_of :: "iocp_event \<Rightarrow> schedule \<Rightarrow> ready_tasks \<times> schedule" where
  "iocp_ready_of ev s =
     (if io_read ev then (Single (sc_read_task s), s\<lparr>sc_read_ready := True\<rparr>)
      else (Single (sc_write_task s), s\<lparr>sc_write_ready := True\<rparr>))"

definition iocp_get_ready_tasks :: "iocp_event \<Rightarrow> 'f sys_loop \<Rightarrow> (ready_tasks \<times> 'f sys_loop) option" where
  "iocp_get_ready_tasks ev sl =
     do {
       s \<leftarrow> slab_get (io_token ev) (sl_schedules sl);
       let (tasks, s) = iocp_ready_of ev s;
       Some (tasks, sl\<lparr>sl_schedules := slab_set (io_token ev) s (sl_schedules sl)\<rparr>) }"

text \<open>
  A handle is its token. Registering one sets its notification modes (\<open>modes\<close>) and adds it to the port
  (\<open>reg\<close>); both may fail.
\<close>

definition win_try_from :: "('k \<Rightarrow> bool \<times> 'k) \<Rightarrow> (nat \<Rightarrow> 'k \<Rightarrow> bool \<times> 'k) \<Rightarrow> 'f sys_loop \<times> 'k \<Rightarrow>
    (nat, io_error) outcome \<times> 'f sys_loop \<times> 'k" where
  "win_try_from modes reg lp =
     (let (sl, k) = lp
      in case modes k of
           (False, k) \<Rightarrow> (Err CtlError, sl, k)
         | (True, k) \<Rightarrow>
             (case sys_schedule sl of
                None \<Rightarrow> (Panic, sl, k)
              | Some (tok, sl) \<Rightarrow>
                  (case reg tok k of
                     (True, k) \<Rightarrow> (Ok tok, sl, k)
                   | (False, k) \<Rightarrow> (Err CtlError, sys_cancel tok sl, k))))"

definition win_is_read_ready :: "nat \<Rightarrow> 'f sys_loop \<Rightarrow> bool option" where
  "win_is_read_ready tok sl = map_option sc_read_ready (slab_get tok (sl_schedules sl))"

definition win_is_write_ready :: "nat \<Rightarrow> 'f sys_loop \<Rightarrow> bool option" where
  "win_is_write_ready tok sl = map_option sc_write_ready (slab_get tok (sl_schedules sl))"

definition win_schedule_read :: "nat \<Rightarrow> 'f sys_loop \<Rightarrow> 'f sys_loop option" where
  "win_schedule_read tok sl = sys_schedule_read tok sl"

definition win_schedule_write :: "nat \<Rightarrow> 'f sys_loop \<Rightarrow> 'f sys_loop option" where
  "win_schedule_write tok sl = sys_schedule_write tok sl"

definition win_drop :: "nat \<Rightarrow> 'f sys_loop \<Rightarrow> 'f sys_loop" where
  "win_drop tok sl = sys_cancel tok sl"

text \<open>The milliseconds given to the completion port, cast to a \<open>DWORD\<close>; \<open>INFINITE\<close> is the largest one.\<close>

definition iocp_timeout :: "nat option \<Rightarrow> nat" where
  "iocp_timeout timeout =
     (case timeout of Some dur \<Rightarrow> into_millis dur mod 2 ^ 32 | None \<Rightarrow> 2 ^ 32 - 1)"

text \<open>
  The pointer to an extension function, asked for once: \<open>0\<close> is not known; \<open>ioctl\<close> returns it or an error.
\<close>

definition wsa_ext_get :: "('k \<Rightarrow> (io_error + nat) \<times> 'k) \<Rightarrow> nat \<Rightarrow> 'k \<Rightarrow> (io_error + nat) \<times> nat \<times> 'k" where
  "wsa_ext_get ioctl func k =
     (if func \<noteq> 0 then (Inr func, func, k)
      else case ioctl k of (Inl e, k) \<Rightarrow> (Inl e, func, k) | (Inr f, k) \<Rightarrow> (Inr f, f, k))"

section \<open>Streams\<close>

text \<open>
  \<open>WSARecv\<close>, \<open>WSASend\<close>, and \<open>get_overlapped_result\<close> of a reading (\<open>True\<close>) or a writing operation, which
  tells how many bytes it transferred.
\<close>

record 'k win_kernel =
  ws_recv :: "nat list \<Rightarrow> 'k \<Rightarrow> (io_error + u8 list) \<times> 'k"
  ws_send :: "u8 list list \<Rightarrow> 'k \<Rightarrow> (io_error + nat) \<times> 'k"
  ws_result :: "bool \<Rightarrow> 'k \<Rightarrow> (io_error + nat) \<times> 'k"
  ws_shutdown :: "'k \<Rightarrow> io_error option \<times> 'k"

text \<open>A socket and its two streams: whether an operation of theirs is pending.\<close>

record ('f, 'k) win_tcp =
  wt_token :: nat
  wt_recv :: recv_buffer
  wt_recv_pending :: bool
  wt_send_pending :: bool
  wt_buf :: bytebuf
  wt_loop :: "'f sys_loop"
  wt_kernel :: 'k

text \<open>\<open>Buffer::readv\<close> is that of unix, line by line; the operation uses the \<open>overlapped\<close> of the stream.\<close>

definition win_rb_readv :: "(nat list \<Rightarrow> 'k \<Rightarrow> (io_error + u8 list) \<times> 'k) \<Rightarrow> recv_buffer \<Rightarrow> 'k \<Rightarrow>
    (io_error + (bytebuf \<times> nat) option) \<times> recv_buffer \<times> 'k" where
  "win_rb_readv r bf k = rb_readv r bf k"

text \<open>Reading into the blocks, once the socket is known to have something.\<close>

definition win_recv_now :: "'k win_kernel \<Rightarrow> ('f, 'k) win_tcp \<Rightarrow> (bytebuf option, io_error) poll \<times> ('f, 'k) win_tcp" where
  "win_recv_now env t =
     (case win_rb_readv (ws_recv env) (wt_recv t) (wt_kernel t) of
        (r, bf, k) \<Rightarrow>
          (case r of Inl e \<Rightarrow> Failed e | Inr (Some (data, _)) \<Rightarrow> Ready (Some data) | Inr None \<Rightarrow> Ready None,
           t\<lparr>wt_recv := bf, wt_kernel := k\<rparr>))"

text \<open>A read of no bytes waits until there are some.\<close>

definition win_poll_recv :: "'k win_kernel \<Rightarrow> ('f, 'k) win_tcp \<Rightarrow> ((bytebuf option, io_error) poll \<times> ('f, 'k) win_tcp) option" where
  "win_poll_recv env t =
     (if wt_recv_pending t then
        (case win_is_read_ready (wt_token t) (wt_loop t) of
           None \<Rightarrow> None
         | Some False \<Rightarrow> Some (NotReady, t)
         | Some True \<Rightarrow>
             (case ws_result env True (wt_kernel t) of
                (r, k) \<Rightarrow>
                  (let t = t\<lparr>wt_recv_pending := False, wt_kernel := k\<rparr>
                   in case r of Inl e \<Rightarrow> Some (Failed e, t) | Inr _ \<Rightarrow> Some (win_recv_now env t))))
      else
        (case ws_recv env [0] (wt_kernel t) of
           (r, k) \<Rightarrow>
             (let t = t\<lparr>wt_kernel := k\<rparr>
              in case r of
                   Inl WouldBlock \<Rightarrow>
                     map_option (\<lambda>sl. (NotReady, t\<lparr>wt_loop := sl, wt_recv_pending := True\<rparr>)) (win_schedule_read (wt_token t) (wt_loop t))
                 | Inl e \<Rightarrow> Some (Failed e, t)
                 | Inr _ \<Rightarrow> Some (win_recv_now env t))))"

definition win_writev :: "'k win_kernel \<Rightarrow> bytebuf \<Rightarrow> 'k \<Rightarrow> ((io_error option) \<times> bytebuf \<times> 'k) option" where
  "win_writev env data k =
     (case bb_get 0 (\<lambda>it. Ok (get_iovs it)) data of
        Ok iovs \<Rightarrow>
          (case ws_send env iovs k of
             (Inl e, k) \<Rightarrow> Some (Some e, data, k)
           | (Inr n, k) \<Rightarrow> Some (None, snd (bb_skip n data), k))
      | _ \<Rightarrow> None)"

text \<open>The second half of \<open>poll_send\<close>: sending what is there.\<close>

definition win_send_now :: "'k win_kernel \<Rightarrow> ('f, 'k) win_tcp \<Rightarrow> ((unit, io_error) poll \<times> ('f, 'k) win_tcp) option" where
  "win_send_now env t =
     (case win_writev env (wt_buf t) (wt_kernel t) of
        None \<Rightarrow> None
      | Some (Some WouldBlock, data, k) \<Rightarrow>
          map_option (\<lambda>sl. (NotReady, t\<lparr>wt_send_pending := True, wt_buf := data, wt_loop := sl, wt_kernel := k\<rparr>))
            (win_schedule_write (wt_token t) (wt_loop t))
      | Some (Some e, data, k) \<Rightarrow> Some (Failed e, t\<lparr>wt_buf := data, wt_kernel := k\<rparr>)
      | Some (None, data, k) \<Rightarrow>
          (let data = bb_compact data
           in Some (if bb_is_empty data then Ready () else NotReady, t\<lparr>wt_buf := data, wt_kernel := k\<rparr>)))"

definition win_poll_send :: "'k win_kernel \<Rightarrow> ('f, 'k) win_tcp \<Rightarrow> ((unit, io_error) poll \<times> ('f, 'k) win_tcp) option" where
  "win_poll_send env t =
     (if bb_is_empty (wt_buf t) then Some (Ready (), t)
      else case win_is_write_ready (wt_token t) (wt_loop t) of
             None \<Rightarrow> None
           | Some False \<Rightarrow> Some (NotReady, t)
           | Some True \<Rightarrow>
               (if wt_send_pending t then
                  (case ws_result env False (wt_kernel t) of
                     (Inl e, k) \<Rightarrow> Some (Failed e, t\<lparr>wt_send_pending := False, wt_kernel := k\<rparr>)
                   | (Inr n, k) \<Rightarrow>
                       (let data = bb_compact (snd (bb_skip n (wt_buf t)));
                            t = t\<lparr>wt_send_pending := False, wt_buf := data, wt_kernel := k\<rparr>
                        in if bb_is_empty data then Some (Ready (), t) else win_send_now env t))
                else win_send_now env t))"

text \<open>
  Turning a receiver or a sender into something else. What stays keeps its operation, and its buffer; a
  stream or sink that is new has none.
\<close>

definition win_recv_into_sender :: "('f, 'k) win_tcp \<Rightarrow> ('f, 'k) win_tcp" where
  "win_recv_into_sender t = t\<lparr>wt_recv_pending := False, wt_send_pending := False, wt_buf := bytebuf_new\<rparr>"

definition win_recv_into_twoway :: "('f, 'k) win_tcp \<Rightarrow> ('f, 'k) win_tcp" where
  "win_recv_into_twoway t = t\<lparr>wt_send_pending := False, wt_buf := bytebuf_new\<rparr>"

definition win_sender_into_recv :: "('f, 'k) win_tcp \<Rightarrow> ('f, 'k) win_tcp" where
  "win_sender_into_recv t = t\<lparr>wt_recv_pending := False, wt_send_pending := False, wt_buf := bytebuf_new\<rparr>"

definition win_sender_into_twoway :: "('f, 'k) win_tcp \<Rightarrow> ('f, 'k) win_tcp" where
  "win_sender_into_twoway t = t\<lparr>wt_recv_pending := False\<rparr>"

text \<open>The sink of \<open>src/net/tcp.rs\<close> on such a stream.\<close>

definition win_start_send :: "bytebuf \<Rightarrow> ('f, 'k) win_tcp \<Rightarrow> ('f, 'k) win_tcp" where
  "win_start_send data t = t\<lparr>wt_buf := if bb_is_empty (wt_buf t) then data else bb_extend data (wt_buf t)\<rparr>"

definition win_close :: "'k win_kernel \<Rightarrow> ('f, 'k) win_tcp \<Rightarrow> ((unit, io_error) poll \<times> ('f, 'k) win_tcp) option" where
  "win_close env t =
     (case win_poll_send env t of
        Some (Ready _, t) \<Rightarrow>
          (case ws_shutdown env (wt_kernel t) of
             (None, k) \<Rightarrow> Some (Ready (), t\<lparr>wt_kernel := k\<rparr>)
           | (Some e, k) \<Rightarrow> Some (Failed e, t\<lparr>wt_kernel := k\<rparr>))
      | r \<Rightarrow> r)"

text \<open>Steps as in \<open>Tcp_Stream\<close>; an event is for reading if its first flag is set, and else for writing.\<close>

definition win_step :: "'k win_kernel \<Rightarrow> tcp_step \<Rightarrow> ('f, 'k) win_tcp \<Rightarrow> (tcp_result \<times> ('f, 'k) win_tcp) option" where
  "win_step env s t =
     (case s of
        DoRecv \<Rightarrow> do { (r, t) \<leftarrow> win_poll_recv env t; Some (Received r, t) }
      | DoSend data \<Rightarrow> Some (Accepted, win_start_send data t)
      | DoComplete \<Rightarrow> do { (r, t) \<leftarrow> win_poll_send env t; Some (Sent r, t) }
      | DoClose \<Rightarrow> do { (r, t) \<leftarrow> win_close env t; Some (Sent r, t) }
      | Wakeup r _ \<Rightarrow> do {
          (ts, sl) \<leftarrow> iocp_get_ready_tasks \<lparr>io_token = wt_token t, io_read = r\<rparr> (wt_loop t);
          Some (Woken ts, t\<lparr>wt_loop := sl\<rparr>) })"

fun win_run :: "'k win_kernel \<Rightarrow> tcp_step list \<Rightarrow> ('f, 'k) win_tcp \<Rightarrow> (tcp_result list \<times> ('f, 'k) win_tcp) option" where
  "win_run env [] t = Some ([], t)"
| "win_run env (s # ss) t =
     do { (r, t) \<leftarrow> win_step env s t; (rs, t) \<leftarrow> win_run env ss t; Some (r # rs, t) }"

section \<open>Accepting and connecting\<close>

text \<open>
  Accepting: a socket is made for the next connection and handed to \<open>AcceptEx\<close>; when that succeeds, at once
  or later, the socket is updated and the address of the peer read, with its family.
\<close>

definition AF_INET :: nat where
  "AF_INET = 2"

definition AF_INET6 :: nat where
  "AF_INET6 = 23"

datatype 'a socket_addr = V4 'a | V6 'a

record ('c, 'a, 'k) win_acceptor =
  wa_socket :: "'k \<Rightarrow> (io_error + 'c) \<times> 'k"
  wa_accept_ex :: "'c \<Rightarrow> 'k \<Rightarrow> io_error option \<times> 'k"
  wa_result :: "'k \<Rightarrow> (io_error + nat) \<times> 'k"
  wa_setsockopt :: "'c \<Rightarrow> 'k \<Rightarrow> io_error option \<times> 'k"
  wa_sockaddrs :: "'k \<Rightarrow> nat \<times> 'a"

record ('f, 'c, 'k) win_incoming =
  wi_token :: nat
  wi_stream :: "'c option"
  wi_loop :: "'f sys_loop"
  wi_kernel :: 'k

definition parse_remote_addr :: "('c, 'a, 'k) win_acceptor \<Rightarrow> 'k \<Rightarrow> io_error + 'a socket_addr" where
  "parse_remote_addr env k =
     (case wa_sockaddrs env k of
        (family, addr) \<Rightarrow>
          if family = AF_INET then Inr (V4 addr) else if family = AF_INET6 then Inr (V6 addr) else Inl InvalidInput)"

definition finish_accept :: "('c, 'a, 'k) win_acceptor \<Rightarrow> 'c \<Rightarrow> 'k \<Rightarrow> (io_error + 'a socket_addr) \<times> 'k" where
  "finish_accept env c k =
     (case wa_setsockopt env c k of
        (Some e, k) \<Rightarrow> (Inl e, k)
      | (None, k) \<Rightarrow> (parse_remote_addr env k, k))"

definition win_accept :: "('c, 'a, 'k) win_acceptor \<Rightarrow> 'c \<Rightarrow> 'k \<Rightarrow> (io_error + 'a socket_addr) \<times> 'k" where
  "win_accept env c k =
     (case wa_accept_ex env c k of
        (None, k) \<Rightarrow> finish_accept env c k
      | (Some e, k) \<Rightarrow> (Inl e, k))"

text \<open>A new accept, when none is pending.\<close>

definition win_accept_new :: "('c, 'a, 'k) win_acceptor \<Rightarrow> ('f, 'c, 'k) win_incoming \<Rightarrow>
    (('c \<times> 'a socket_addr, io_error) poll \<times> ('f, 'c, 'k) win_incoming) option" where
  "win_accept_new env t =
     (case wa_socket env (wi_kernel t) of
        (Inl e, k) \<Rightarrow> Some (Failed e, t\<lparr>wi_kernel := k\<rparr>)
      | (Inr c, k) \<Rightarrow>
          (case win_accept env c k of
             (Inr addr, k) \<Rightarrow> Some (Ready (c, addr), t\<lparr>wi_kernel := k\<rparr>)
           | (Inl WouldBlock, k) \<Rightarrow>
               map_option (\<lambda>sl. (NotReady, t\<lparr>wi_loop := sl, wi_stream := Some c, wi_kernel := k\<rparr>)) (win_schedule_read (wi_token t) (wi_loop t))
           | (Inl e, k) \<Rightarrow> Some (Failed e, t\<lparr>wi_kernel := k\<rparr>)))"

definition win_poll_accept :: "('c, 'a, 'k) win_acceptor \<Rightarrow> ('f, 'c, 'k) win_incoming \<Rightarrow>
    (('c \<times> 'a socket_addr, io_error) poll \<times> ('f, 'c, 'k) win_incoming) option" where
  "win_poll_accept env t =
     (case win_is_read_ready (wi_token t) (wi_loop t) of
        None \<Rightarrow> None
      | Some False \<Rightarrow> Some (NotReady, t)
      | Some True \<Rightarrow>
          (case wi_stream t of
             None \<Rightarrow> win_accept_new env t
           | Some c \<Rightarrow>
               (case (case wa_result env (wi_kernel t) of (Inl e, k) \<Rightarrow> (Inl e, k) | (Inr _, k) \<Rightarrow> finish_accept env c k) of
                  (Inr addr, k) \<Rightarrow> Some (Ready (c, addr), t\<lparr>wi_stream := None, wi_kernel := k\<rparr>)
                | (Inl e, k) \<Rightarrow> win_accept_new env (t\<lparr>wi_stream := None, wi_kernel := k\<rparr>))))"

datatype win_connect_state = WConnecting nat | WFinishing nat | WConnected nat | WConnectError io_error | WDone

text \<open>
  \<open>Connect::connect\<close>: \<open>stream\<close> makes a socket that is bound and does not block, \<open>ext\<close> finds \<open>ConnectEx\<close> and
  \<open>conn\<close> calls it.
\<close>

definition win_connect_from :: "('k \<Rightarrow> io_error option \<times> 'k) \<Rightarrow> ('k \<Rightarrow> bool \<times> 'k) \<Rightarrow> (nat \<Rightarrow> 'k \<Rightarrow> bool \<times> 'k) \<Rightarrow>
    ('k \<Rightarrow> (io_error + nat) \<times> 'k) \<Rightarrow> ('k \<Rightarrow> io_error option \<times> 'k) \<Rightarrow> 'f sys_loop \<times> 'k \<Rightarrow> (win_connect_state \<times> 'f sys_loop \<times> 'k) option" where
  "win_connect_from stream modes reg ext conn lp =
     (let (sl, k) = lp
      in case stream k of
           (Some e, k) \<Rightarrow> Some (WConnectError e, sl, k)
         | (None, k) \<Rightarrow>
             (case win_try_from modes reg (sl, k) of
                (Panic, _) \<Rightarrow> None
              | (Err e, lp) \<Rightarrow> Some (WConnectError e, lp)
              | (Ok tok, sl, k) \<Rightarrow>
                  (case ext k of
                     (Inl e, k) \<Rightarrow> Some (WConnectError e, win_drop tok sl, k)
                   | (Inr _, k) \<Rightarrow>
                       (case conn k of
                          (None, k) \<Rightarrow> Some (WConnected tok, sl, k)
                        | (Some WouldBlock, k) \<Rightarrow> Some (WConnecting tok, sl, k)
                        | (Some e, k) \<Rightarrow> Some (WConnectError e, win_drop tok sl, k)))))"

text \<open>\<open>poll_connect\<close>; \<open>finish\<close> is the \<open>setsockopt\<close> of \<open>finish_connect\<close>.\<close>

definition win_poll_connect :: "('k \<Rightarrow> (io_error + nat) \<times> 'k) \<Rightarrow> ('k \<Rightarrow> io_error option \<times> 'k) \<Rightarrow> win_connect_state \<times> 'f sys_loop \<times> 'k \<Rightarrow>
    ((nat, io_error) poll \<times> win_connect_state \<times> 'f sys_loop \<times> 'k) option" where
  "win_poll_connect result finish c =
     (case c of
        (WConnecting tok, sl, k) \<Rightarrow> map_option (\<lambda>sl. (NotReady, WFinishing tok, sl, k)) (win_schedule_write tok sl)
      | (WFinishing tok, sl, k) \<Rightarrow>
          (case win_is_write_ready tok sl of
             None \<Rightarrow> None
           | Some False \<Rightarrow> Some (NotReady, WFinishing tok, sl, k)
           | Some True \<Rightarrow>
               (case result k of
                  (Inl e, k) \<Rightarrow> Some (Failed e, WDone, win_drop tok sl, k)
                | (Inr _, k) \<Rightarrow>
                    (case finish k of
                       (Some e, k) \<Rightarrow> Some (Failed e, WDone, win_drop tok sl, k)
                     | (None, k) \<Rightarrow> Some (Ready tok, WDone, sl, k))))
      | (WConnected tok, lp) \<Rightarrow> Some (Ready tok, WDone, lp)
      | (WConnectError e, lp) \<Rightarrow> Some (Failed e, WDone, lp)
      | (WDone, lp) \<Rightarrow> None)"

end
