(* ===== verification/Listener.thy ===== *)
theory Listener
  imports Tcp_Stream
begin

text \<open>
  Listeners: the builder of \<open>src/net/tcp.rs\<close>, and what it makes of a socket. The calls of \<open>net2\<close> and of the standard
  library are functions of a kernel state.
\<close>

section \<open>The builder\<close>

text \<open>\<open>SocketAddr\<close>: an address and a port, and for version 6 the flow information and the scope.\<close>

datatype listen_addr = Addr4 "32 word" "16 word" | Addr6 "128 word" "16 word" "32 word" "32 word"

fun set_port :: "16 word \<Rightarrow> listen_addr \<Rightarrow> listen_addr" where
  "set_port p (Addr4 ip _) = Addr4 ip p"
| "set_port p (Addr6 ip _ flow scope) = Addr6 ip p flow scope"

record listener_builder =
  lb_addr :: listen_addr
  lb_backlog :: "32 word"
  lb_ttl :: "32 word option"
  lb_only_v6 :: "bool option"

definition lb_default :: listener_builder where
  "lb_default = \<lparr>lb_addr = Addr4 0 0, lb_backlog = 128, lb_ttl = None, lb_only_v6 = None\<rparr>"

definition lb_set_addr :: "listen_addr \<Rightarrow> listener_builder \<Rightarrow> listener_builder" where
  "lb_set_addr a b = b\<lparr>lb_addr := a\<rparr>"

definition lb_set_port :: "16 word \<Rightarrow> listener_builder \<Rightarrow> listener_builder" where
  "lb_set_port p b = b\<lparr>lb_addr := set_port p (lb_addr b)\<rparr>"

definition lb_set_backlog :: "32 word \<Rightarrow> listener_builder \<Rightarrow> listener_builder" where
  "lb_set_backlog n b = b\<lparr>lb_backlog := n\<rparr>"

definition lb_set_ttl :: "32 word option \<Rightarrow> listener_builder \<Rightarrow> listener_builder" where
  "lb_set_ttl t b = b\<lparr>lb_ttl := t\<rparr>"

definition lb_set_only_v6 :: "bool option \<Rightarrow> listener_builder \<Rightarrow> listener_builder" where
  "lb_set_only_v6 v b = b\<lparr>lb_only_v6 := v\<rparr>"

section \<open>Making the socket\<close>

text \<open>
  The calls on a socket that has been made. A socket that goes out of scope is closed, be it in the
  builder of \<open>net2\<close> or in the listener made of it.
\<close>

datatype listen_call = SetTtl "32 word" | SetOnlyV6 bool | ReuseAddress bool | BindTo listen_addr | ListenFor "32 word" | SetNonblocking bool

record ('s, 'k) net_calls =
  nb_new_v4 :: "'k \<Rightarrow> (io_error + 's) \<times> 'k"
  nb_new_v6 :: "'k \<Rightarrow> (io_error + 's) \<times> 'k"
  nb_call :: "listen_call \<Rightarrow> 's \<Rightarrow> 'k \<Rightarrow> io_error option \<times> 'k"
  nb_close :: "'s \<Rightarrow> 'k \<Rightarrow> 'k"

text \<open>A call with the operator \<open>?\<close>, and what follows it.\<close>

definition nb_try :: "('s, 'k) net_calls \<Rightarrow> 's \<Rightarrow> listen_call \<Rightarrow> ('k \<Rightarrow> (io_error + 's) \<times> 'k) \<Rightarrow> 'k \<Rightarrow> (io_error + 's) \<times> 'k" where
  "nb_try net s c rest k = (case nb_call net c s k of (Some e, k) \<Rightarrow> (Inl e, nb_close net s k) | (None, k) \<Rightarrow> rest k)"

definition lb_build :: "('s, 'k) net_calls \<Rightarrow> listener_builder \<Rightarrow> 'k \<Rightarrow> (io_error + 's) \<times> 'k" where
  "lb_build net b k =
     (case (case lb_addr b of Addr4 _ _ \<Rightarrow> nb_new_v4 net k | Addr6 _ _ _ _ \<Rightarrow> nb_new_v6 net k) of
        (Inl e, k) \<Rightarrow> (Inl e, k)
      | (Inr s, k) \<Rightarrow>
          (case lb_ttl b of None \<Rightarrow> (\<lambda>rest. rest) | Some ttl \<Rightarrow> nb_try net s (SetTtl ttl))
            ((case lb_only_v6 b of None \<Rightarrow> (\<lambda>rest. rest) | Some v \<Rightarrow> nb_try net s (SetOnlyV6 v))
              (nb_try net s (ReuseAddress True)
                (nb_try net s (BindTo (lb_addr b))
                  (nb_try net s (ListenFor (lb_backlog b))
                    (nb_try net s (SetNonblocking True) (\<lambda>k. (Inr s, k))))))) k)"

text \<open>\<open>TcpListener::incoming\<close>: the listener is registered with the loop; if it cannot be, it is closed.\<close>

definition listener_incoming :: "('s, 'k) net_calls \<Rightarrow> 'k poller_ctl \<Rightarrow> 's \<Rightarrow> 'f sys_loop \<times> 'k \<Rightarrow>
    (nio, unit) outcome \<times> 'f sys_loop \<times> 'k" where
  "listener_incoming net ctl s lp =
     (case nio_try_from ctl lp of (Err e, sl, k) \<Rightarrow> (Err e, sl, nb_close net s k) | r \<Rightarrow> r)"

section \<open>What a listener is\<close>

definition option_call :: "('a \<Rightarrow> listen_call) \<Rightarrow> 'a option \<Rightarrow> listen_call list" where
  "option_call c v = (case v of None \<Rightarrow> [] | Some v \<Rightarrow> [c v])"

definition listen_calls :: "listener_builder \<Rightarrow> listen_call list" where
  "listen_calls b = option_call SetTtl (lb_ttl b) @ option_call SetOnlyV6 (lb_only_v6 b) @
     [ReuseAddress True, BindTo (lb_addr b), ListenFor (lb_backlog b), SetNonblocking True]"

text \<open>The calls in order, and how many of them succeed before the first that does not.\<close>

fun calls_run :: "('s, 'k) net_calls \<Rightarrow> 's \<Rightarrow> listen_call list \<Rightarrow> 'k \<Rightarrow> io_error option \<times> nat \<times> 'k" where
  "calls_run net s [] k = (None, 0, k)"
| "calls_run net s (c # cs) k =
     (case nb_call net c s k of
        (Some e, k) \<Rightarrow> (Some e, 0, k)
      | (None, k) \<Rightarrow> (case calls_run net s cs k of (r, n, k) \<Rightarrow> (r, Suc n, k)))"

lemma calls_run_length:
  "calls_run net s cs k = (r, n, k') \<Longrightarrow> n \<le> length cs \<and> (r = None \<longleftrightarrow> n = length cs)"
  by (induction cs arbitrary: k n) (auto split: prod.splits option.splits)

definition listen_result :: "('s, 'k) net_calls \<Rightarrow> 's \<Rightarrow> io_error option \<times> nat \<times> 'k \<Rightarrow> (io_error + 's) \<times> 'k" where
  "listen_result net s res = (case res of (None, _, k) \<Rightarrow> (Inr s, k) | (Some e, _, k) \<Rightarrow> (Inl e, nb_close net s k))"

lemma nb_try_run:
  assumes "\<And>k. rest k = listen_result net s (calls_run net s cs k)"
  shows "nb_try net s c rest k = listen_result net s (calls_run net s (c # cs) k)"
  using assms by (auto simp: nb_try_def listen_result_def split: prod.splits option.splits)

lemma option_run:
  assumes "\<And>k. rest k = listen_result net s (calls_run net s cs k)"
  shows "(case v of None \<Rightarrow> (\<lambda>rest. rest) | Some v \<Rightarrow> nb_try net s (c v)) rest k =
    listen_result net s (calls_run net s (option_call c v @ cs) k)"
  using nb_try_run [where rest = rest, OF assms] assms by (cases v) (simp_all only: option_call_def option.case append.simps)

lemma lb_build_run:
  assumes "(case lb_addr b of Addr4 _ _ \<Rightarrow> nb_new_v4 net k | Addr6 _ _ _ _ \<Rightarrow> nb_new_v6 net k) = (Inr s, k1)"
  shows "lb_build net b k = listen_result net s (calls_run net s (listen_calls b) k1)"
  unfolding lb_build_def assms listen_calls_def
  by (simp, intro option_run nb_try_run) (simp add: listen_result_def)

text \<open>
  A listener comes of the builder only when each of its calls has succeeded, in order; the first that fails
  is the error, and the socket is closed.
\<close>

definition built :: "('s, 'k) net_calls \<Rightarrow> listener_builder \<Rightarrow> 'k \<Rightarrow> bool" where
  "built net b k \<longleftrightarrow>
     (case (case lb_addr b of Addr4 _ _ \<Rightarrow> nb_new_v4 net k | Addr6 _ _ _ _ \<Rightarrow> nb_new_v6 net k) of
        (Inl e, k1) \<Rightarrow> lb_build net b k = (Inl e, k1)
      | (Inr s, k1) \<Rightarrow>
          (case calls_run net s (listen_calls b) k1 of
             (None, n, k2) \<Rightarrow> n = length (listen_calls b) \<and> lb_build net b k = (Inr s, k2)
           | (Some e, n, k2) \<Rightarrow> n < length (listen_calls b) \<and> lb_build net b k = (Inl e, nb_close net s k2)))"

lemma lb_build_built: "built net b k"
proof -
  obtain r k1 where new: "(case lb_addr b of Addr4 _ _ \<Rightarrow> nb_new_v4 net k | Addr6 _ _ _ _ \<Rightarrow> nb_new_v6 net k) = (r, k1)" by fastforce
  show ?thesis
  proof (cases r)
    case (Inl e)
    with new show ?thesis by (simp add: built_def lb_build_def)
  next
    case (Inr s)
    obtain e n k2 where run: "calls_run net s (listen_calls b) k1 = (e, n, k2)" by (cases "calls_run net s (listen_calls b) k1")
    with calls_run_length [OF run] lb_build_run [OF new [unfolded Inr]] new Inr show ?thesis
      by (cases e) (auto simp: built_def listen_result_def)
  qed
qed

text \<open>The builder of a listener on a port, as the examples of the crate use it.\<close>

lemma port_calls:
  "listen_calls (lb_set_port p lb_default) = [ReuseAddress True, BindTo (Addr4 0 p), ListenFor 128, SetNonblocking True]"
  by (simp add: listen_calls_def option_call_def lb_set_port_def lb_default_def)

lemma setter_calls:
  "listen_calls (lb_set_addr a (lb_set_backlog n (lb_set_ttl (Some t) (lb_set_only_v6 (Some v) b)))) =
    [SetTtl t, SetOnlyV6 v, ReuseAddress True, BindTo a, ListenFor n, SetNonblocking True]"
  by (simp add: listen_calls_def option_call_def lb_set_addr_def lb_set_backlog_def lb_set_ttl_def lb_set_only_v6_def)

end
