(* ===== verification/Timer_Queue_Correct.thy ===== *)
theory Timer_Queue_Correct
  imports Timer_Queue
begin

text \<open>
  The timer queue: its invariant under the calls that the owners of timers can make, what a poll runs
  and in which order, and how a task can break it.
\<close>

section \<open>The invariant\<close>

abbreviation look :: "queue \<Rightarrow> nat \<Rightarrow> timer_task option" where
  "look q \<equiv> slab_map (q_tasks q)"

text \<open>The tasks that have not expired are those with an expiration in the heap, one each.\<close>

definition queued :: "queue \<Rightarrow> nat set" where
  "queued q = {i. \<exists>t. look q i = Some t \<and> tk_state t \<noteq> ExpiredTask}"

definition queue_inv :: "queue \<Rightarrow> bool" where
  "queue_inv q \<longleftrightarrow> slab_wf (q_tasks q) \<and> distinct (map ex_task (q_heap q)) \<and> ex_task ` set (q_heap q) = queued q"

lemma queue_new_inv: "queue_inv queue_new"
  by (simp add: queue_inv_def queue_new_def queued_def)

lemma look_set_task:
  assumes "slab_wf (q_tasks q)" and "look q i \<noteq> None"
  shows "slab_wf (q_tasks (set_task_state i t st q))" and "look (set_task_state i t st q) = (look q)(i \<mapsto> t\<lparr>tk_state := st\<rparr>)"
    and "q_heap (set_task_state i t st q) = q_heap q" and "objs_cap (q_tasks (set_task_state i t st q)) = objs_cap (q_tasks q)"
  using slab_set_spec [OF assms] by (simp_all add: set_task_state_def slab_set_def split: option.splits)

lemma look_remove_task:
  assumes "slab_wf (q_tasks q)"
  shows "slab_wf (q_tasks (remove_task i q))" and "look (remove_task i q) = (look q)(i := None)"
    and "q_heap (remove_task i q) = q_heap q"
  using slab_remove_spec [OF assms, of i] by (auto simp: remove_task_def)

lemma queue_insert_spec:
  assumes "queue_inv q" and "card (dom (look q)) < INVALID_INDEX" and "tk_state t \<noteq> ExpiredTask"
  obtains i ts where "slab_insert t (q_tasks q) = (Ok i, ts)" and "look q i = None"
    and "slab_map ts = (look q)(i \<mapsto> t)" and "queue_inv (q\<lparr>q_tasks := ts, q_heap := heap_push (Expiration at i) (q_heap q)\<rparr>)"
proof -
  have w: "slab_wf (q_tasks q)" using assms(1) by (simp add: queue_inv_def)
  obtain i ts where i: "slab_insert t (q_tasks q) = (Ok i, ts)" "slab_wf ts" "look q i = None"
    "slab_map ts = (look q)(i \<mapsto> t)"
    using slab_insert_spec [OF w assms(2)] by (metis domIff)
  let ?q = "q\<lparr>q_tasks := ts, q_heap := heap_push (Expiration at i) (q_heap q)\<rparr>"
  have "i \<notin> queued q" using i(3) by (simp add: queued_def)
  moreover have "queued ?q = insert i (queued q)" using assms(3) i by (auto simp: queued_def)
  ultimately have "queue_inv ?q" using assms(1) i(2) by (auto simp: queue_inv_def heap_push_def)
  with i show thesis by (intro that)
qed

text \<open>The calls of a program. Only the owner of a timer cancels it, and once.\<close>

inductive queue_calls :: "queue \<Rightarrow> queue \<Rightarrow> bool" where
  calls_refl: "queue_calls q q"
| calls_add: "queue_calls q q1 \<Longrightarrow> card (dom (look q1)) < INVALID_INDEX \<Longrightarrow> queue_add at task q1 = Some (i, q2) \<Longrightarrow>
    queue_calls q q2"
| calls_add_periodic: "queue_calls q q1 \<Longrightarrow> card (dom (look q1)) < INVALID_INDEX \<Longrightarrow>
    queue_add_periodic at period task q1 = Some (i, q2) \<Longrightarrow> queue_calls q q2"
| calls_cancel: "queue_calls q q1 \<Longrightarrow> look q1 i = Some t \<Longrightarrow> tk_state t \<noteq> CancelledTask \<Longrightarrow>
    queue_cancel i q1 = Some (b, q2) \<Longrightarrow> queue_calls q q2"

lemma queue_cancel_inv:
  assumes "queue_inv q" and "look q i = Some t" and "tk_state t \<noteq> CancelledTask"
  shows "\<exists>q'. queue_cancel i q = Some (tk_state t \<noteq> ExpiredTask, q') \<and> queue_inv q' \<and> q_heap q' = q_heap q \<and>
    look q' = (look q)(i := if tk_state t = ExpiredTask then None else Some (t\<lparr>tk_state := CancelledTask\<rparr>))"
proof -
  have w: "slab_wf (q_tasks q)" using assms(1) by (simp add: queue_inv_def)
  have n: "look q i \<noteq> None" by (simp add: assms(2))
  let ?q = "set_task_state i t CancelledTask q"
  note s = look_set_task [OF w n, of t CancelledTask]
  note r = look_remove_task [OF s(1), of i]
  have g: "slab_get i (q_tasks q) = Some t" using assms(2) by (simp add: slab_map_def)
  show ?thesis
  proof (cases "tk_state t = ExpiredTask")
    case True
    have "queued (remove_task i ?q) = queued q" unfolding queued_def r(2) s(2) using assms(2) True by auto
    then have "queue_inv (remove_task i ?q)" using assms(1) r(1,3) s(3) by (simp add: queue_inv_def)
    then show ?thesis using True g r s by (simp add: queue_cancel_def)
  next
    case False
    have "queued ?q = queued q" unfolding queued_def s(2) using assms(2) False by auto
    then have "queue_inv ?q" using assms(1) s(1,3) by (simp add: queue_inv_def)
    then show ?thesis using False g s assms(3) by (cases "tk_state t") (simp_all add: queue_cancel_def)
  qed
qed

lemma queue_add_inv:
  assumes "queue_inv q" and "card (dom (look q)) < INVALID_INDEX"
  shows "\<exists>i q'. queue_add at task q = Some (i, q') \<and> queue_inv q' \<and> look q i = None \<and>
      look q' = (look q)(i \<mapsto> \<lparr>tk_id = task, tk_state = OneshotTask\<rparr>) \<and> q_heap q' = Expiration at i # q_heap q"
    and "\<exists>i q'. queue_add_periodic at period task q = Some (i, q') \<and> queue_inv q' \<and> look q i = None \<and>
      look q' = (look q)(i \<mapsto> \<lparr>tk_id = task, tk_state = PeriodicTask period\<rparr>) \<and> q_heap q' = Expiration at i # q_heap q"
proof -
  obtain i ts where "slab_insert \<lparr>tk_id = task, tk_state = OneshotTask\<rparr> (q_tasks q) = (Ok i, ts)" "look q i = None"
    "slab_map ts = (look q)(i \<mapsto> \<lparr>tk_id = task, tk_state = OneshotTask\<rparr>)"
    "queue_inv (q\<lparr>q_tasks := ts, q_heap := heap_push (Expiration at i) (q_heap q)\<rparr>)"
    by (rule queue_insert_spec [OF assms]) auto
  then show "\<exists>i q'. queue_add at task q = Some (i, q') \<and> queue_inv q' \<and> look q i = None \<and>
      look q' = (look q)(i \<mapsto> \<lparr>tk_id = task, tk_state = OneshotTask\<rparr>) \<and> q_heap q' = Expiration at i # q_heap q"
    by (simp add: queue_add_def heap_push_def)
  obtain i ts where "slab_insert \<lparr>tk_id = task, tk_state = PeriodicTask period\<rparr> (q_tasks q) = (Ok i, ts)" "look q i = None"
    "slab_map ts = (look q)(i \<mapsto> \<lparr>tk_id = task, tk_state = PeriodicTask period\<rparr>)"
    "queue_inv (q\<lparr>q_tasks := ts, q_heap := heap_push (Expiration at i) (q_heap q)\<rparr>)"
    by (rule queue_insert_spec [OF assms]) auto
  then show "\<exists>i q'. queue_add_periodic at period task q = Some (i, q') \<and> queue_inv q' \<and> look q i = None \<and>
      look q' = (look q)(i \<mapsto> \<lparr>tk_id = task, tk_state = PeriodicTask period\<rparr>) \<and> q_heap q' = Expiration at i # q_heap q"
    by (simp add: queue_add_periodic_def heap_push_def)
qed

lemma queue_calls_inv: "queue_calls q q' \<Longrightarrow> queue_inv q \<Longrightarrow> queue_inv q'"
proof (induction rule: queue_calls.induct)
  case (calls_add q q1 at task i q2)
  from queue_add_inv(1) [OF calls_add.IH [OF calls_add.prems] calls_add.hyps(2), of at task] calls_add.hyps(3)
  show ?case by auto
next
  case (calls_add_periodic q q1 at period task i q2)
  from queue_add_inv(2) [OF calls_add_periodic.IH [OF calls_add_periodic.prems] calls_add_periodic.hyps(2), of at period task]
    calls_add_periodic.hyps(3)
  show ?case by auto
next
  case (calls_cancel q q1 i t b q2)
  from queue_cancel_inv [OF calls_cancel.IH [OF calls_cancel.prems] calls_cancel.hyps(2,3)] calls_cancel.hyps(4)
  show ?case by auto
qed

section \<open>One expiration\<close>

text \<open>A queue whose first expiration \<open>e\<close> has been taken out of the heap.\<close>

lemma queue_popped:
  assumes "queue_inv q" and "heap_pop tie (q_heap q) = Some (e, h)"
  obtains t where "look q (ex_task e) = Some t" and "tk_state t \<noteq> ExpiredTask"
    and "distinct (map ex_task h)" and "ex_task e \<notin> ex_task ` set h" and "ex_task ` set h = queued q - {ex_task e}"
    and "mset (q_heap q) = add_mset e (mset h)" and "\<forall>f\<in>set h. ex_at e \<le> ex_at f"
proof -
  note p = expiration_heap.pop_Some [OF assms(2)]
  have m: "mset (map ex_task (q_heap q)) = add_mset (ex_task e) (mset (map ex_task h))" by (simp add: p(1))
  have d: "distinct (ex_task e # map ex_task h)"
    using assms(1) m by (metis mset.simps(2) mset_eq_imp_distinct_iff queue_inv_def)
  have s: "set (q_heap q) = insert e (set h)" using p(1) by (metis mset.simps(2) set_mset_mset list.simps(15))
  then have "ex_task ` set (q_heap q) = insert (ex_task e) (ex_task ` set h)" by simp
  then have q: "insert (ex_task e) (ex_task ` set h) = queued q" using assms(1) by (simp add: queue_inv_def)
  then have "ex_task e \<in> queued q" by blast
  then obtain t where t: "look q (ex_task e) = Some t" "tk_state t \<noteq> ExpiredTask" by (auto simp: queued_def)
  have le: "\<forall>f\<in>set h. ex_at e \<le> ex_at f" using p(2) by (auto simp: less_eq_expiration_def)
  have e: "distinct (map ex_task h)" "ex_task e \<notin> ex_task ` set h" using d by simp_all
  then have "ex_task ` set h = queued q - {ex_task e}" using q by blast
  from that [OF t e this p(1) le] show thesis .
qed

text \<open>
  What a task may do when it runs: any calls; and the run of a periodic task leaves its timer and the
  place of the slab in memory alone.
\<close>

definition owner_calls :: "'x queue_env \<Rightarrow> bool" where
  "owner_calls env \<longleftrightarrow> (\<forall>t q x b q' x'. qe_run env t (q, x) = (b, q', x') \<longrightarrow> queue_calls q q')"

definition steady :: "'x queue_env \<Rightarrow> expiration \<Rightarrow> queue \<times> 'x \<Rightarrow> bool" where
  "steady env e qx \<longleftrightarrow>
     (\<forall>task dur b q' x'. look (fst qx) (ex_task e) = Some task \<longrightarrow> tk_state task = PeriodicTask dur \<longrightarrow>
        qe_run env (tk_id task) (set_task_state (ex_task e) task ExpiredTask (fst qx), snd qx) = (b, q', x') \<longrightarrow>
        objs_cap (q_tasks q') = objs_cap (q_tasks (fst qx)) \<and> look q' (ex_task e) = Some (task\<lparr>tk_state := ExpiredTask\<rparr>))"

lemma queue_fire_inv:
  assumes inv: "queue_inv q" and pop: "heap_pop tie (q_heap q) = Some (e, h)" and env: "owner_calls env"
    and st: "steady env e (q\<lparr>q_heap := h\<rparr>, x)"
  shows "\<exists>b q' x'. queue_fire env e (q\<lparr>q_heap := h\<rparr>, x) = Ok (b, q', x') \<and> (\<not> b \<longrightarrow> queue_inv q')"
proof -
  obtain task where t: "look q (ex_task e) = Some task" "tk_state task \<noteq> ExpiredTask"
    and h: "distinct (map ex_task h)" "ex_task e \<notin> ex_task ` set h" "ex_task ` set h = queued q - {ex_task e}"
    by (rule queue_popped [OF inv pop])
  let ?i = "ex_task e" and ?q = "q\<lparr>q_heap := h\<rparr>"
  have w: "slab_wf (q_tasks ?q)" and n: "look ?q ?i \<noteq> None" using inv t by (simp_all add: queue_inv_def)
  have g: "slab_get ?i (q_tasks ?q) = Some task" using t(1) by (simp add: slab_map_def)
  let ?q1 = "set_task_state ?i task ExpiredTask ?q"
  note s = look_set_task [OF w n, of task ExpiredTask]
  have "queued ?q1 = queued q - {?i}" using s(2) by (auto simp: queued_def)
  then have inv1: "queue_inv ?q1" using h s(1,3) by (simp add: queue_inv_def)
  obtain b q' x' where r: "qe_run env (tk_id task) (?q1, x) = (b, q', x')" by (metis prod_cases3)
  have inv': "queue_inv q'" using env r inv1 queue_calls_inv by (fastforce simp: owner_calls_def)
  show ?thesis
  proof (cases "tk_state task")
    case OneshotTask
    with r g inv' show ?thesis by (simp add: queue_fire_def Let_def)
  next
    case CancelledTask
    note k = look_remove_task [OF w, of ?i]
    have "queued (remove_task ?i ?q) = queued q - {?i}" using k(2) by (auto simp: queued_def)
    then have "queue_inv (remove_task ?i ?q)" using h k(1,3) by (simp add: queue_inv_def)
    with CancelledTask g show ?thesis by (intro exI [of _ False]) (simp add: queue_fire_def Let_def)
  next
    case ExpiredTask
    with t(2) show ?thesis by simp
  next
    case (PeriodicTask dur)
    show ?thesis
    proof (cases b)
      case True
      with r g PeriodicTask show ?thesis by (intro exI [of _ True]) (simp add: queue_fire_def Let_def)
    next
      case False
      have k: "objs_cap (q_tasks q') = objs_cap (q_tasks q)" "look q' ?i = Some (task\<lparr>tk_state := ExpiredTask\<rparr>)"
        using st r t(1) PeriodicTask by (auto simp: steady_def)
      have w': "slab_wf (q_tasks q')" and n': "look q' ?i \<noteq> None" using inv' k(2) by (simp_all add: queue_inv_def)
      note s' = look_set_task [OF w' n', of "task\<lparr>tk_state := ExpiredTask\<rparr>" "PeriodicTask dur"]
      let ?q2 = "set_task_state ?i (task\<lparr>tk_state := ExpiredTask\<rparr>) (PeriodicTask dur) q'"
      let ?q3 = "?q2\<lparr>q_heap := heap_push (Expiration (ex_at e + dur) ?i) (q_heap ?q2)\<rparr>"
      have "?i \<notin> queued q'" using k(2) by (simp add: queued_def)
      moreover have "queued ?q3 = insert ?i (queued q')" using s'(2) by (auto simp: queued_def)
      ultimately have "queue_inv ?q3" using inv' s'(1,3) by (auto simp: queue_inv_def heap_push_def)
      moreover have "slab_get ?i (q_tasks q') = Some (task\<lparr>tk_state := ExpiredTask\<rparr>)" using k(2) by (simp add: slab_map_def)
      ultimately show ?thesis using r g k(1) False PeriodicTask
        by (intro exI [of _ False]) (simp add: queue_fire_def Let_def)
    qed
  qed
qed

section \<open>Polls\<close>

text \<open>The states that the loop goes through.\<close>

inductive fires :: "'x queue_env \<Rightarrow> queue \<times> 'x \<Rightarrow> queue \<times> 'x \<Rightarrow> bool" for env where
  fires_refl: "fires env s s"
| fires_step: "heap_pop (qe_tie env) (q_heap q) = Some (e, h) \<Longrightarrow> qe_now env x = (now, x1) \<Longrightarrow> ex_at e \<le> now \<Longrightarrow>
    queue_fire env e (q\<lparr>q_heap := h\<rparr>, x1) = Ok (False, s1) \<Longrightarrow> fires env s1 s' \<Longrightarrow> fires env (q, x) s'"

definition stays_steady :: "'x queue_env \<Rightarrow> queue \<times> 'x \<Rightarrow> bool" where
  "stays_steady env s \<longleftrightarrow> (\<forall>q x e h. fires env s (q, x) \<longrightarrow> heap_pop (qe_tie env) (q_heap q) = Some (e, h) \<longrightarrow>
     steady env e (q\<lparr>q_heap := h\<rparr>, snd (qe_now env x)))"

text \<open>What is right after a poll that returned: nothing is due, and the wait ends with the next expiration.\<close>

definition poll_ok :: "(nat option option \<times> queue \<times> 'x, queue_fault) outcome \<Rightarrow> bool" where
  "poll_ok r \<longleftrightarrow> (case r of
     Ok (None, q, x) \<Rightarrow> True
   | Ok (Some None, q, x) \<Rightarrow> queue_inv q \<and> q_heap q = []
   | Ok (Some (Some d), q, x) \<Rightarrow> queue_inv q \<and> 0 < d \<and> (\<exists>now. Min (ex_at ` set (q_heap q)) = now + d)
   | _ \<Rightarrow> False)"

lemma heap_pop_Min:
  assumes "heap_pop tie h = Some (e, h')"
  shows "Min (ex_at ` set h) = ex_at e"
proof (rule Min_eqI)
  note p = expiration_heap.pop_Some [OF assms]
  have s: "set h = insert e (set h')" using p(1) by (metis set_mset_add_mset_insert set_mset_mset)
  show "ex_at e \<in> ex_at ` set h" by (simp add: s)
  show "\<And>y. y \<in> ex_at ` set h \<Longrightarrow> ex_at e \<le> y" using p(2) by (auto simp: s less_eq_expiration_def)
qed simp

lemma stays_steady_step:
  assumes "stays_steady env (q, x)" and "heap_pop (qe_tie env) (q_heap q) = Some (e, h)" and "qe_now env x = (now, x1)"
  shows "steady env e (q\<lparr>q_heap := h\<rparr>, x1)"
    and "ex_at e \<le> now \<Longrightarrow> queue_fire env e (q\<lparr>q_heap := h\<rparr>, x1) = Ok (False, s1) \<Longrightarrow> stays_steady env s1"
proof -
  show "steady env e (q\<lparr>q_heap := h\<rparr>, x1)" using assms fires_refl [of env "(q, x)"] by (fastforce simp: stays_steady_def)
  show "stays_steady env s1" if "ex_at e \<le> now" "queue_fire env e (q\<lparr>q_heap := h\<rparr>, x1) = Ok (False, s1)"
    using assms(1) fires_step [OF assms(2,3) that] unfolding stays_steady_def by blast
qed

lemma queue_poll_ok:
  "queue_poll env s = Some r \<Longrightarrow> owner_calls env \<longrightarrow> queue_inv (fst s) \<longrightarrow> stays_steady env s \<longrightarrow> poll_ok r"
proof (induction env s r rule: queue_poll.raw_induct [rotated 1, consumes 1, case_names step])
  case (step poll env s r)
  show ?case
  proof (intro impI)
    assume env: "owner_calls env" and inv: "queue_inv (fst s)" and st: "stays_steady env s"
    obtain q x where s: "s = (q, x)" by fastforce
    show "poll_ok r"
    proof (cases "heap_pop (qe_tie env) (q_heap q)")
      case None
      then have "q_heap q = []" using expiration_heap.pop_None by simp
      with step(2) None inv show ?thesis by (auto simp: s poll_ok_def)
    next
      case (Some eh)
      obtain e h where pop: "heap_pop (qe_tie env) (q_heap q) = Some (e, h)" using Some by (cases eh) simp
      obtain now x1 where now: "qe_now env x = (now, x1)" by fastforce
      show ?thesis
      proof (cases "ex_at e > now")
        case True
        then have "r = Ok (Some (Some (ex_at e - now)), q, x1)" using step(2) by (simp add: s pop now)
        with True inv heap_pop_Min [OF pop] show ?thesis by (auto simp: s poll_ok_def intro!: exI [of _ now])
      next
        case False
        have inv': "queue_inv q" using inv by (simp add: s)
        obtain b q1 x2 where f: "queue_fire env e (q\<lparr>q_heap := h\<rparr>, x1) = Ok (b, q1, x2)" "\<not> b \<longrightarrow> queue_inv q1"
          using queue_fire_inv [OF inv' pop env stays_steady_step(1) [OF st [unfolded s] pop now]] by blast
        show ?thesis
        proof (cases b)
          case True
          with step(2) False f(1) show ?thesis by (auto simp: s pop now poll_ok_def)
        next
          case nb: False
          have "poll env (q1, x2) = Some r" using step(2) False f(1) nb by (simp add: s pop now)
          then have "owner_calls env \<longrightarrow> queue_inv (fst (q1, x2)) \<longrightarrow> stays_steady env (q1, x2) \<longrightarrow> poll_ok r"
            by (rule step(1))
          with env f(2) nb stays_steady_step(2) [OF st [unfolded s] pop now _ f(1) [simplified nb]] False
          show ?thesis by simp
        qed
      qed
    qed
  qed
qed

section \<open>What a poll runs\<close>

text \<open>The times up to \<open>T\<close> at which a timer first due at \<open>at\<close> fires every \<open>p\<close>.\<close>

definition fire_times :: "nat \<Rightarrow> nat \<Rightarrow> nat \<Rightarrow> nat list" where
  "fire_times T p at = (if at \<le> T then map (\<lambda>k. at + k * p) [0..<Suc ((T - at) div p)] else [])"

text \<open>
  What an expiration runs up to \<open>T\<close>, the task with the time it was due; what is in the heap for it
  afterwards; and what becomes of the tasks. \<open>m\<close> are the tasks before.
\<close>

definition firings :: "nat \<Rightarrow> (nat \<Rightarrow> timer_task option) \<Rightarrow> expiration \<Rightarrow> (nat \<times> nat) list" where
  "firings T m e = (case m (ex_task e) of
     None \<Rightarrow> []
   | Some t \<Rightarrow> (case tk_state t of
       OneshotTask \<Rightarrow> if ex_at e \<le> T then [(ex_at e, tk_id t)] else []
     | PeriodicTask p \<Rightarrow> map (\<lambda>at. (at, tk_id t)) (fire_times T p (ex_at e))
     | _ \<Rightarrow> []))"

definition pending :: "nat \<Rightarrow> (nat \<Rightarrow> timer_task option) \<Rightarrow> expiration \<Rightarrow> expiration list" where
  "pending T m e = (case m (ex_task e) of
     None \<Rightarrow> []
   | Some t \<Rightarrow> (case tk_state t of
       PeriodicTask p \<Rightarrow> [Expiration (ex_at e + length (fire_times T p (ex_at e)) * p) (ex_task e)]
     | _ \<Rightarrow> if ex_at e \<le> T then [] else [e]))"

definition settled :: "nat \<Rightarrow> expiration list \<Rightarrow> (nat \<Rightarrow> timer_task option) \<Rightarrow> nat \<Rightarrow> timer_task option" where
  "settled T h m i = (case m i of
     None \<Rightarrow> None
   | Some t \<Rightarrow>
       if list_ex (\<lambda>e. ex_task e = i \<and> ex_at e \<le> T) h then
         (case tk_state t of
            OneshotTask \<Rightarrow> Some (t\<lparr>tk_state := ExpiredTask\<rparr>)
          | CancelledTask \<Rightarrow> None
          | _ \<Rightarrow> Some t)
       else Some t)"

lemma fire_times_step:
  assumes "at \<le> T" and "0 < p"
  shows "fire_times T p at = at # fire_times T p (at + p)"
proof (cases "at + p \<le> T")
  case True
  then have "(T - at) div p = Suc ((T - (at + p)) div p)" using assms(2) by (simp add: le_div_geq diff_diff_left)
  moreover have "[0..<Suc (Suc n)] = 0 # map Suc [0..<Suc n]" for n by (simp add: map_Suc_upt upt_conv_Cons del: upt_Suc)
  ultimately show ?thesis using assms True by (simp add: fire_times_def o_def add.assoc del: upt_Suc)
next
  case False
  then have "(T - at) div p = 0" using assms(1) by (intro div_less) linarith
  with False assms show ?thesis by (simp add: fire_times_def)
qed

lemma fire_times_late: "T < at \<Longrightarrow> fire_times T p at = []"
  by (simp add: fire_times_def)

lemma firings_ge: "(a, t) \<in> set (firings T m e) \<Longrightarrow> ex_at e \<le> a"
  unfolding firings_def fire_times_def
  by (cases "m (ex_task e)"; cases "tk_state (the (m (ex_task e)))") (auto simp del: upt_Suc split: if_splits)

lemma not_due:
  assumes "T < ex_at e" and "m (ex_task e) \<noteq> None"
  shows "firings T m e = []" and "pending T m e = [e]"
  using assms by (auto simp: firings_def pending_def fire_times_late split: option.splits task_state.splits)

lemma firings_cong: "m (ex_task e) = m' (ex_task e) \<Longrightarrow> firings T m e = firings T m' e"
  "m (ex_task e) = m' (ex_task e) \<Longrightarrow> pending T m e = pending T m' e"
  by (simp_all add: firings_def pending_def)

text \<open>Tasks that leave the queue alone, and do not end the event loop; the clock stands still.\<close>

definition quiet_tasks :: "'x queue_env \<Rightarrow> nat \<Rightarrow> (nat \<Rightarrow> 'x \<Rightarrow> 'x) \<Rightarrow> bool" where
  "quiet_tasks env T f \<longleftrightarrow> (\<forall>x. qe_now env x = (T, x)) \<and> (\<forall>t q x. qe_run env t (q, x) = (False, q, f t x))"

lemma quiet_owner: "quiet_tasks env T f \<Longrightarrow> owner_calls env"
  by (auto simp: quiet_tasks_def owner_calls_def intro: calls_refl)

lemma quiet_steady:
  assumes "quiet_tasks env T f" and "slab_wf (q_tasks q)"
  shows "steady env e (q, x)"
  using assms look_set_task [OF assms(2), of "ex_task e"] by (auto simp: quiet_tasks_def steady_def)

lemma settled_eqI:
  assumes "\<And>j. j \<noteq> i \<Longrightarrow> m' j = m j"
    and "\<And>j. j \<noteq> i \<Longrightarrow> list_ex (\<lambda>e. ex_task e = j \<and> ex_at e \<le> T) h' = list_ex (\<lambda>e. ex_task e = j \<and> ex_at e \<le> T) h"
    and "settled T h' m' i = settled T h m i"
  shows "settled T h' m' = settled T h m"
proof
  fix j
  show "settled T h' m' j = settled T h m j"
    using assms(3) assms(1,2) [of j] by (cases "j = i") (simp_all only: settled_def not_False_eq_True)
qed

lemma concat_singletons: "concat (map (\<lambda>x. [x]) xs) = xs"
  by (induction xs) simp_all

lemma mset_concat_map: "mset (concat (map g xs)) = sum_mset (image_mset (\<lambda>x. mset (g x)) (mset xs))"
  by (induction xs) simp_all

lemma mset_concat_add:
  "mset xs = add_mset e (mset h) \<Longrightarrow> mset (concat (map g xs)) = mset (g e) + mset (concat (map g h))"
  by (simp add: mset_concat_map)

text \<open>Firing one expiration that is due takes one entry off what is to be run.\<close>

lemma quiet_fire:
  assumes inv: "queue_inv q" and pop: "heap_pop tie (q_heap q) = Some (e, h)" and env: "quiet_tasks env T f"
    and due: "ex_at e \<le> T" and p: "\<forall>i t. look q i = Some t \<longrightarrow> tk_state t \<noteq> PeriodicTask 0"
  obtains q1 run rest where "queue_fire env e (q\<lparr>q_heap := h\<rparr>, x) = Ok (False, q1, fold (f \<circ> snd) run x)" and "queue_inv q1"
    and "q_heap q1 = rest @ h" and "firings T (look q) e = run @ concat (map (firings T (look q1)) rest)"
    and "pending T (look q) e = concat (map (pending T (look q1)) rest)"
    and "run = [] \<or> (\<exists>t. run = [(ex_at e, t)])" and "rest = [] \<or> (\<exists>a>ex_at e. rest = [Expiration a (ex_task e)])"
    and "\<forall>i. i \<noteq> ex_task e \<longrightarrow> look q1 i = look q i" and "settled T (q_heap q1) (look q1) = settled T (q_heap q) (look q)"
    and "\<forall>i t. look q1 i = Some t \<longrightarrow> tk_state t \<noteq> PeriodicTask 0"
proof -
  obtain task where t: "look q (ex_task e) = Some task" "tk_state task \<noteq> ExpiredTask"
    and h: "ex_task e \<notin> ex_task ` set h" "mset (q_heap q) = add_mset e (mset h)"
    by (rule queue_popped [OF inv pop])
  let ?i = "ex_task e" and ?q = "q\<lparr>q_heap := h\<rparr>"
  have w: "slab_wf (q_tasks ?q)" and n: "look ?q ?i \<noteq> None" using inv t by (simp_all add: queue_inv_def)
  have g: "slab_get ?i (q_tasks ?q) = Some task" using t(1) by (simp add: slab_map_def)
  have hs: "set (q_heap q) = insert e (set h)" using h(2) by (metis set_mset_add_mset_insert set_mset_mset)
  have owner: "owner_calls env" and steady: "steady env e (?q, x)"
    using quiet_owner [OF env] quiet_steady [OF env w] by simp_all
  have run: "qe_run env t (q1, x) = (False, q1, f t x)" for t q1 x using env by (simp add: quiet_tasks_def)
  note s = look_set_task [OF w n, of task ExpiredTask]
  have inv1: "queue_inv q1" if "queue_fire env e (?q, x) = Ok (False, q1, x1)" for q1 x1
    using queue_fire_inv [OF inv pop owner steady] that by auto
  have due_i: "list_ex (\<lambda>e. ex_task e = ?i \<and> ex_at e \<le> T) (q_heap q)" using due hs by (auto simp: list_ex_iff)
  have due_h: "list_ex (\<lambda>e. ex_task e = j \<and> ex_at e \<le> T) h = list_ex (\<lambda>e. ex_task e = j \<and> ex_at e \<le> T) (q_heap q)"
    if "j \<noteq> ?i" for j using that hs by (auto simp: list_ex_iff)
  have no_i: "\<not> list_ex (\<lambda>e. ex_task e = ?i \<and> ex_at e \<le> T) h" using h(1) unfolding list_ex_iff by (metis image_eqI)
  show thesis
  proof (cases "tk_state task")
    case OneshotTask
    let ?q1 = "set_task_state ?i task ExpiredTask ?q"
    have f: "queue_fire env e (?q, x) = Ok (False, ?q1, f (tk_id task) x)"
      using g OneshotTask by (simp add: queue_fire_def run)
    have "settled T (q_heap ?q1) (look ?q1) = settled T (q_heap q) (look q)"
      by (rule settled_eqI [where i = ?i]) (use s t(1) OneshotTask due_i due_h no_i in \<open>simp_all add: settled_def\<close>)
    moreover have "firings T (look q) e = [(ex_at e, tk_id task)]" "pending T (look q) e = []"
      using t(1) due OneshotTask by (simp_all add: firings_def pending_def)
    moreover have "\<forall>i t. look ?q1 i = Some t \<longrightarrow> tk_state t \<noteq> PeriodicTask 0" using s(2) p by auto
    ultimately show thesis using f inv1 [OF f] s
      by (intro that [of ?q1 "[(ex_at e, tk_id task)]" "[]"]) simp_all
  next
    case CancelledTask
    let ?q1 = "remove_task ?i ?q"
    note k = look_remove_task [OF w, of ?i]
    have f: "queue_fire env e (?q, x) = Ok (False, ?q1, x)" using g CancelledTask by (simp add: queue_fire_def)
    have "settled T (q_heap ?q1) (look ?q1) = settled T (q_heap q) (look q)"
      by (rule settled_eqI [where i = ?i]) (use k t(1) CancelledTask due_i due_h no_i in \<open>simp_all add: settled_def\<close>)
    moreover have "firings T (look q) e = []" "pending T (look q) e = []"
      using t(1) due CancelledTask by (simp_all add: firings_def pending_def)
    moreover have "\<forall>i t. look ?q1 i = Some t \<longrightarrow> tk_state t \<noteq> PeriodicTask 0" using k(2) p by auto
    ultimately show thesis using f inv1 [OF f] k by (intro that [of ?q1 "[]" "[]"]) simp_all
  next
    case ExpiredTask
    with t(2) show thesis by simp
  next
    case (PeriodicTask d)
    then have d: "0 < d" using p t(1) by (cases d) auto
    let ?x = "set_task_state ?i task ExpiredTask ?q"
    have w': "slab_wf (q_tasks ?x)" and n': "look ?x ?i \<noteq> None" using s by simp_all
    note s' = look_set_task [OF w' n', of "task\<lparr>tk_state := ExpiredTask\<rparr>" "PeriodicTask d"]
    let ?new = "Expiration (ex_at e + d) ?i"
    let ?q2 = "set_task_state ?i (task\<lparr>tk_state := ExpiredTask\<rparr>) (PeriodicTask d) ?x"
    let ?q1 = "?q2\<lparr>q_heap := heap_push ?new (q_heap ?q2)\<rparr>"
    have "slab_get ?i (q_tasks ?x) = Some (task\<lparr>tk_state := ExpiredTask\<rparr>)" using s(2) by (simp add: slab_map_def fun_eq_iff)
    then have f: "queue_fire env e (?q, x) = Ok (False, ?q1, f (tk_id task) x)"
      using g PeriodicTask s(4) by (simp add: queue_fire_def run Let_def)
    have m: "look ?q1 = look q" using s'(2) s(2) t(1) PeriodicTask by (auto simp: fun_eq_iff)
    have heap: "q_heap ?q1 = [?new] @ h" using s'(3) s(3) by (simp add: heap_push_def)
    have "settled T (q_heap ?q1) (look ?q1) = settled T (q_heap q) (look q)"
      unfolding heap m by (rule settled_eqI [where i = ?i]) (use t(1) PeriodicTask due_h in \<open>simp_all add: settled_def\<close>)
    moreover have "firings T (look q) e = [(ex_at e, tk_id task)] @ concat (map (firings T (look ?q1)) [?new])"
      "pending T (look q) e = concat (map (pending T (look ?q1)) [?new])"
      unfolding m using t(1) due PeriodicTask d by (simp_all add: firings_def pending_def fire_times_step)
    moreover have "\<exists>a>ex_at e. [?new] = [Expiration a ?i]" using d by auto
    moreover have "fold (f \<circ> snd) [(ex_at e, tk_id task)] x = f (tk_id task) x" by simp
    moreover have "\<forall>i t. look ?q1 i = Some t \<longrightarrow> tk_state t \<noteq> PeriodicTask 0" unfolding m by (rule p)
    ultimately show thesis using f inv1 [OF f] heap m
      by (intro that [of ?q1 "[(ex_at e, tk_id task)]" "[?new]"]) simp_all
  qed
qed

text \<open>The wait that a poll returns, for what is left in the heap.\<close>

definition wait_for :: "nat \<Rightarrow> expiration list \<Rightarrow> nat option option" where
  "wait_for T h = (if h = [] then Some None else Some (Some (Min (ex_at ` set h) - T)))"

lemma quiet_poll:
  assumes "queue_inv q" and "quiet_tasks env T f" and "\<forall>i t. look q i = Some t \<longrightarrow> tk_state t \<noteq> PeriodicTask 0"
  shows "\<exists>runs q'. queue_poll env (q, x) = Some (Ok (wait_for T (q_heap q'), q', fold (f \<circ> snd) runs x)) \<and> queue_inv q' \<and>
    sorted (map fst runs) \<and> mset runs = mset (concat (map (firings T (look q)) (q_heap q))) \<and>
    mset (q_heap q') = mset (concat (map (pending T (look q)) (q_heap q))) \<and>
    look q' = settled T (q_heap q) (look q) \<and> (\<forall>e\<in>set (q_heap q'). T < ex_at e)"
  using assms(1,3)
proof (induction "sum_mset (image_mset (\<lambda>e. Suc T - ex_at e) (mset (q_heap q)))" arbitrary: q x rule: less_induct)
  case less
  note inv = less.prems(1) and p = less.prems(2)
  have now: "qe_now env x = (T, x)" for x using assms(2) by (simp add: quiet_tasks_def)
  show ?case
  proof (cases "heap_pop (qe_tie env) (q_heap q)")
    case None
    then have h: "q_heap q = []" using expiration_heap.pop_None by simp
    have "queue_poll env (q, x) = Some (Ok (Some None, q, x))" by (subst queue_poll.simps) (simp add: None)
    moreover have "settled T [] (look q) = look q" by (intro ext) (simp add: settled_def split: option.split)
    ultimately show ?thesis using inv h by (intro exI [of _ "[]"] exI [of _ q]) (simp add: wait_for_def)
  next
    case (Some eh)
    obtain e h where pop: "heap_pop (qe_tie env) (q_heap q) = Some (e, h)" using Some by (cases eh) simp
    obtain t0 where h: "ex_task e \<notin> ex_task ` set h" "ex_task ` set h = queued q - {ex_task e}"
      "mset (q_heap q) = add_mset e (mset h)" "\<forall>f\<in>set h. ex_at e \<le> ex_at f"
      by (rule queue_popped [OF inv pop])
    have hs: "set (q_heap q) = insert e (set h)" using h(3) by (metis set_mset_add_mset_insert set_mset_mset)
    have known: "look q (ex_task f) \<noteq> None" if "f \<in> set (q_heap q)" for f
    proof -
      have "ex_task f \<in> queued q" using inv that by (auto simp: queue_inv_def)
      then show ?thesis by (auto simp: queued_def)
    qed
    show ?thesis
    proof (cases "T < ex_at e")
      case True
      have late: "T < ex_at f" if "f \<in> set (q_heap q)" for f using that True h(4) hs by fastforce
      have "concat (map (firings T (look q)) (q_heap q)) = []" using late not_due(1) known by auto
      moreover have "map (pending T (look q)) (q_heap q) = map (\<lambda>e. [e]) (q_heap q)"
        using late not_due(2) known by (auto intro!: map_cong)
      then have "concat (map (pending T (look q)) (q_heap q)) = q_heap q" by (simp only: concat_singletons)
      moreover have "settled T (q_heap q) (look q) = look q"
      proof -
        have "\<not> list_ex (\<lambda>e. ex_task e = i \<and> ex_at e \<le> T) (q_heap q)" for i
          using late by (fastforce simp: list_ex_iff)
        then show ?thesis by (intro ext) (simp add: settled_def split: option.split)
      qed
      moreover have "q_heap q \<noteq> []" using hs by auto
      then have "queue_poll env (q, x) = Some (Ok (wait_for T (q_heap q), q, x))"
        using True by (subst queue_poll.simps) (simp add: pop now wait_for_def heap_pop_Min [OF pop])
      ultimately show ?thesis using inv late by (intro exI [of _ "[]"] exI [of _ q]) simp
    next
      case False
      then have due: "ex_at e \<le> T" by simp
      obtain q1 run rest where q1: "queue_fire env e (q\<lparr>q_heap := h\<rparr>, x) = Ok (False, q1, fold (f \<circ> snd) run x)" "queue_inv q1"
        "q_heap q1 = rest @ h" "firings T (look q) e = run @ concat (map (firings T (look q1)) rest)"
        "pending T (look q) e = concat (map (pending T (look q1)) rest)"
        "run = [] \<or> (\<exists>t. run = [(ex_at e, t)])" "rest = [] \<or> (\<exists>a>ex_at e. rest = [Expiration a (ex_task e)])"
        "\<forall>i. i \<noteq> ex_task e \<longrightarrow> look q1 i = look q i" "settled T (q_heap q1) (look q1) = settled T (q_heap q) (look q)"
        "\<forall>i t. look q1 i = Some t \<longrightarrow> tk_state t \<noteq> PeriodicTask 0"
        by (rule quiet_fire [OF inv pop assms(2) due p])
      let ?x = "fold (f \<circ> snd) run x"
      have "sum_mset (image_mset (\<lambda>e. Suc T - ex_at e) (mset (q_heap q1))) <
          sum_mset (image_mset (\<lambda>e. Suc T - ex_at e) (mset (q_heap q)))"
        using q1(3,7) h(3) due by auto
      from less.hyps [OF this q1(2,10), of ?x] obtain runs q' where
        r: "queue_poll env (q1, ?x) = Some (Ok (wait_for T (q_heap q'), q', fold (f \<circ> snd) runs ?x))" "queue_inv q'"
          "sorted (map fst runs)" "mset runs = mset (concat (map (firings T (look q1)) (q_heap q1)))"
          "mset (q_heap q') = mset (concat (map (pending T (look q1)) (q_heap q1)))"
          "look q' = settled T (q_heap q1) (look q1)" "\<forall>e\<in>set (q_heap q'). T < ex_at e"
        by blast
      have same: "map (firings T (look q1)) h = map (firings T (look q)) h" "map (pending T (look q1)) h = map (pending T (look q)) h"
      proof -
        have "look q1 (ex_task f) = look q (ex_task f)" if "f \<in> set h" for f
          using q1(8) h(1) that by (metis image_eqI)
        then show "map (firings T (look q1)) h = map (firings T (look q)) h" "map (pending T (look q1)) h = map (pending T (look q)) h"
          by (auto intro!: map_cong firings_cong)
      qed
      note all = mset_concat_add [OF h(3)]
      have "mset (run @ runs) = mset (concat (map (firings T (look q)) (q_heap q)))"
        by (simp add: all r(4) q1(3,4) same(1))
      moreover have "mset (q_heap q') = mset (concat (map (pending T (look q)) (q_heap q)))"
        by (simp add: all r(5) q1(3,5) same(2))
      moreover have "ex_at e \<le> a" if "(a, t) \<in> set runs" for a t
      proof -
        have "(a, t) \<in> set (concat (map (firings T (look q1)) (q_heap q1)))" using that r(4) by (metis set_mset_mset)
        then obtain e' where "e' \<in> set (q_heap q1)" "(a, t) \<in> set (firings T (look q1) e')" by auto
        moreover from this(1) have "ex_at e \<le> ex_at e'" using q1(3,7) h(4) by auto
        ultimately show ?thesis using firings_ge by fastforce
      qed
      then have "sorted (map fst (run @ runs))" using q1(6) r(3) by (auto simp: sorted_append)
      moreover have "queue_poll env (q, x) = Some (Ok (wait_for T (q_heap q'), q', fold (f \<circ> snd) (run @ runs) x))"
        using False r(1) by (subst queue_poll.simps) (simp add: pop now q1(1))
      ultimately show ?thesis using r(2,6,7) q1(9) by (intro exI [of _ "run @ runs"] exI [of _ q']) simp
    qed
  qed
qed

section \<open>Properties\<close>


text \<open>A queue with a timer due at 4, one every 3 from 2 on, and one due at 20.\<close>

definition three_timers :: queue where
  "three_timers = \<lparr>q_tasks = \<lparr>objs = [Used \<lparr>tk_id = 7, tk_state = OneshotTask\<rparr>, Used \<lparr>tk_id = 8, tk_state = PeriodicTask 3\<rparr>,
       Used \<lparr>tk_id = 9, tk_state = OneshotTask\<rparr>], objs_cap = 4, slab_len = 3, hfree = INVALID_INDEX\<rparr>,
     q_heap = [Expiration 20 2, Expiration 2 1, Expiration 4 0]\<rparr>"

definition log_tasks :: "nat \<Rightarrow> nat list queue_env" where
  "log_tasks T = \<lparr>qe_now = (\<lambda>x. (T, x)), qe_tie = (\<lambda>h. 0), qe_run = (\<lambda>t (q, x). (False, q, x @ [t]))\<rparr>"

lemma lt_Suc3: "i < Suc (Suc (Suc 0)) \<longleftrightarrow> i = 0 \<or> i = Suc 0 \<or> i = Suc (Suc 0)"
  by auto

lemma full_slab_wf:
  assumes "objs s = map Used xs" and "slab_len s = length xs" and "hfree s = INVALID_INDEX" and "length xs \<le> INVALID_INDEX"
  shows "slab_wf s"
proof -
  have "used_at (map Used xs) = {..<length xs}" "free_at (map Used xs) = {}" by (auto simp: used_at_def free_at_def)
  with assms show ?thesis by (intro slab_wfI [where fl = "[]"]) simp_all
qed

lemma three_timers_inv: "queue_inv three_timers"
proof -
  have g: "look three_timers i = (if i = 0 then Some \<lparr>tk_id = 7, tk_state = OneshotTask\<rparr>
      else if i = 1 then Some \<lparr>tk_id = 8, tk_state = PeriodicTask 3\<rparr>
      else if i = 2 then Some \<lparr>tk_id = 9, tk_state = OneshotTask\<rparr> else None)" for i
    by (auto simp: slab_map_def slab_get_def three_timers_def lt_Suc3 numeral_2_eq_2)
  then have "queued three_timers = {0, 1, 2}" by (auto simp: queued_def split: if_splits)
  moreover have "slab_wf (q_tasks three_timers)"
    by (rule full_slab_wf [where xs = "[\<lparr>tk_id = 7, tk_state = OneshotTask\<rparr>, \<lparr>tk_id = 8, tk_state = PeriodicTask 3\<rparr>,
        \<lparr>tk_id = 9, tk_state = OneshotTask\<rparr>]"]) (simp_all add: three_timers_def INVALID_INDEX_def usize_max_def)
  ultimately show ?thesis by (auto simp: queue_inv_def three_timers_def)
qed


text \<open>
  C26. When the tasks leave the queue alone, a poll at the time \<open>T\<close> returns, provided that no timer has
  period 0. It runs the task of each one-shot timer that is due once and that of a periodic one for every
  multiple of its period up to \<open>T\<close>, late ones included, all in the order of the times they were due;
  timers that were cancelled run nothing. What is left is due after \<open>T\<close>, and the poll returns how long
  that takes.
\<close>

theorem timer_queue_runs:
  assumes "queue_inv q" and "\<forall>x. qe_now env x = (T, x)" and "\<forall>t q x. qe_run env t (q, x) = (False, q, f t x)"
    and "\<forall>i t. look q i = Some t \<longrightarrow> tk_state t \<noteq> PeriodicTask 0"
  shows "\<exists>runs q'. queue_poll env (q, x) = Some (Ok (wait_for T (q_heap q'), q', fold (f \<circ> snd) runs x)) \<and> queue_inv q' \<and>
    sorted (map fst runs) \<and> mset runs = mset (concat (map (firings T (look q)) (q_heap q))) \<and>
    mset (q_heap q') = mset (concat (map (pending T (look q)) (q_heap q))) \<and>
    look q' = settled T (q_heap q) (look q) \<and> (\<forall>e\<in>set (q_heap q'). T < ex_at e)"
  using assms by (intro quiet_poll) (simp_all add: quiet_tasks_def)

text \<open>Sorted lists with the same elements, no two of them alike, are equal.\<close>

lemma sorted_runs_unique:
  assumes "sorted (map fst xs)" and "sorted (map fst ys)" and "mset xs = mset ys" and "distinct (map fst ys)"
  shows "xs = ys"
proof -
  have "mset (map fst xs) = mset (map fst ys)" using assms(3) by simp
  then have "map fst xs = map fst ys" using assms(1,2) by (metis properties_for_sort)
  moreover have "inj_on fst (set xs \<union> set ys)" using assms(3,4) by (metis distinct_map set_mset_mset sup.idem)
  ultimately show ?thesis by (rule map_inj_on)
qed

theorem timer_queue_runs_witness:
  "\<exists>q'. queue_poll (log_tasks 8) (three_timers, []) = Some (Ok (Some (Some 3), q', [8, 7, 8, 8]))"
proof -
  have k: "look three_timers 0 = Some \<lparr>tk_id = 7, tk_state = OneshotTask\<rparr>"
    "look three_timers 1 = Some \<lparr>tk_id = 8, tk_state = PeriodicTask 3\<rparr>"
    "look three_timers 2 = Some \<lparr>tk_id = 9, tk_state = OneshotTask\<rparr>"
    by (simp_all add: three_timers_def slab_map_def slab_get_def)
  have p: "\<forall>i t. look three_timers i = Some t \<longrightarrow> tk_state t \<noteq> PeriodicTask 0"
    by (auto simp: three_timers_def slab_map_def slab_get_def lt_Suc3 split: if_splits)
  have h: "q_heap three_timers = [Expiration 20 2, Expiration 2 1, Expiration 4 0]" by (simp add: three_timers_def)
  have t: "fire_times 8 3 2 = [2, 5, 8]" by (simp add: fire_times_def upt_rec)
  obtain runs q' where r: "queue_poll (log_tasks 8) (three_timers, []) =
      Some (Ok (wait_for 8 (q_heap q'), q', fold ((\<lambda>t x. x @ [t]) \<circ> snd) runs []))" "sorted (map fst runs)"
    "mset runs = mset (concat (map (firings 8 (look three_timers)) (q_heap three_timers)))"
    "mset (q_heap q') = mset (concat (map (pending 8 (look three_timers)) (q_heap three_timers)))"
    using timer_queue_runs [OF three_timers_inv _ _ p, of "log_tasks 8" 8 "\<lambda>t x. x @ [t]" "[]"] by (auto simp: log_tasks_def)
  have "mset runs = mset [(2, 8), (4, 7), (5, 8), (8, 8)]" using r(3) by (simp add: h firings_def k k(2) [unfolded One_nat_def] t)
  then have runs: "runs = [(2, 8), (4, 7), (5, 8), (8, 8)]" by (intro sorted_runs_unique [OF r(2)]) simp_all
  have "mset (q_heap q') = mset [Expiration 20 2, Expiration 11 1]" using r(4) by (simp add: h pending_def k k(2) [unfolded One_nat_def] t)
  then have "set (q_heap q') = {Expiration 20 2, Expiration 11 1}" "q_heap q' \<noteq> []" by (metis list.simps(15) empty_set set_mset_mset, auto)
  then have "wait_for 8 (q_heap q') = Some (Some 3)" by (simp add: wait_for_def)
  with r(1) show ?thesis by (simp add: runs)
qed



section \<open>Faults\<close>

text \<open>Tasks that drop timer 1 when they run, and tasks that start two timers.\<close>

definition dropping :: "unit queue_env" where
  "dropping = \<lparr>qe_now = (\<lambda>x. (2, x)), qe_tie = (\<lambda>h. 0),
     qe_run = (\<lambda>t (q, x). (False, case queue_cancel 1 q of Some (b, q') \<Rightarrow> q' | None \<Rightarrow> q, x))\<rparr>"

definition starting :: "unit queue_env" where
  "starting = \<lparr>qe_now = (\<lambda>x. (2, x)), qe_tie = (\<lambda>h. 0),
     qe_run = (\<lambda>t (q, x). (False, case queue_add 100 t q of Some (i, q1) \<Rightarrow>
       (case queue_add 100 t q1 of Some (i, q2) \<Rightarrow> q2 | None \<Rightarrow> q1) | None \<Rightarrow> q, x))\<rparr>"

definition no_period :: queue where
  "no_period = \<lparr>q_tasks = \<lparr>objs = [Used \<lparr>tk_id = 7, tk_state = PeriodicTask 0\<rparr>], objs_cap = 4, slab_len = 1,
     hfree = INVALID_INDEX\<rparr>, q_heap = [Expiration 2 0]\<rparr>"

lemma no_period_loops: "queue_poll env s = Some r \<Longrightarrow> env = log_tasks 8 \<longrightarrow> (\<exists>x. s = (no_period, x)) \<longrightarrow> False"
proof (induction env s r rule: queue_poll.raw_induct [rotated 1, consumes 1, case_names step])
  case (step poll env s r)
  show ?case
  proof (intro impI)
    assume env: "env = log_tasks 8" and "\<exists>x. s = (no_period, x)"
    then obtain x where s: "s = (no_period, x)" by blast
    have "poll (log_tasks 8) (no_period, x @ [7]) = Some r"
      using step(2) by (simp add: s env log_tasks_def no_period_def heap_pop_def heap_peek_def greatest_def queue_fire_def
        slab_get_def slab_set_def set_task_state_def heap_push_def)
    with step(1) [of "log_tasks 8" "(no_period, x @ [7])" r] show False by blast
  qed
qed

lemma queue_faults:
  "queue_poll dropping (three_timers, ()) = Some (Err Dangling) \<and>
   queue_poll starting (three_timers, ()) = Some (Err Dangling) \<and>
   queue_poll (log_tasks 8) (no_period, []) = None"
proof (intro conjI)
  have pop: "heap_pop (\<lambda>h. 0) (q_heap three_timers) = Some (Expiration 2 1, [Expiration 20 2, Expiration 4 0])"
    by (simp add: three_timers_def heap_pop_def heap_peek_def greatest_def less_eq_expiration_def)
  note eval = three_timers_def queue_fire_def slab_get_def slab_set_def set_task_state_def queue_cancel_def remove_task_def
    slab_remove_def queue_add_def slab_insert_def vec_reserve_def Let_def
  have "queue_fire dropping (Expiration 2 1) (three_timers\<lparr>q_heap := [Expiration 20 2, Expiration 4 0]\<rparr>, ()) = Err Dangling"
    by (simp add: dropping_def eval)
  then show "queue_poll dropping (three_timers, ()) = Some (Err Dangling)"
    by (subst queue_poll.simps) (simp add: dropping_def pop)
  have "queue_fire starting (Expiration 2 1) (three_timers\<lparr>q_heap := [Expiration 20 2, Expiration 4 0]\<rparr>, ()) = Err Dangling"
    by (simp add: starting_def eval)
  then show "queue_poll starting (three_timers, ()) = Some (Err Dangling)"
    by (subst queue_poll.simps) (simp add: starting_def pop)
  show "queue_poll (log_tasks 8) (no_period, []) = None"
    using no_period_loops by (cases "queue_poll (log_tasks 8) (no_period, [])") blast+
qed

end
