(* ===== verification/Event_Loop_Correct.thy ===== *)
theory Event_Loop_Correct
  imports Event_Loop Timer_Queue_Correct
begin

text \<open>
  The event loop runs until its main task is finished and its gates are left; a socket wakes the task
  that scheduled it; and what goes wrong when tasks end between the events of a batch.
\<close>

section \<open>The main task\<close>

abbreviation main_pending :: "('f, 'a, 'e, 'x) eloop \<Rightarrow> bool" where
  "main_pending l \<equiv> tr_main (el_runner l)"

text \<open>The runner has a main task as long as its future is there and has no result.\<close>

definition main_ok :: "('f, 'a, 'e, 'x) eloop \<Rightarrow> bool" where
  "main_ok l \<longleftrightarrow> mt_inner (el_main l) = main_pending l \<and> (mt_ret (el_main l) = None) = main_pending l"

text \<open>Polling a future does not meddle with the main task, nor does the main future end the main task itself.\<close>

definition disciplined :: "('f, 'a, 'e, 'x) futures \<Rightarrow> bool" where
  "disciplined fs \<longleftrightarrow> (\<forall>f l r l'. fu_poll fs f l = (r, l') \<longrightarrow> main_ok l \<longrightarrow> main_ok l') \<and>
     (\<forall>l r l'. fu_main fs l = (r, l') \<longrightarrow> main_ok l \<longrightarrow> main_pending l \<longrightarrow> main_ok l' \<and> main_pending l')"

text \<open>The loop goes on while the main task is not finished or a gate is open.\<close>

definition alive :: "('f, 'a, 'e, 'x) eloop \<Rightarrow> bool" where
  "alive l \<longleftrightarrow> main_pending l \<or> has_gate l"

definition exit_ok :: "bool \<Rightarrow> ('f, 'a, 'e, 'x) eloop \<Rightarrow> bool" where
  "exit_ok exit l \<longleftrightarrow> main_ok l \<and> exit = (\<not> alive l)"

lemma set_runner_simps [simp]:
  "el_runner (set_runner g l) = g (el_runner l)" "el_main (set_runner g l) = el_main l"
  "el_queue (set_runner g l) = el_queue l" "el_world (set_runner g l) = el_world l"
  by (simp_all add: set_runner_def)

lemma inner_keeps [simp]:
  "main_pending (set_inner g l) = main_pending l" "has_gate (set_inner g l) = has_gate l"
  "main_ok (set_inner g l) = main_ok l" "alive (set_inner g l) = alive l"
  "main_ok (set_current_task t l) = main_ok l" "alive (set_current_task t l) = alive l"
  "main_pending (set_current_task t l) = main_pending l" "has_gate (set_current_task t l) = has_gate l"
  by (simp_all add: set_inner_def set_current_task_def has_gate_def main_ok_def alive_def)

lemma queue_world_keeps [simp]:
  "main_ok (l\<lparr>el_queue := q\<rparr>) = main_ok l" "alive (l\<lparr>el_queue := q\<rparr>) = alive l"
  "main_ok (l\<lparr>el_world := x\<rparr>) = main_ok l" "alive (l\<lparr>el_world := x\<rparr>) = alive l"
  by (simp_all add: main_ok_def alive_def has_gate_def)

lemma run_main_task_ok:
  assumes "disciplined fs" and "main_ok l" and "run_main_task fs l = Some (exit, l')"
  shows "exit_ok exit l'"
proof -
  have p: "main_pending l" using assms(3) by (simp add: run_main_task_def split: if_splits)
  obtain r l1 where r: "fu_main fs l = (r, l1)" by fastforce
  then have "main_ok l1" "main_pending l1" using assms(1,2) p by (auto simp: disciplined_def)
  then show ?thesis using assms(2,3) p r
    by (cases r) (auto simp: run_main_task_def main_poll_def exit_ok_def main_ok_def alive_def has_gate_def)
qed

lemma run_task_ok:
  assumes "disciplined fs" and "main_ok l" and "run_task fs t l = Some (exit, l')"
  shows "exit_ok exit l'"
proof (cases "t = INVALID_INDEX")
  case True
  then show ?thesis using run_main_task_ok [OF assms(1), of "set_current_task t l"] assms(2,3) by (simp add: run_task_def)
next
  case False
  let ?l = "set_current_task t l"
  obtain f where f: "slab_get t (sl_tasks (inner ?l)) = Some f"
    using assms(3) False by (auto simp: run_task_def poll_task_def Let_def split: Option.bind_splits)
  obtain r l1 where r: "fu_poll fs f ?l = (r, l1)" by fastforce
  then have "main_ok l1" using assms(1,2) by (auto simp: disciplined_def)
  then show ?thesis using assms(3) False f r
    by (cases r) (auto simp: run_task_def poll_task_def Let_def exit_ok_def alive_def)
qed

lemma run_events_ok:
  assumes "disciplined fs"
  shows "main_ok l \<Longrightarrow> alive l \<Longrightarrow> run_events fs evs l = Some (exit, l') \<Longrightarrow> exit_ok exit l'"
proof (induction evs arbitrary: l)
  case Nil
  then show ?case by (simp add: exit_ok_def)
next
  case (Cons ev evs)
  obtain tasks sl where g: "get_ready_tasks ev (inner l) = Some (tasks, sl)"
    using Cons.prems(3) by (auto split: Option.bind_splits)
  let ?l = "set_inner (\<lambda>_. sl) l"
  let ?run = "case tasks of Single t \<Rightarrow> run_task fs t ?l
    | Pair t1 t2 \<Rightarrow> do { (exit, l) \<leftarrow> run_task fs t1 ?l; if exit then Some (True, l) else run_task fs t2 l }"
  obtain b l1 where r: "?run = Some (b, l1)" using Cons.prems(3) g by (auto simp: Let_def split: Option.bind_splits)
  have e: "exit_ok b l1"
  proof (cases tasks)
    case (Single t)
    then show ?thesis using run_task_ok [OF assms, of ?l t] r Cons.prems(1) by simp
  next
    case (Pair t1 t2)
    obtain b2 l2 where r2: "run_task fs t1 ?l = Some (b2, l2)" using r Pair by (auto split: Option.bind_splits)
    then have e2: "exit_ok b2 l2" using run_task_ok [OF assms, of ?l t1] Cons.prems(1) by simp
    show ?thesis
    proof (cases b2)
      case True
      then show ?thesis using e2 r r2 Pair by simp
    next
      case False
      then show ?thesis using e2 r r2 Pair run_task_ok [OF assms, of l2 t2] by (simp add: exit_ok_def)
    qed
  qed
  show ?case
  proof (cases b)
    case True
    then show ?thesis using Cons.prems(3) g r e by (simp add: Let_def)
  next
    case False
    then have "run_events fs evs l1 = Some (exit, l')" using Cons.prems(3) g r by (simp add: Let_def)
    then show ?thesis using Cons.IH [of l1] e False by (simp add: exit_ok_def)
  qed
qed

section \<open>The timer queue in the loop\<close>

text \<open>What the runs of tasks keep until one of them ends the loop holds when a poll of the queue returns.\<close>

lemma queue_poll_world:
  assumes now_all: "\<forall>w n w'. J w \<longrightarrow> qe_now env w = (n, w') \<longrightarrow> J w'"
    and run_all: "\<forall>t q w b q' w'. J w \<longrightarrow> qe_run env t (q, w) = (b, q', w') \<longrightarrow> (if b then K w' else J w')"
  shows "queue_poll env s = Some r \<Longrightarrow> J (snd s) \<longrightarrow> (\<forall>v q w. r = Ok (v, q, w) \<longrightarrow> (if v = None then K w else J w))"
proof -
  note now = now_all [rule_format] and run = run_all [rule_format]
  have fire: "if b then K w' else J w'" if "J w" "queue_fire env e (q, w) = Ok (b, q', w')" for e q w b q' w'
  proof -
    note J = that(1) and fired = that(2)
    obtain task where t: "slab_get (ex_task e) (q_tasks q) = Some task"
      using fired by (auto simp: queue_fire_def Let_def split: option.splits)
    let ?q = "set_task_state (ex_task e) task ExpiredTask q"
    obtain b1 q1 w1 where r: "qe_run env (tk_id task) (?q, w) = (b1, q1, w1)" by (metis prod_cases3)
    have k: "if b1 then K w1 else J w1" by (rule run [OF J r])
    show ?thesis using J fired t r k
      by (cases "tk_state task") (auto simp: queue_fire_def Let_def split: option.splits if_splits)
  qed
  have "queue_poll env' s = Some r \<Longrightarrow> env' = env \<longrightarrow> J (snd s) \<longrightarrow> (\<forall>v q w. r = Ok (v, q, w) \<longrightarrow> (if v = None then K w else J w))" for env'
  proof (induction env' s r rule: queue_poll.raw_induct [rotated 1, consumes 1, case_names step])
    case (step poll env' s r)
    show ?case
    proof (intro impI)
      assume env: "env' = env" and J: "J (snd s)"
      obtain q w where s: "s = (q, w)" by fastforce
      show "\<forall>v q w. r = Ok (v, q, w) \<longrightarrow> (if v = None then K w else J w)"
      proof (cases "heap_pop (qe_tie env) (q_heap q)")
        case None
        with step(2) J show ?thesis by (auto simp: s env)
      next
        case (Some eh)
        obtain e h where pop: "heap_pop (qe_tie env) (q_heap q) = Some (e, h)" using Some by (cases eh) simp
        obtain n w1 where n: "qe_now env w = (n, w1)" by fastforce
        then have J1: "J w1" using now J by (simp add: s)
        show ?thesis
        proof (cases "ex_at e > n")
          case True
          with step(2) J1 show ?thesis by (auto simp: s env pop n)
        next
          case False
          show ?thesis
          proof (cases "queue_fire env e (q\<lparr>q_heap := h\<rparr>, w1)")
            case (Ok bqw)
            obtain b q2 w2 where f: "queue_fire env e (q\<lparr>q_heap := h\<rparr>, w1) = Ok (b, q2, w2)" using Ok by (cases bqw) auto
            have k: "if b then K w2 else J w2" by (rule fire [OF J1 f])
            show ?thesis
            proof (cases b)
              case True
              with step(2) False f k show ?thesis by (auto simp: s env pop n)
            next
              case nb: False
              have "poll env (q2, w2) = Some r" using step(2) False f nb by (simp add: s env pop n)
              with step(1) [of env "(q2, w2)" r] k nb show ?thesis by simp
            qed
          qed (use step(2) False in \<open>auto simp: s env pop n\<close>)
        qed
      qed
    qed
  qed
  then show "queue_poll env s = Some r \<Longrightarrow> J (snd s) \<longrightarrow> (\<forall>v q w. r = Ok (v, q, w) \<longrightarrow> (if v = None then K w else J w))"
    by blast
qed

lemma loop_turn_ok:
  assumes fs: "disciplined fs" and l: "main_ok l" "alive l" and turn: "loop_turn fs cap l = Some (Ok (exit, cap', l'))"
  shows "exit_ok exit l'"
proof -
  let ?J = "\<lambda>w. \<exists>l. w = Some l \<and> main_ok l \<and> alive l"
  let ?K = "\<lambda>w. \<forall>l. w = Some l \<longrightarrow> main_ok l \<and> \<not> alive l"
  obtain v q w where p: "queue_poll (loop_env fs) (el_queue l, Some l) = Some (Ok (v, q, Some w))"
    using turn by (auto simp: loop_turn_def split: option.splits outcome.splits)
  have nowJ: "?J w'" if "?J w" "qe_now (loop_env fs) w = (n, w')" for w n w'
    using that by (auto simp: loop_env_def split: prod.splits)
  have runJ: "if b then ?K w' else ?J w'" if J: "?J w" and run: "qe_run (loop_env fs) t (q, w) = (b, q', w')" for t q w b q' w'
  proof -
    obtain l1 where l1: "w = Some l1" "main_ok l1" "alive l1" using J by blast
    show ?thesis
    proof (cases "run_task fs t (l1\<lparr>el_queue := q\<rparr>)")
      case None
      then show ?thesis using run l1(1) by (auto simp: loop_env_def)
    next
      case (Some bl)
      then obtain l2 where r: "run_task fs t (l1\<lparr>el_queue := q\<rparr>) = Some (b, l2)" "w' = Some l2"
        using run l1(1) by (cases bl) (auto simp: loop_env_def)
      have "exit_ok b l2" using run_task_ok [OF fs _ r(1)] l1(2) by simp
      with r(2) show ?thesis by (cases b) (simp_all add: exit_ok_def)
    qed
  qed
  have nowJ': "\<forall>w n w'. ?J w \<longrightarrow> qe_now (loop_env fs) w = (n, w') \<longrightarrow> ?J w'" using nowJ by blast
  have runJ': "\<forall>t q w b q' w'. ?J w \<longrightarrow> qe_run (loop_env fs) t (q, w) = (b, q', w') \<longrightarrow> (if b then ?K w' else ?J w')"
    by (intro allI impI) (rule runJ)
  have "?J (snd (el_queue l, Some l))" using l by simp
  from mp [OF queue_poll_world [of ?J "loop_env fs" ?K, OF nowJ' runJ' p] this]
  have ok: "if v = None then ?K (Some w) else ?J (Some w)" by (elim allE) (erule mp, rule refl)
  show ?thesis
  proof (cases v)
    case None
    then show ?thesis using turn p ok by (auto simp: loop_turn_def exit_ok_def)
  next
    case (Some timeout)
    obtain evs x where ev: "fu_wait fs cap (epoll_timeout timeout) (el_world w) = (Some evs, x)"
      using turn p Some by (auto simp: loop_turn_def split: option.splits prod.splits)
    have "main_ok (w\<lparr>el_queue := q, el_world := x\<rparr>)" "alive (w\<lparr>el_queue := q, el_world := x\<rparr>)" using ok Some by simp_all
    moreover have "run_events fs evs (w\<lparr>el_queue := q, el_world := x\<rparr>) = Some (exit, l')"
      using turn p Some ev by (auto simp: loop_turn_def split: option.splits prod.splits)
    ultimately show ?thesis by (rule run_events_ok [OF fs])
  qed
qed

lemma run_loop_ok:
  "run_loop fs cap l = Some r \<Longrightarrow> disciplined fs \<longrightarrow> main_ok l \<longrightarrow> alive l \<longrightarrow> (\<forall>l'. r = Ok l' \<longrightarrow> main_ok l' \<and> \<not> alive l')"
proof (induction fs cap l r rule: run_loop.raw_induct [rotated 1, consumes 1, case_names step])
  case (step loop fs cap l r)
  show ?case
  proof (intro impI allI)
    fix l' assume fs: "disciplined fs" and l: "main_ok l" "alive l" and r: "r = Ok l'"
    obtain exit cap1 l1 where turn: "loop_turn fs cap l = Some (Ok (exit, cap1, l1))"
      using step(2) r by (auto split: option.splits outcome.splits prod.splits)
    have e: "exit_ok exit l1" by (rule loop_turn_ok [OF fs l turn])
    show "main_ok l' \<and> \<not> alive l'"
    proof (cases exit)
      case True
      then show ?thesis using step(2) turn r e by (simp add: exit_ok_def)
    next
      case False
      then have "loop fs cap1 l1 = Some r" using step(2) turn by simp
      with step(1) [of fs cap1 l1 r] fs e False r show ?thesis by (simp add: exit_ok_def)
    qed
  qed
qed

lemma runner_run_ok:
  assumes "disciplined fs" and "main_ok l" and "runner_run fs l = Some (Ok l')"
  shows "main_ok l' \<and> \<not> alive l'"
proof -
  obtain exit l1 where m: "run_main_task fs l = Some (exit, l1)" using assms(3) by (auto simp: runner_run_def split: option.splits)
  have e: "exit_ok exit l1" by (rule run_main_task_ok [OF assms(1,2) m])
  show ?thesis
  proof (cases exit)
    case True
    then show ?thesis using assms(3) m e by (simp add: runner_run_def exit_ok_def)
  next
    case False
    then have "run_loop fs (SCHEDULE_CAPACITY * 2) l1 = Some (Ok l')" using assms(3) m by (simp add: runner_run_def)
    from run_loop_ok [OF this] e False assms(1) show ?thesis by (simp add: exit_ok_def)
  qed
qed

section \<open>Properties\<close>

text \<open>
  C28. The event loop ends exactly when its main task is finished and no gate is open: a turn of the loop
  leaves it if and only if that is so, and a run that ends has the result of the main task to return (it
  does not unwrap a missing one), every task dropped, no gate open and the main task as the current one.
  A main future that is ready at once, with no gate open, is not waited for.
\<close>

theorem event_loop_ends:
  assumes "disciplined fs"
  shows "(main_ok l \<and> (main_pending l \<or> has_gate l) \<and> loop_turn fs cap l = Some (Ok (exit, cap', l')) \<longrightarrow>
      main_ok l' \<and> (exit \<longleftrightarrow> \<not> main_pending l' \<and> \<not> has_gate l')) \<and>
    (runner_run fs (set_main_task l) = Some (Ok l') \<longrightarrow>
      (\<exists>r l2. mt_ret (el_main l') = Some r \<and> eloop_run fs l = Some (Ok (r, l2)) \<and> \<not> has_gate l2 \<and> \<not> main_pending l2 \<and>
        sl_tasks (inner l2) = slab_clear (sl_tasks (inner l')) \<and> sl_current (inner l2) = INVALID_INDEX)) \<and>
    (fu_main fs (set_main_task l) = (Ready a, l') \<and> \<not> has_gate l' \<longrightarrow> (\<exists>l2. eloop_run fs l = Some (Ok (Inr a, l2))))"
proof (intro conjI impI)
  show "main_ok l'" "exit \<longleftrightarrow> \<not> main_pending l' \<and> \<not> has_gate l'"
    if "main_ok l \<and> (main_pending l \<or> has_gate l) \<and> loop_turn fs cap l = Some (Ok (exit, cap', l'))"
    using loop_turn_ok [OF assms, of l cap exit cap' l'] that by (simp_all add: exit_ok_def alive_def)
  have start: "main_ok (set_main_task l)" "main_pending (set_main_task l)" by (simp_all add: main_ok_def set_main_task_def)
  assume run: "runner_run fs (set_main_task l) = Some (Ok l')"
  have e: "main_ok l'" "\<not> alive l'" using runner_run_ok [OF assms start(1) run] by simp_all
  then obtain r where "mt_ret (el_main l') = Some r" by (auto simp: main_ok_def alive_def)
  then show "\<exists>r l2. mt_ret (el_main l') = Some r \<and> eloop_run fs l = Some (Ok (r, l2)) \<and> \<not> has_gate l2 \<and> \<not> main_pending l2 \<and>
        sl_tasks (inner l2) = slab_clear (sl_tasks (inner l')) \<and> sl_current (inner l2) = INVALID_INDEX"
    using run e by (simp add: eloop_run_def Let_def sys_clear_def has_gate_def alive_def)
next
  assume "fu_main fs (set_main_task l) = (Ready a, l') \<and> \<not> has_gate l'"
  then show "\<exists>l2. eloop_run fs l = Some (Ok (Inr a, l2))"
    by (simp add: eloop_run_def runner_run_def run_main_task_def main_poll_def Let_def has_gate_def)
      (simp add: set_main_task_def)
qed

text \<open>A main future that is ready, with tasks that never are.\<close>

definition ready_main :: "(nat, nat, unit, unit) futures" where
  "ready_main = \<lparr>fu_main = (\<lambda>l. (Ready 7, l)), fu_poll = (\<lambda>f l. (NotReady, l)), fu_now = (\<lambda>x. (0, x)), fu_tie = (\<lambda>h. 0),
     fu_wait = (\<lambda>c t x. (None, x))\<rparr>"

theorem event_loop_ends_witness:
  "\<exists>l. eloop_run ready_main (eloop_new ()) = Some (Ok (Inr 7, l))"
proof -
  have "disciplined ready_main" by (simp add: disciplined_def ready_main_def)
  moreover have "fu_main ready_main (set_main_task (eloop_new ())) = (Ready 7, set_main_task (eloop_new ()))"
    "\<not> has_gate (set_main_task (eloop_new ()) :: (nat, nat, unit, unit) eloop)"
    by (simp_all add: ready_main_def has_gate_def set_main_task_def eloop_new_def set_runner_def)
  ultimately show ?thesis using event_loop_ends [of ready_main "eloop_new ()" 0 False 0 "set_main_task (eloop_new ())" 7] by blast
qed

section \<open>Sockets\<close>

lemma slab_get_set: "slab_get i s \<noteq> None \<Longrightarrow> slab_get j (slab_set i x s) = (if j = i then Some x else slab_get j s)"
proof -
  assume "slab_get i s \<noteq> None"
  then obtain y where "slab_get i s = Some y" by blast
  moreover from this have "i < length (objs s)" by (simp add: slab_get_Some_iff)
  ultimately show ?thesis by (simp add: slab_set_def slab_get_def nth_list_update)
qed


text \<open>Two tasks, 0 and 1, with a socket each; task 0 is running.\<close>

definition two_tasks :: "nat sys_loop" where
  "two_tasks = \<lparr>sl_tasks = \<lparr>objs = [Used 0, Used 1], objs_cap = 4, slab_len = 2, hfree = INVALID_INDEX\<rparr>,
     sl_schedules = \<lparr>objs = [Used (schedule_new 0), Used (schedule_new 1)], objs_cap = 4, slab_len = 2, hfree = INVALID_INDEX\<rparr>,
     sl_current = 0\<rparr>"

abbreviation always_registers :: "unit poller_ctl" where
  "always_registers \<equiv> (\<lambda>ops tok p. (True, p))"


section \<open>Faults\<close>

definition with_tasks :: "nat sys_loop \<Rightarrow> bool \<Rightarrow> nat \<Rightarrow> (nat, nat, unit, unit) eloop" where
  "with_tasks sl main gate = (eloop_new ())\<lparr>el_runner := \<lparr>tr_inner = sl, tr_spawn_stack = [], tr_gate = gate, tr_main = main\<rparr>\<rparr>"

text \<open>Tasks that are finished when they are polled; tasks that drop the socket of task 1.\<close>

definition finishing :: "(nat, nat, unit, unit) futures" where
  "finishing = ready_main\<lparr>fu_poll := (\<lambda>f l. (Ready (), l))\<rparr>"

definition closing :: "(nat, nat, unit, unit) futures" where
  "closing = ready_main\<lparr>fu_poll := (\<lambda>f l. (NotReady, set_inner (sys_cancel 1) l))\<rparr>"

lemma loop_faults:
  "run_events finishing [\<lparr>ev_token = 0, ev_read = True, ev_write = True\<rparr>] (with_tasks two_tasks True 0) = None \<and>
   run_events closing [\<lparr>ev_token = 0, ev_read = True, ev_write = False\<rparr>, \<lparr>ev_token = 1, ev_read = True, ev_write = False\<rparr>]
     (with_tasks two_tasks True 0) = None \<and>
   run_task finishing INVALID_INDEX (with_tasks two_tasks False 1) = None \<and>
   epoll_timeout (Some (30 * 24 * 3600 * 1000000000)) < 0 \<and>
   (let n = \<lparr>nio_token = 0, nio_read = False, nio_write = False\<rparr>; (r1, n1, lp1) = nio_schedule_read (\<lambda>ops tok p. (False, p)) n (two_tasks, ())
    in r1 = Err () \<and> nio_schedule_read (\<lambda>ops tok p. (False, p)) n1 lp1 = (Ok (), n1, lp1)) \<and>
   (let n = \<lparr>nio_token = 1, nio_read = False, nio_write = False\<rparr>; (r1, n1, sl1, p1) = nio_schedule_read always_registers n (two_tasks, ());
        (r2, n2, sl2, p2) = nio_schedule_read always_registers n1 (sl1\<lparr>sl_current := 1\<rparr>, p1)
    in r2 = Ok () \<and> map_option sc_read_task (slab_get 1 (sl_schedules sl2)) = Some 0)"
proof (intro conjI)
  note eval = with_tasks_def two_tasks_def eloop_new_def finishing_def closing_def ready_main_def get_ready_tasks_def ready_of_def
    slab_get_def slab_set_def slab_remove_def schedule_new_def set_inner_def set_runner_def set_current_task_def run_task_def
    poll_task_def drop_task_def sys_cancel_def INVALID_INDEX_def usize_max_def has_gate_def Let_def
  show "run_events finishing [\<lparr>ev_token = 0, ev_read = True, ev_write = True\<rparr>] (with_tasks two_tasks True 0) = None"
    by (simp add: eval)
  show "run_events closing [\<lparr>ev_token = 0, ev_read = True, ev_write = False\<rparr>, \<lparr>ev_token = 1, ev_read = True, ev_write = False\<rparr>]
     (with_tasks two_tasks True 0) = None"
    by (simp add: eval)
  show "run_task finishing INVALID_INDEX (with_tasks two_tasks False 1) = None"
    by (simp add: eval run_main_task_def)
  show "epoll_timeout (Some (30 * 24 * 3600 * 1000000000)) < 0"
    by (simp add: epoll_timeout_def into_millis_def usize_max_def)
qed (simp_all add: nio_schedule_read_def nio_reregister_def sys_schedule_read_def change_schedule_def two_tasks_def slab_get_def
    slab_set_def schedule_new_def Let_def)


end
