(* ===== verification/Tcp_Correct.thy ===== *)
theory Tcp_Correct
  imports Listener Event_Loop_Correct
begin

text \<open>
  Sockets: what is received is what the kernel had, in order; what is given to the sink reaches the
  kernel, in order, whatever the kernel takes at a time; and connecting ends in a sender or in an error.
\<close>

section \<open>Reading into the blocks\<close>

text \<open>A block without bytes that is read into from its start.\<close>

definition fresh_block :: "block \<Rightarrow> bool" where
  "fresh_block b \<longleftrightarrow> block_wf b \<and> read_pos b = 0 \<and> write_pos b = 0"

definition rb_ok :: "recv_buffer \<Rightarrow> bool" where
  "rb_ok bf \<longleftrightarrow> fresh_block (rb_block1 bf) \<and> fresh_block (rb_block2 bf)"

lemma fresh_with_capacity [simp]: "fresh_block (block_with_capacity c)"
  by (simp add: fresh_block_def block_with_capacity_wf) (simp add: block_with_capacity_def)

lemma rb_new_ok: "rb_ok recv_buffer_new"
  by (simp add: rb_ok_def recv_buffer_new_def)

lemma rb_pair_ok: "rb_ok bf \<Longrightarrow> rb_pair bf = (b1, b2) \<Longrightarrow> fresh_block b1 \<and> fresh_block b2"
  by (auto simp: rb_ok_def rb_pair_def split: if_splits)

lemma rb_put_ok [simp]: "rb_ok (rb_put b1 b2 bf) \<longleftrightarrow> fresh_block b1 \<and> fresh_block b2"
  "rb_ok (bf\<lparr>rb_reverse := r\<rparr>) \<longleftrightarrow> rb_ok bf"
  by (auto simp: rb_ok_def rb_put_def)

lemma fresh_fill:
  assumes "fresh_block b" and "length bs \<le> cap b"
  shows "block_wf (block_set_write_pos (length bs) (block_write 0 bs b))"
    and "as_bytes (block_set_write_pos (length bs) (block_write 0 bs b)) = bs"
proof -
  have b: "block_wf b" "length bs \<le> appendable b" "write_pos b = 0" "block_is_empty b"
    using assms by (simp_all add: fresh_block_def appendable_def block_is_empty_def)
  show "block_wf (block_set_write_pos (length bs) (block_write 0 bs b))"
    using block_append_wf [OF b(1,2)] b(3) by simp
  show "as_bytes (block_set_write_pos (length bs) (block_write 0 bs b)) = bs"
    using block_append_bytes [OF b(1,2)] b(3,4) by simp
qed

text \<open>What is split off in front is the bytes read; what is left is fresh again.\<close>

lemma fresh_split:
  assumes "fresh_block b" and "length bs \<le> cap b"
    and "block_split_off (length bs) (block_set_write_pos (length bs) (block_write 0 bs b)) = (b', block)"
  shows "fresh_block b' \<and> block_wf block \<and> as_bytes block = bs"
proof -
  let ?b = "block_set_write_pos (length bs) (block_write 0 bs b)"
  note f = fresh_fill [OF assms(1,2)]
  have len: "length bs \<le> block_len ?b" using f length_as_bytes [OF f(1)] by simp
  have pos: "read_pos ?b = 0" "write_pos ?b = length bs"
    using assms(1) by (simp_all add: fresh_block_def block_set_write_pos_def)
  show ?thesis
    using block_split_off_bytes [OF assms(3) len] block_split_off_wf [OF assms(3) f(1) len] block_split_off_shape [OF assms(3)]
      f(2) pos by (simp add: fresh_block_def)
qed

lemma add_blocks_new:
  "block_wf b \<Longrightarrow> bb_wf (bb_add_block b bytebuf_new) \<and> content (bb_add_block b bytebuf_new) = as_bytes b"
  "block_wf b \<Longrightarrow> block_wf c \<Longrightarrow> bb_wf (bb_add_block c (bb_add_block b bytebuf_new)) \<and>
     content (bb_add_block c (bb_add_block b bytebuf_new)) = as_bytes b @ as_bytes c"
  by (simp_all add: bb_add_block_def bytebuf_new_def bytebuf_with_growth_def Let_def bb_wf_def content_def)

lemma rb_readv_error:
  assumes "rb_pair bf = (b1, b2)" and "r [cap b1, cap b2] k = (Inl e, k1)"
  shows "rb_readv r bf k = (Inl e, bf, k1)"
  using assms by (simp add: rb_readv_def)

lemma rb_readv_bytes:
  assumes "rb_ok bf" and "rb_pair bf = (b1, b2)" and "r [cap b1, cap b2] k = (Inr bytes, k1)"
    and "length bytes \<le> cap b1 + cap b2"
  shows "\<exists>bf'. rb_ok bf' \<and> (if bytes = [] then rb_readv r bf k = (Inr None, bf', k1)
    else \<exists>buf. rb_readv r bf k = (Inr (Some (buf, length bytes)), bf', k1) \<and> bb_wf buf \<and> content buf = bytes)"
proof -
  have f: "fresh_block b1" "fresh_block b2" using rb_pair_ok [OF assms(1,2)] by simp_all
  have room: "appendable (block_write 0 bs b1) = cap b1" "appendable (block_write 0 bs b2) = cap b2" for bs
    using f by (simp_all add: appendable_def fresh_block_def)
  consider (none) "bytes = []" | (one) "bytes \<noteq> []" "length bytes \<le> cap b1" | (two) "bytes \<noteq> []" "cap b1 < length bytes" by fastforce
  then show ?thesis
  proof cases
    case none
    have "block_write 0 [] b = b" for b by (simp add: block_write_def mem_write_def)
    with none f assms(2,3) show ?thesis by (intro exI [of _ "rb_put b1 b2 bf"]) (simp add: rb_readv_def Let_def)
  next
    case one
    let ?b1 = "block_write 0 bytes b1"
    obtain b1' block where s: "block_split_off (length bytes) (block_set_write_pos (length bytes) ?b1) = (b1', block)" by fastforce
    note sp = fresh_split [OF f(1) one(2) s]
    let ?bf = "rb_put (if appendable b1' < 8 then block_with_capacity BUF_SIZE else b1') (block_write 0 [] b2) bf"
    have e: "block_write 0 [] b2 = b2" by (simp add: block_write_def mem_write_def)
    have "rb_readv r bf k = (Inr (Some (bb_add_block block bytebuf_new, length bytes)), ?bf, k1)"
      using one assms(2,3) s room by (simp add: rb_readv_def Let_def)
    moreover have "rb_ok ?bf" using sp f(2) e by simp
    ultimately show ?thesis using one(1) sp add_blocks_new(1) [of block] by (intro exI [of _ ?bf]) auto
  next
    case two
    let ?bs1 = "take (cap b1) bytes" and ?bs2 = "drop (cap b1) bytes"
    have l1: "length ?bs1 = cap b1" and l2: "length ?bs2 = length bytes - cap b1" "length ?bs2 \<le> cap b2"
      using two assms(4) by simp_all
    let ?b1 = "block_set_write_pos (cap b1) (block_write 0 ?bs1 b1)"
    have f1: "block_wf ?b1" "as_bytes ?b1 = ?bs1" using fresh_fill [OF f(1), of ?bs1] l1 by simp_all
    obtain b2' block where s: "block_split_off (length ?bs2) (block_set_write_pos (length ?bs2) (block_write 0 ?bs2 b2)) = (b2', block)"
      by fastforce
    note sp = fresh_split [OF f(2) l2(2) s]
    let ?buf = "bb_add_block block (bb_add_block ?b1 bytebuf_new)"
    let ?bf = "if appendable b2' < 8 then rb_put (block_with_capacity BUF_SIZE) (block_with_capacity BUF_SIZE) bf
      else (rb_put (block_with_capacity BUF_SIZE) b2' bf)\<lparr>rb_reverse := \<not> rb_reverse bf\<rparr>"
    have "rb_readv r bf k = (Inr (Some (?buf, length bytes)), ?bf, k1)"
      using two assms(2,3) s room l2(1) by (simp add: rb_readv_def Let_def)
    moreover have "rb_ok ?bf" using sp by simp
    ultimately show ?thesis
      using two(1) sp f1 add_blocks_new(2) [of ?b1 block] by (intro exI [of _ ?bf]) auto
  qed
qed

section \<open>Interest\<close>

lemma nio_call:
  assumes "slab_get (nio_token n) (sl_schedules sl) \<noteq> None"
    and "call \<in> {nio_schedule_read ctl, nio_schedule_write ctl, nio_cancel_write ctl}"
  obtains r n' sl' k' where "call n (sl, k) = (r, n', sl', k')" "r \<noteq> Panic" "nio_token n' = nio_token n"
    "slab_get (nio_token n) (sl_schedules sl') \<noteq> None"
    "k' = k \<or> (\<exists>ops. k' = snd (ctl ops (nio_token n) k))"
proof -
  have change: "\<exists>sl'. change_schedule (nio_token n) g sl = Some sl' \<and> slab_get (nio_token n) (sl_schedules sl') \<noteq> None" for g
    using assms(1) by (auto simp: change_schedule_def slab_get_set)
  have reg: "\<exists>r sl' k'. nio_reregister ctl after m (sl, k) = (r, m, sl', k') \<and> r \<noteq> Panic \<and>
      slab_get (nio_token n) (sl_schedules sl') \<noteq> None \<and> (\<exists>ops. k' = snd (ctl ops (nio_token n) k))"
    if "nio_token m = nio_token n" "after \<in> {sys_schedule_read, sys_schedule_write, sys_cancel_write}" for after m
  proof -
    note m = that
    obtain b k' where c: "ctl (nio_read m, nio_write m) (nio_token n) k = (b, k')" by fastforce
    then have k: "k' = snd (ctl (nio_read m, nio_write m) (nio_token n) k)" by simp
    have "\<exists>sl'. after (nio_token n) sl = Some sl' \<and> slab_get (nio_token n) (sl_schedules sl') \<noteq> None"
      using m(2) by (elim insertE emptyE) (simp_all only: sys_schedule_read_def sys_schedule_write_def sys_cancel_write_def change)
    then obtain sl' where "after (nio_token n) sl = Some sl'" "slab_get (nio_token n) (sl_schedules sl') \<noteq> None" by blast
    with m(1) c have "nio_reregister ctl after m (sl, k) = (if b then Ok () else Err (), m, if b then sl' else sl, k')"
      by (simp add: nio_reregister_def split: bool.split)
    with k \<open>slab_get (nio_token n) (sl_schedules sl') \<noteq> None\<close> assms(1) show ?thesis by auto
  qed
  show thesis
  proof (cases "call = nio_schedule_read ctl \<and> \<not> nio_read n \<or> call = nio_schedule_write ctl \<and> \<not> nio_write n \<or>
      call = nio_cancel_write ctl \<and> nio_write n")
    case False
    with assms have "call n (sl, k) = (Ok (), n, sl, k)"
      by (auto simp: nio_schedule_read_def nio_schedule_write_def nio_cancel_write_def)
    with assms(1) show thesis by (intro that [of "Ok ()" n sl k]) simp_all
  next
    case True
    then consider "call = nio_schedule_read ctl" "\<not> nio_read n" | "call = nio_schedule_write ctl" "\<not> nio_write n"
      | "call = nio_cancel_write ctl" "nio_write n" by blast
    then show thesis
    proof cases
      case 1
      with reg [of "n\<lparr>nio_read := True\<rparr>" sys_schedule_read] show thesis
        by (auto simp: nio_schedule_read_def intro: that)
    next
      case 2
      with reg [of "n\<lparr>nio_write := True\<rparr>" sys_schedule_write] show thesis
        by (auto simp: nio_schedule_write_def intro: that)
    next
      case 3
      with reg [of "n\<lparr>nio_write := False\<rparr>" sys_cancel_write] show thesis
        by (auto simp: nio_cancel_write_def intro: that)
    qed
  qed
qed

lemma nio_interest:
  "nio_schedule_read ctl n lp = (r, n', lp') \<Longrightarrow> nio_read n'"
  "nio_schedule_write ctl n lp = (r, n', lp') \<Longrightarrow> nio_write n'"
  by (auto simp: nio_schedule_read_def nio_schedule_write_def nio_reregister_def split: if_splits prod.splits bool.splits option.splits)

section \<open>One operation\<close>

text \<open>
  What a TCP socket of the kernel promises: \<open>inp\<close> are the bytes of the peer that have not been read,
  \<open>outp\<close> the bytes that were taken from the program so far.
\<close>

definition tcp_kernel :: "'k kernel \<Rightarrow> ('k \<Rightarrow> u8 list) \<Rightarrow> ('k \<Rightarrow> u8 list) \<Rightarrow> bool" where
  "tcp_kernel env inp outp \<longleftrightarrow>
     (\<forall>cs k r k'. so_readv env cs k = (r, k') \<longrightarrow> outp k' = outp k \<and>
        (case r of Inr bs \<Rightarrow> length bs \<le> sum_list cs \<and> inp k = bs @ inp k' | Inl _ \<Rightarrow> inp k' = inp k)) \<and>
     (\<forall>iovs k r k'. so_writev env iovs k = (r, k') \<longrightarrow> inp k' = inp k \<and>
        (case r of Inr n \<Rightarrow> n \<le> length (concat iovs) \<and> outp k' = outp k @ take n (concat iovs) | Inl _ \<Rightarrow> outp k' = outp k)) \<and>
     (\<forall>ops tok k. inp (snd (so_ctl env ops tok k)) = inp k \<and> outp (snd (so_ctl env ops tok k)) = outp k) \<and>
     (\<forall>k. inp (snd (so_shutdown env k)) = inp k \<and> outp (snd (so_shutdown env k)) = outp k)"

lemma tcp_kernelD:
  assumes "tcp_kernel env inp outp"
  shows "so_readv env cs k = (Inr bs, k') \<Longrightarrow> outp k' = outp k \<and> length bs \<le> sum_list cs \<and> inp k = bs @ inp k'"
    and "so_readv env cs k = (Inl e, k') \<Longrightarrow> outp k' = outp k \<and> inp k' = inp k"
    and "so_writev env iovs k = (Inr n, k') \<Longrightarrow>
      inp k' = inp k \<and> n \<le> length (concat iovs) \<and> outp k' = outp k @ take n (concat iovs)"
    and "so_writev env iovs k = (Inl e, k') \<Longrightarrow> inp k' = inp k \<and> outp k' = outp k"
    and "inp (snd (so_ctl env ops tok k)) = inp k" and "outp (snd (so_ctl env ops tok k)) = outp k"
    and "inp (snd (so_shutdown env k)) = inp k" and "outp (snd (so_shutdown env k)) = outp k"
  using assms unfolding tcp_kernel_def by (fastforce, fastforce, fastforce, fastforce, blast+)

text \<open>The blocks and the buffer are well formed, and the socket's schedule is there.\<close>

definition tcp_ok :: "('f, 'k) tcp \<Rightarrow> bool" where
  "tcp_ok t \<longleftrightarrow> rb_ok (tc_recv t) \<and> bb_wf (tc_buf t) \<and> slab_get (nio_token (tc_nio t)) (sl_schedules (tc_loop t)) \<noteq> None"

lemma tc_nio_then_spec:
  assumes "tcp_ok t" and "tcp_kernel env inp outp"
    and "call \<in> {nio_schedule_read (so_ctl env), nio_schedule_write (so_ctl env), nio_cancel_write (so_ctl env)}"
  obtains t' r where "tc_nio_then call x t = Some (r, t')" "r = x \<or> r = Failed CtlError" "tcp_ok t'"
    "tc_buf t' = tc_buf t" "inp (tc_kernel t') = inp (tc_kernel t)" "outp (tc_kernel t') = outp (tc_kernel t)"
    "\<exists>r lp'. call (tc_nio t) (tc_loop t, tc_kernel t) = (r, tc_nio t', lp')"
proof -
  have g: "slab_get (nio_token (tc_nio t)) (sl_schedules (tc_loop t)) \<noteq> None" using assms(1) by (simp add: tcp_ok_def)
  obtain r n' sl' k' where c: "call (tc_nio t) (tc_loop t, tc_kernel t) = (r, n', sl', k')" "r \<noteq> Panic"
    "nio_token n' = nio_token (tc_nio t)" "slab_get (nio_token (tc_nio t)) (sl_schedules sl') \<noteq> None"
    "k' = tc_kernel t \<or> (\<exists>ops. k' = snd (so_ctl env ops (nio_token (tc_nio t)) (tc_kernel t)))"
    by (rule nio_call [OF g assms(3), of "tc_kernel t"]) (rule that)
  let ?t = "t\<lparr>tc_nio := n', tc_loop := sl', tc_kernel := k'\<rparr>"
  have k: "inp k' = inp (tc_kernel t)" "outp k' = outp (tc_kernel t)"
    using c(5) tcp_kernelD(5,6) [OF assms(2)] by auto
  have "tc_nio_then call x t = Some (case r of Ok _ \<Rightarrow> x | _ \<Rightarrow> Failed CtlError, ?t)"
    using c(1,2) by (cases r) (simp_all add: tc_nio_then_def)
  moreover have "(case r of Ok _ \<Rightarrow> x | _ \<Rightarrow> Failed CtlError) = x \<or> (case r of Ok _ \<Rightarrow> x | _ \<Rightarrow> Failed CtlError) = Failed CtlError"
    by (cases r) simp_all
  ultimately show thesis
    using assms(1) c(1,3,4) k by (intro that [of _ ?t]) (simp_all add: tcp_ok_def)
qed

lemma not_read_ready: "nio_is_read_ready n sl = Some False \<Longrightarrow> nio_read n"
  and not_write_ready: "nio_is_write_ready n sl = Some False \<Longrightarrow> nio_write n"
  by (auto simp: nio_is_read_ready_def nio_is_write_ready_def split: if_splits)

lemma ready_known:
  assumes "tcp_ok t"
  shows "nio_is_read_ready (tc_nio t) (tc_loop t) \<noteq> None" and "nio_is_write_ready (tc_nio t) (tc_loop t) \<noteq> None"
  using assms by (auto simp: tcp_ok_def nio_is_read_ready_def nio_is_write_ready_def)

lemma poll_recv_spec:
  assumes "tcp_ok t" and "tcp_kernel env inp outp"
  obtains r t' where "poll_recv env t = Some (r, t')" "tcp_ok t'" "tc_buf t' = tc_buf t"
    "outp (tc_kernel t') = outp (tc_kernel t)"
    "case r of Ready (Some b) \<Rightarrow> bb_wf b \<and> content b \<noteq> [] \<and> inp (tc_kernel t) = content b @ inp (tc_kernel t')
       | Failed _ \<Rightarrow> True | _ \<Rightarrow> inp (tc_kernel t') = inp (tc_kernel t)"
    "r = NotReady \<longrightarrow> nio_read (tc_nio t')"
proof (cases "nio_is_read_ready (tc_nio t) (tc_loop t)")
  case None
  with ready_known [OF assms(1)] show thesis by simp
next
  case (Some b)
  show thesis
  proof (cases b)
    case False
    with Some not_read_ready assms(1) show thesis by (intro that [of NotReady t]) (auto simp: poll_recv_def)
  next
    case True
    let ?c = "nio_schedule_read (so_ctl env)"
    obtain b1 b2 where p: "rb_pair (tc_recv t) = (b1, b2)" by fastforce
    obtain r k where rd: "so_readv env [cap b1, cap b2] (tc_kernel t) = (r, k)" by fastforce
    have ok: "rb_ok (tc_recv t)" using assms(1) by (simp add: tcp_ok_def)
    show thesis
    proof (cases r)
      case (Inl e)
      note k = tcp_kernelD(2) [OF assms(2) rd [unfolded Inl]] and rv = rb_readv_error [where r = "so_readv env", OF p rd [unfolded Inl]]
      let ?t = "t\<lparr>tc_recv := tc_recv t, tc_kernel := k\<rparr>"
      have t: "tcp_ok ?t" using assms(1) by (simp add: tcp_ok_def)
      show thesis
      proof (cases "e = WouldBlock")
        case True
        obtain r' t' where a: "tc_nio_then ?c (NotReady :: (bytebuf option, io_error) poll) ?t = Some (r', t')"
          "r' = NotReady \<or> r' = Failed CtlError" "tcp_ok t'"
          "tc_buf t' = tc_buf ?t" "inp (tc_kernel t') = inp (tc_kernel ?t)" "outp (tc_kernel t') = outp (tc_kernel ?t)"
          "\<exists>r lp'. ?c (tc_nio ?t) (tc_loop ?t, tc_kernel ?t) = (r, tc_nio t', lp')"
          by (rule tc_nio_then_spec [OF t assms(2), of ?c NotReady]) (simp, rule that)
        have "poll_recv env t = Some (r', t')"
          using Some \<open>b\<close> rv a(1) True by (simp add: poll_recv_def Let_def)
        with a k nio_interest(1) show thesis by (intro that [of r' t']) auto
      next
        case False
        then have "poll_recv env t = Some (Failed e, ?t)"
          using Some \<open>b\<close> rv by (cases e) (simp_all add: poll_recv_def Let_def)
        with t k show thesis by (intro that [of "Failed e" ?t]) simp_all
      qed
    next
      case (Inr bytes)
      note k = tcp_kernelD(1) [OF assms(2) rd [unfolded Inr]]
      obtain bf where bf: "rb_ok bf" "if bytes = [] then rb_readv (so_readv env) (tc_recv t) (tc_kernel t) = (Inr None, bf, k)
        else \<exists>buf. rb_readv (so_readv env) (tc_recv t) (tc_kernel t) = (Inr (Some (buf, length bytes)), bf, k) \<and> bb_wf buf \<and> content buf = bytes"
        using rb_readv_bytes [where r = "so_readv env", OF ok p rd [unfolded Inr]] k by auto
      let ?t = "t\<lparr>tc_recv := bf, tc_kernel := k\<rparr>"
      have t: "tcp_ok ?t" using assms(1) bf(1) by (simp add: tcp_ok_def)
      show thesis
      proof (cases "bytes = []")
        case True
        with bf(2) Some \<open>b\<close> have "poll_recv env t = Some (Ready None, ?t)" by (simp add: poll_recv_def Let_def)
        with t k True show thesis by (intro that [of "Ready None" ?t]) simp_all
      next
        case False
        with bf(2) obtain buf where buf: "rb_readv (so_readv env) (tc_recv t) (tc_kernel t) = (Inr (Some (buf, length bytes)), bf, k)"
          "bb_wf buf" "content buf = bytes" by auto
        let ?x = "Ready (Some buf) :: (bytebuf option, io_error) poll"
        obtain r' t' where a: "tc_nio_then ?c ?x ?t = Some (r', t')" "r' = ?x \<or> r' = Failed CtlError" "tcp_ok t'"
          "tc_buf t' = tc_buf ?t" "inp (tc_kernel t') = inp (tc_kernel ?t)" "outp (tc_kernel t') = outp (tc_kernel ?t)"
          "\<exists>r lp'. ?c (tc_nio ?t) (tc_loop ?t, tc_kernel ?t) = (r, tc_nio t', lp')"
          by (rule tc_nio_then_spec [OF t assms(2), of ?c ?x]) (simp, rule that)
        have "poll_recv env t = Some (r', t')"
          using Some \<open>b\<close> buf(1) a(1) by (simp add: poll_recv_def Let_def)
        with a k buf(2,3) False show thesis by (intro that [of r' t']) auto
      qed
    qed
  qed
qed

subsection \<open>Sending\<close>

text \<open>The slices hold the bytes of the buffer, and none is empty.\<close>

lemma get_iovs_spec:
  "chain_wf (gi_blocks it) \<Longrightarrow> concat (get_iovs it) = gi_rest it \<and> [] \<notin> set (get_iovs it)"
proof (induction it rule: get_iovs.induct)
  case (1 it)
  obtain r it1 where gn: "get_next it = (r, it1)" by fastforce
  show ?case
  proof (cases r)
    case None
    with gn get_next_None [of it it1] "1.prems" show ?thesis by (simp add: get_iovs.simps [of it])
  next
    case (Some gb)
    note spec = get_next_Some [OF gn [unfolded Some] "1.prems"]
    have "as_bytes_range (gb_get_pos gb) (gb_len gb) (gb_inner gb) = take (gb_len gb) (gi_rest it)" by (rule spec(3)) simp
    moreover have "concat (get_iovs it1) = gi_rest it1 \<and> [] \<notin> set (get_iovs it1)"
      using "1.IH" [of r it1 gb] gn Some spec(1) "1.prems" by simp
    ultimately show ?thesis
      using gn Some spec(2,4,5) by (auto simp: get_iovs.simps [of it])
  qed
qed

lemma live_not_empty: "bb_wf b \<Longrightarrow> content b \<noteq> [] \<Longrightarrow> idx b < length (blocks b)"
  by (rule ccontr) (simp add: content_def)

lemma tcp_writev_spec:
  assumes "bb_wf data" and "content data \<noteq> []" and "tcp_kernel env inp outp"
  obtains e data' k' where "tcp_writev env data k = Some (e, data', k')" "bb_wf data'" "inp k' = inp k"
    "outp k' @ content data' = outp k @ content data" "e \<noteq> None \<longrightarrow> data' = data"
proof -
  obtain it where it: "\<And>g :: u8 list list getter. bb_get 0 g data = g it" "chain_wf (gi_blocks it)" "gi_rest it = content data"
    using bb_get_Ok [OF assms(1) _ live_not_empty [OF assms(1,2)], of 0] by (metis drop0 le0)
  have iovs: "concat (get_iovs it) = content data" using get_iovs_spec [OF it(2)] it(3) by simp
  obtain r k' where w: "so_writev env (get_iovs it) k = (r, k')" by fastforce
  show thesis
  proof (cases r)
    case (Inl e)
    with w it(1) tcp_kernelD(4) [OF assms(3), of "get_iovs it" k] assms(1) show thesis
      by (intro that [of "Some e" data k']) (simp_all add: tcp_writev_def)
  next
    case (Inr n)
    obtain m data' where s: "bb_skip n data = (m, data')" by fastforce
    note sk = bb_skip_spec [OF assms(1) s]
    have "tcp_writev env data k = Some (None, data', k')" using w it(1) s Inr by (simp add: tcp_writev_def)
    with tcp_kernelD(3) [OF assms(3) w [unfolded Inr]] sk iovs show thesis
      by (intro that [of None data' k']) simp_all
  qed
qed

lemma poll_send_spec:
  assumes "tcp_ok t" and "tcp_kernel env inp outp"
  obtains r t' where "poll_send env t = Some (r, t')" "tcp_ok t'" "inp (tc_kernel t') = inp (tc_kernel t)"
    "outp (tc_kernel t') @ content (tc_buf t') = outp (tc_kernel t) @ content (tc_buf t)"
    "r = Ready () \<longrightarrow> content (tc_buf t') = []" "r = NotReady \<longrightarrow> nio_write (tc_nio t') \<and> content (tc_buf t') \<noteq> []"
proof (cases "bb_is_empty (tc_buf t)")
  case True
  with assms(1) show thesis
    by (intro that [of "Ready ()" t]) (simp_all add: poll_send_def tcp_ok_def bb_is_empty_iff)
next
  case False
  note goal = that
  have wf: "bb_wf (tc_buf t)" using assms(1) by (simp add: tcp_ok_def)
  have ne: "content (tc_buf t) \<noteq> []" using False bb_is_empty_iff [OF wf] by simp
  obtain b where b: "nio_is_write_ready (tc_nio t) (tc_loop t) = Some b" using ready_known(2) [OF assms(1)] by blast
  show thesis
  proof (cases b)
    case False': False
    with b False ne not_write_ready assms(1) show thesis
      by (intro that [of NotReady t]) (auto simp: poll_send_def)
  next
    case True
    obtain e data k where w: "tcp_writev env (tc_buf t) (tc_kernel t) = Some (e, data, k)" "bb_wf data" "inp k = inp (tc_kernel t)"
      "outp k @ content data = outp (tc_kernel t) @ content (tc_buf t)" "e \<noteq> None \<longrightarrow> data = tc_buf t"
      by (rule tcp_writev_spec [OF wf ne assms(2)])
    have after: thesis
      if "tcp_ok u" "inp (tc_kernel u) = inp (tc_kernel t)"
        "outp (tc_kernel u) @ content (tc_buf u) = outp (tc_kernel t) @ content (tc_buf t)"
        "x = Ready () \<and> call = nio_cancel_write (so_ctl env) \<and> content (tc_buf u) = [] \<or>
         x = NotReady \<and> call = nio_schedule_write (so_ctl env) \<and> content (tc_buf u) \<noteq> []"
        "poll_send env t = tc_nio_then call x u" for u x call
    proof -
      note u = that
      have "call \<in> {nio_schedule_read (so_ctl env), nio_schedule_write (so_ctl env), nio_cancel_write (so_ctl env)}"
        using u(4) by auto
      then obtain t' r where a: "tc_nio_then call x u = Some (r, t')" "r = x \<or> r = Failed CtlError" "tcp_ok t'"
        "tc_buf t' = tc_buf u" "inp (tc_kernel t') = inp (tc_kernel u)" "outp (tc_kernel t') = outp (tc_kernel u)"
        "\<exists>r lp'. call (tc_nio u) (tc_loop u, tc_kernel u) = (r, tc_nio t', lp')"
        by (rule tc_nio_then_spec [OF u(1) assms(2)])
      then show thesis using u nio_interest(2) by (intro goal [of r t']) auto
    qed
    show thesis
    proof (cases e)
      case None
      let ?u = "t\<lparr>tc_buf := bb_compact data, tc_kernel := k\<rparr>"
      note c = bb_compact_spec [OF w(2)]
      have u: "tcp_ok ?u" using assms(1) c(1) by (simp add: tcp_ok_def)
      show thesis
        by (rule after [OF u, of "if content data = [] then Ready () else NotReady"
            "if content data = [] then nio_cancel_write (so_ctl env) else nio_schedule_write (so_ctl env)"])
          (use False b True w(1,3,4) None c in \<open>simp_all add: poll_send_def Let_def bb_is_empty_iff\<close>)
    next
      case (Some err)
      let ?u = "t\<lparr>tc_buf := data, tc_kernel := k\<rparr>"
      have u: "tcp_ok ?u" using assms(1) w(2) by (simp add: tcp_ok_def)
      show thesis
      proof (cases "err = WouldBlock")
        case True': True
        show thesis
          by (rule after [OF u, of NotReady "nio_schedule_write (so_ctl env)"])
            (use False b True True' w Some ne in \<open>simp_all add: poll_send_def\<close>)
      next
        case False': False
        then have "poll_send env t = Some (Failed err, ?u)"
          using False b True w(1) Some by (cases err) (simp_all add: poll_send_def)
        with u w show thesis by (intro that [of "Failed err" ?u]) simp_all
      qed
    qed
  qed
qed

section \<open>A connection\<close>

text \<open>The bytes a result brings, those a step gives to the sink, and a receiving that failed.\<close>

definition brought :: "tcp_result \<Rightarrow> u8 list" where
  "brought r = (case r of Received (Ready (Some b)) \<Rightarrow> content b | _ \<Rightarrow> [])"

definition given :: "tcp_step \<Rightarrow> u8 list" where
  "given s = (case s of DoSend b \<Rightarrow> content b | _ \<Rightarrow> [])"

definition step_wf :: "tcp_step \<Rightarrow> bool" where
  "step_wf s = (case s of DoSend b \<Rightarrow> bb_wf b | _ \<Rightarrow> True)"

definition recv_failed :: "tcp_result \<Rightarrow> bool" where
  "recv_failed r = (case r of Received (Failed _) \<Rightarrow> True | _ \<Rightarrow> False)"

text \<open>What a result of the sink means: ready, all has been taken; not ready, the socket waits for writing.\<close>

definition settled :: "tcp_result \<Rightarrow> ('f, 'k) tcp \<Rightarrow> bool" where
  "settled r t = (case r of
       Sent (Ready _) \<Rightarrow> content (tc_buf t) = []
     | Sent NotReady \<Rightarrow> nio_write (tc_nio t)
     | Received NotReady \<Rightarrow> nio_read (tc_nio t)
     | Received (Ready (Some b)) \<Rightarrow> bb_wf b \<and> content b \<noteq> []
     | _ \<Rightarrow> True)"

lemma start_send_spec:
  assumes "tcp_ok t" and "bb_wf data"
  shows "tcp_ok (start_send data t)" and "content (tc_buf (start_send data t)) = content (tc_buf t) @ content data"
    and "tc_kernel (start_send data t) = tc_kernel t"
  using assms by (auto simp: tcp_ok_def start_send_def bb_is_empty_iff bb_extend_wf content_bb_extend)

lemma tcp_close_spec:
  assumes "tcp_ok t" and "tcp_kernel env inp outp"
  obtains r t' where "tcp_close env t = Some (r, t')" "tcp_ok t'" "inp (tc_kernel t') = inp (tc_kernel t)"
    "outp (tc_kernel t') @ content (tc_buf t') = outp (tc_kernel t) @ content (tc_buf t)" "settled (Sent r) t'"
proof -
  obtain r t1 where p: "poll_send env t = Some (r, t1)" "tcp_ok t1" "inp (tc_kernel t1) = inp (tc_kernel t)"
    "outp (tc_kernel t1) @ content (tc_buf t1) = outp (tc_kernel t) @ content (tc_buf t)"
    "r = Ready () \<longrightarrow> content (tc_buf t1) = []" "r = NotReady \<longrightarrow> nio_write (tc_nio t1) \<and> content (tc_buf t1) \<noteq> []"
    by (rule poll_send_spec [OF assms])
  show thesis
  proof (cases "r = Ready ()")
    case False
    with p show thesis by (intro that [of r t1]) (auto simp: tcp_close_def settled_def split: poll.splits)
  next
    case True
    obtain e k where k: "so_shutdown env (tc_kernel t1) = (e, k)" by fastforce
    then have "inp k = inp (tc_kernel t1)" "outp k = outp (tc_kernel t1)"
      using tcp_kernelD(7,8) [OF assms(2), of "tc_kernel t1"] by simp_all
    then have io: "inp k = inp (tc_kernel t)" "outp k @ content (tc_buf t1) = outp (tc_kernel t) @ content (tc_buf t)"
      using p(3,4) by simp_all
    let ?r = "case e of None \<Rightarrow> Ready () | Some e \<Rightarrow> Failed e" and ?t = "t1\<lparr>tc_kernel := k\<rparr>"
    have "tcp_close env t = Some (?r, ?t)" using p(1) True k by (cases e) (simp_all add: tcp_close_def)
    moreover have "tcp_ok ?t" using p(2) by (simp add: tcp_ok_def)
    moreover have "settled (Sent ?r) ?t" using p(5) True by (cases e) (simp_all add: settled_def)
    ultimately show thesis using io by (intro that [of ?r ?t]) simp_all
  qed
qed

lemma get_ready_tasks_total:
  assumes "slab_get tok (sl_schedules sl) \<noteq> None"
  shows "\<exists>ts sl'. get_ready_tasks \<lparr>ev_token = tok, ev_read = r, ev_write = w\<rparr> sl = Some (ts, sl') \<and>
    slab_get tok (sl_schedules sl') \<noteq> None"
  using assms by (auto simp: get_ready_tasks_def slab_get_set split: prod.split)

lemma tcp_step_spec:
  assumes "tcp_ok t" and "tcp_kernel env inp outp" and "step_wf s"
  obtains r t' where "tcp_step env s t = Some (r, t')" "tcp_ok t'" "settled r t'"
    "outp (tc_kernel t') @ content (tc_buf t') = outp (tc_kernel t) @ content (tc_buf t) @ given s"
    "\<not> recv_failed r \<longrightarrow> inp (tc_kernel t) = brought r @ inp (tc_kernel t')"
proof (cases s)
  case DoRecv
  obtain r t' where "poll_recv env t = Some (r, t')" "tcp_ok t'" "tc_buf t' = tc_buf t"
    "outp (tc_kernel t') = outp (tc_kernel t)"
    "case r of Ready (Some b) \<Rightarrow> bb_wf b \<and> content b \<noteq> [] \<and> inp (tc_kernel t) = content b @ inp (tc_kernel t')
       | Failed _ \<Rightarrow> True | _ \<Rightarrow> inp (tc_kernel t') = inp (tc_kernel t)"
    "r = NotReady \<longrightarrow> nio_read (tc_nio t')"
    by (rule poll_recv_spec [OF assms(1,2)])
  note p = this
  have "settled (Received r) t' \<and> (\<not> recv_failed (Received r) \<longrightarrow> inp (tc_kernel t) = brought (Received r) @ inp (tc_kernel t'))"
  proof (cases r)
    case (Ready b)
    with p(5) show ?thesis by (cases b) (simp_all add: settled_def brought_def)
  qed (use p(5,6) in \<open>simp_all add: settled_def brought_def recv_failed_def\<close>)
  with DoRecv p(1-4) show thesis by (intro that [of "Received r" t']) (simp_all add: tcp_step_def given_def)
next
  case (DoSend data)
  then have "bb_wf data" using assms(3) by (simp add: step_wf_def)
  from DoSend start_send_spec [OF assms(1) this] show thesis
    by (intro that [of Accepted "start_send data t"]) (simp_all add: tcp_step_def settled_def given_def brought_def)
next
  case DoComplete
  obtain r t' where "poll_send env t = Some (r, t')" "tcp_ok t'" "inp (tc_kernel t') = inp (tc_kernel t)"
    "outp (tc_kernel t') @ content (tc_buf t') = outp (tc_kernel t) @ content (tc_buf t)"
    "r = Ready () \<longrightarrow> content (tc_buf t') = []" "r = NotReady \<longrightarrow> nio_write (tc_nio t') \<and> content (tc_buf t') \<noteq> []"
    by (rule poll_send_spec [OF assms(1,2)])
  with DoComplete show thesis
    by (intro that [of "Sent r" t']) (auto simp: tcp_step_def settled_def given_def brought_def split: poll.splits)
next
  case DoClose
  obtain r t' where "tcp_close env t = Some (r, t')" "tcp_ok t'" "inp (tc_kernel t') = inp (tc_kernel t)"
    "outp (tc_kernel t') @ content (tc_buf t') = outp (tc_kernel t) @ content (tc_buf t)" "settled (Sent r) t'"
    by (rule tcp_close_spec [OF assms(1,2)])
  with DoClose show thesis
    by (intro that [of "Sent r" t']) (simp_all add: tcp_step_def given_def brought_def)
next
  case (Wakeup rd w)
  obtain ts sl where "get_ready_tasks \<lparr>ev_token = nio_token (tc_nio t), ev_read = rd, ev_write = w\<rparr> (tc_loop t) = Some (ts, sl)"
    "slab_get (nio_token (tc_nio t)) (sl_schedules sl) \<noteq> None"
    using get_ready_tasks_total assms(1) unfolding tcp_ok_def by blast
  with Wakeup assms(1) show thesis
    by (intro that [of "Woken ts" "t\<lparr>tc_loop := sl\<rparr>"]) (simp_all add: tcp_step_def settled_def given_def brought_def tcp_ok_def)
qed

lemma tcp_run_spec:
  assumes "tcp_kernel env inp outp"
  shows "tcp_ok t \<Longrightarrow> list_all step_wf ss \<Longrightarrow> \<exists>rs t'. tcp_run env ss t = Some (rs, t') \<and> length rs = length ss \<and> tcp_ok t' \<and>
    outp (tc_kernel t') @ content (tc_buf t') = outp (tc_kernel t) @ content (tc_buf t) @ concat (map given ss) \<and>
    (list_all (\<lambda>r. \<not> recv_failed r) rs \<longrightarrow> inp (tc_kernel t) = concat (map brought rs) @ inp (tc_kernel t')) \<and>
    (ss \<noteq> [] \<longrightarrow> settled (last rs) t')"
proof (induction ss arbitrary: t)
  case (Cons s ss)
  obtain r t1 where s: "tcp_step env s t = Some (r, t1)" "tcp_ok t1" "settled r t1"
    "outp (tc_kernel t1) @ content (tc_buf t1) = outp (tc_kernel t) @ content (tc_buf t) @ given s"
    "\<not> recv_failed r \<longrightarrow> inp (tc_kernel t) = brought r @ inp (tc_kernel t1)"
    using tcp_step_spec [OF Cons.prems(1) assms] Cons.prems(2) by auto
  obtain rs t' where t': "tcp_run env ss t1 = Some (rs, t')" "length rs = length ss" "tcp_ok t'"
    "outp (tc_kernel t') @ content (tc_buf t') = outp (tc_kernel t1) @ content (tc_buf t1) @ concat (map given ss)"
    "list_all (\<lambda>r. \<not> recv_failed r) rs \<longrightarrow> inp (tc_kernel t1) = concat (map brought rs) @ inp (tc_kernel t')"
    "ss \<noteq> [] \<longrightarrow> settled (last rs) t'"
    using Cons.IH [OF s(2)] Cons.prems(2) by auto
  have "ss = [] \<Longrightarrow> t' = t1 \<and> rs = []" using t'(1) by simp
  then have "settled (last (r # rs)) t'" using s(3) t'(2,6) by (cases "ss = []") auto
  moreover have "outp (tc_kernel t') @ content (tc_buf t') = outp (tc_kernel t) @ content (tc_buf t) @ given s @ concat (map given ss)"
    using s(4) t'(4) by (metis append.assoc)
  ultimately show ?case using s t' by (intro exI [of _ "r # rs"] exI [of _ t']) simp
qed simp

text \<open>Sockets that are new, and those that have been turned into something else.\<close>

definition new_socket :: "(('f, 'k) tcp, 'f sys_loop \<times> 'k) outcome \<Rightarrow> bool" where
  "new_socket r \<longleftrightarrow> (case r of Ok t \<Rightarrow> tcp_ok t \<and> content (tc_buf t) = [] | Err _ \<Rightarrow> True | Panic \<Rightarrow> False)"

definition turned :: "('f, 'k) tcp \<Rightarrow> ('f, 'k) tcp \<Rightarrow> u8 list \<Rightarrow> bool" where
  "turned t t' bytes \<longleftrightarrow> tcp_ok t' \<and> tc_nio t' = tc_nio t \<and> tc_loop t' = tc_loop t \<and> tc_kernel t' = tc_kernel t \<and> content (tc_buf t') = bytes"

lemma new_buffer: "bb_wf bytebuf_new" "content bytebuf_new = []"
  by (simp_all add: bytebuf_new_def bytebuf_with_growth_wf content_bytebuf_with_growth)

lemma tcp_turned:
  assumes "tcp_ok t"
  shows "turned t (recv_into_sender t) []" and "turned t (recv_into_twoway t) []"
    and "turned t (sender_into_recv t) []" and "turned t (sender_into_twoway t) (content (tc_buf t))"
  using assms new_buffer by (simp_all add: turned_def tcp_ok_def recv_into_sender_def recv_into_twoway_def
      sender_into_recv_def sender_into_twoway_def)

lemma tcp_try_from_spec:
  assumes "slab_wf (sl_schedules sl)" and "card (dom (slab_map (sl_schedules sl))) < INVALID_INDEX" and "rb_ok bf"
  shows "new_socket (tcp_try_from env bf (sl, k)) \<and> new_socket (tcp_split env bf (sl, k))"
proof -
  obtain i s' where i: "slab_insert (schedule_new (sl_current sl)) (sl_schedules sl) = (Ok i, s')"
    "slab_map s' = (slab_map (sl_schedules sl))(i \<mapsto> schedule_new (sl_current sl))"
    using slab_insert_spec [OF assms(1,2)] by blast
  then have "slab_get i s' \<noteq> None" by (metis slab_map_def fun_upd_same option.distinct(1))
  with i(1) assms(3) new_buffer show ?thesis
    by (simp add: new_socket_def tcp_try_from_def tcp_split_def nio_try_from_def sys_schedule_def tcp_ok_def split: prod.splits bool.splits)
qed

text \<open>
  C31. Whatever the order of receiving, sending, completing, closing and events, no call on a connection
  panics. What was given to the sink is what the kernel has taken followed by what is still buffered: in
  order, nothing lost, nothing twice, however little the kernel takes at a time. As long as no receiving
  fails, the buffers received are well formed and bring the peer's bytes in the same way. The sink reports
  that it is flushed, or closed, only if nothing is buffered, and a call that is not ready has noted its
  interest. A new socket, or pair of halves, is such a connection, with nothing buffered, or the error of the poller;
  and so is one that is turned into another kind: what is buffered is kept if a sender becomes two halves and
  dropped if it becomes a receiver.
\<close>

theorem tcp_bytes_kept:
  assumes "tcp_kernel env inp outp" and "tcp_ok t" and "list_all step_wf ss"
  shows "(\<exists>rs t'. tcp_run env ss t = Some (rs, t') \<and> tcp_ok t' \<and>
      outp (tc_kernel t') @ content (tc_buf t') = outp (tc_kernel t) @ content (tc_buf t) @ concat (map given ss) \<and>
      (list_all (\<lambda>r. \<not> recv_failed r) rs \<longrightarrow> inp (tc_kernel t) = concat (map brought rs) @ inp (tc_kernel t')) \<and>
      (ss \<noteq> [] \<longrightarrow> settled (last rs) t')) \<and>
    (slab_wf (sl_schedules sl) \<and> card (dom (slab_map (sl_schedules sl))) < INVALID_INDEX \<and> rb_ok bf \<longrightarrow>
      new_socket (tcp_try_from env bf (sl, k)) \<and> new_socket (tcp_split env bf (sl, k))) \<and>
    turned t (recv_into_sender t) [] \<and> turned t (recv_into_twoway t) [] \<and>
    turned t (sender_into_recv t) [] \<and> turned t (sender_into_twoway t) (content (tc_buf t))"
  by (intro conjI impI tcp_turned [OF assms(2)])
    (use tcp_run_spec [OF assms] in \<open>blast\<close>, simp_all add: tcp_try_from_spec)

text \<open>A kernel that hands over two bytes at a time and takes one at a time: input, and output.\<close>

definition slow_kernel :: "(u8 list \<times> u8 list) kernel" where
  "slow_kernel = \<lparr>so_readv = (\<lambda>cs (i, o'). let n = min 2 (sum_list cs) in if i = [] then (Inl WouldBlock, [], o') else (Inr (take n i), drop n i, o')),
     so_writev = (\<lambda>iovs (i, o'). (Inr (min 1 (length (concat iovs))), i, o' @ take 1 (concat iovs))),
     so_ctl = (\<lambda>ops tok k. (True, k)), so_del = (\<lambda>k. (True, k)), so_shutdown = (\<lambda>k. (None, k)), so_take_error = (\<lambda>k. (Inr None, k))\<rparr>"

lemma slow_kernel_ok: "tcp_kernel slow_kernel fst snd"
  unfolding tcp_kernel_def
  by (auto simp: slow_kernel_def Let_def min_def split: if_splits)

definition sample_tcp :: "(nat, u8 list \<times> u8 list) tcp" where
  "sample_tcp = \<lparr>tc_nio = \<lparr>nio_token = 1, nio_read = False, nio_write = False\<rparr>, tc_recv = recv_buffer_new, tc_buf = bytebuf_new,
     tc_loop = two_tasks, tc_kernel = ([1, 2, 3], [])\<rparr>"

lemma sample_tcp_ok: "tcp_ok sample_tcp"
  by (simp add: tcp_ok_def sample_tcp_def rb_new_ok bytebuf_new_def bytebuf_with_growth_wf two_tasks_def slab_get_def)

theorem tcp_bytes_kept_witness:
  "\<exists>rs t'. tcp_run slow_kernel [DoSend (bytebuf_from [7, 8] 2), DoComplete, DoRecv] sample_tcp = Some (rs, t') \<and>
     snd (tc_kernel t') @ content (tc_buf t') = [7, 8]"
proof -
  have "list_all step_wf [DoSend (bytebuf_from [7, 8] 2), DoComplete, DoRecv]"
    by (simp add: step_wf_def bytebuf_from_wf)
  from conjunct1 [OF tcp_bytes_kept [OF slow_kernel_ok sample_tcp_ok this]] show ?thesis
    by (auto simp: sample_tcp_def given_def content_bytebuf_from bytebuf_new_def content_bytebuf_with_growth)
qed

section \<open>Connecting\<close>

text \<open>The result of the poll of a connection that was in progress, once \<open>take_error\<close> has answered.\<close>

definition connect_result_of :: "'k kernel \<Rightarrow> nio \<Rightarrow> 'f sys_loop \<Rightarrow> 'k \<Rightarrow>
    ((nio, io_error) poll \<times> connect_state \<times> 'f sys_loop \<times> 'k) option \<Rightarrow> bool" where
  "connect_result_of env n sl k res \<longleftrightarrow>
     (case so_take_error env k of
        (Inl e, k1) \<Rightarrow> res = Some (Failed e, Done, nio_drop (so_del env) (n\<lparr>nio_write := True\<rparr>) (sl, k1))
      | (Inr (Some e), k1) \<Rightarrow> res = Some (Failed e, Done, nio_drop (so_del env) (n\<lparr>nio_write := True\<rparr>) (sl, k1))
      | (Inr None, k1) \<Rightarrow>
          (case so_ctl env (nio_read n, False) (nio_token n) k1 of
             (True, k2) \<Rightarrow> \<exists>sl1. res = Some (Ready n, Done, sl1, k2) \<and> nio_is_write_ready n sl1 = Some True
           | (False, k2) \<Rightarrow> res = Some (Failed CtlError, Done, nio_drop (so_del env) n (sl, k2))))"

lemma write_flag: "\<not> nio_write n \<Longrightarrow> n\<lparr>nio_write := True, nio_write := False\<rparr> = n" "\<not> nio_write n \<Longrightarrow> n\<lparr>nio_write := False\<rparr> = n"
  by (cases n, simp)+

lemma no_interest_ready: "\<not> nio_write n \<Longrightarrow> nio_is_write_ready n sl = Some True"
  by (simp add: nio_is_write_ready_def)

lemma connect_finishing:
  assumes "slab_get (nio_token n) (sl_schedules sl) = Some s" and "sc_write_ready s" and "\<not> nio_write n"
  shows "connect_result_of env n sl k (poll_connect env (Finishing (n\<lparr>nio_write := True\<rparr>), sl, k))"
proof -
  let ?n = "n\<lparr>nio_write := True\<rparr>"
  have ready: "nio_is_write_ready ?n sl = Some True" using assms(1,2) by (simp add: nio_is_write_ready_def)
  obtain r k1 where t: "so_take_error env k = (r, k1)" by fastforce
  show ?thesis
  proof (cases "r = Inr None")
    case False
    then show ?thesis using ready t
      by (cases r) (auto simp: connect_result_of_def poll_connect_def split: option.split)
  next
    case True
    obtain b k2 where c: "so_ctl env (nio_read n, False) (nio_token n) k1 = (b, k2)" by fastforce
    have "nio_cancel_write (so_ctl env) ?n (sl, k1) =
        (if b then (Ok (), n, sl\<lparr>sl_schedules := slab_set (nio_token n) (s\<lparr>sc_write_ready := True\<rparr>) (sl_schedules sl)\<rparr>, k2)
         else (Err (), n, sl, k2))"
      using c assms(1,3) by (cases b) (simp_all add: nio_cancel_write_def nio_reregister_def sys_cancel_write_def
          change_schedule_def write_flag)
    with ready t True c assms(3) show ?thesis
      by (cases b) (simp_all add: connect_result_of_def poll_connect_def no_interest_ready)
  qed
qed

text \<open>
  C32. A connection in progress asks for the socket to become writable when it is first polled, and is
  not ready until that event, which wakes the task that polled it. The next poll ends it: with a socket
  that waits for nothing if \<open>take_error\<close> reports none, and else with the error, the socket having been
  dropped. A poll that is ready or fails leaves nothing to poll: the next one panics. A listener is made by the
  calls its builder names, in order, and is there only if all of them succeed; the first that fails is the
  error, with the socket closed. With only a port it listens on every address, with a backlog of 128.
\<close>

theorem tcp_connect_correct:
  assumes "slab_get (nio_token n) (sl_schedules sl) = Some s" and "\<not> nio_write n"
    and "so_ctl env (nio_read n, True) (nio_token n) k = (True, k1)"
  shows "(\<exists>sl1. poll_connect env (Connecting n, sl, k) = Some (NotReady, Finishing (n\<lparr>nio_write := True\<rparr>), sl1, k1) \<and>
      (\<forall>k2. poll_connect env (Finishing (n\<lparr>nio_write := True\<rparr>), sl1, k2) = Some (NotReady, Finishing (n\<lparr>nio_write := True\<rparr>), sl1, k2)) \<and>
      (\<exists>sl2. get_ready_tasks \<lparr>ev_token = nio_token n, ev_read = False, ev_write = True\<rparr> sl1 = Some (Single (sl_current sl), sl2) \<and>
        (\<forall>k2. connect_result_of env n sl2 k2 (poll_connect env (Finishing (n\<lparr>nio_write := True\<rparr>), sl2, k2))))) \<and>
    (poll_connect env c = Some (r, c') \<and> r \<noteq> NotReady \<longrightarrow> fst c' = Done \<and> poll_connect env c' = None) \<and>
    built net b k0 \<and>
    listen_calls (lb_set_port p lb_default) = [ReuseAddress True, BindTo (Addr4 0 p), ListenFor 128, SetNonblocking True]"
proof (intro conjI impI lb_build_built port_calls)
  let ?n = "n\<lparr>nio_write := True\<rparr>"
  let ?s1 = "s\<lparr>sc_write_ready := False, sc_write_task := sl_current sl\<rparr>"
  let ?sl1 = "sl\<lparr>sl_schedules := slab_set (nio_token n) ?s1 (sl_schedules sl)\<rparr>"
  let ?sl2 = "?sl1\<lparr>sl_schedules := slab_set (nio_token n) (?s1\<lparr>sc_write_ready := True\<rparr>) (sl_schedules ?sl1)\<rparr>"
  have g: "slab_get (nio_token n) (sl_schedules sl) \<noteq> None" by (simp add: assms(1))
  note set1 = slab_get_set [OF g]
  have g1: "slab_get (nio_token n) (sl_schedules ?sl1) = Some ?s1" by (simp add: set1)
  then have set2: "slab_get (nio_token n) (sl_schedules ?sl2) = Some (?s1\<lparr>sc_write_ready := True\<rparr>)"
    using slab_get_set [of "nio_token n" "sl_schedules ?sl1"] by simp
  have "poll_connect env (Connecting n, sl, k) = Some (NotReady, Finishing ?n, ?sl1, k1)"
    using assms by (simp add: poll_connect_def nio_schedule_write_def nio_reregister_def sys_schedule_write_def change_schedule_def)
  moreover have "poll_connect env (Finishing ?n, ?sl1, k2) = Some (NotReady, Finishing ?n, ?sl1, k2)" for k2
    using g1 by (simp add: poll_connect_def nio_is_write_ready_def)
  moreover have "get_ready_tasks \<lparr>ev_token = nio_token n, ev_read = False, ev_write = True\<rparr> ?sl1 = Some (Single (sl_current sl), ?sl2)"
    using g1 by (simp add: get_ready_tasks_def ready_of_def)
  moreover have "connect_result_of env n ?sl2 k2 (poll_connect env (Finishing ?n, ?sl2, k2))" for k2
    by (rule connect_finishing [OF set2 _ assms(2)]) simp
  ultimately show "\<exists>sl1. poll_connect env (Connecting n, sl, k) = Some (NotReady, Finishing ?n, sl1, k1) \<and>
      (\<forall>k2. poll_connect env (Finishing ?n, sl1, k2) = Some (NotReady, Finishing ?n, sl1, k2)) \<and>
      (\<exists>sl2. get_ready_tasks \<lparr>ev_token = nio_token n, ev_read = False, ev_write = True\<rparr> sl1 = Some (Single (sl_current sl), sl2) \<and>
        (\<forall>k2. connect_result_of env n sl2 k2 (poll_connect env (Finishing ?n, sl2, k2))))"
    by blast
next
  assume *: "poll_connect env c = Some (r, c') \<and> r \<noteq> NotReady"
  obtain st sl0 k0 where "c = (st, sl0, k0)" by (cases c)
  with * show "fst c' = Done"
    by (cases st) (auto simp: poll_connect_def split: prod.splits outcome.splits option.splits bool.splits sum.splits)
  then show "poll_connect env c' = None" by (cases c') (simp add: poll_connect_def)
qed

theorem tcp_connect_correct_witness:
  "\<exists>sl1. poll_connect slow_kernel (Connecting \<lparr>nio_token = 1, nio_read = False, nio_write = False\<rparr>, two_tasks, ([], [])) =
     Some (NotReady, Finishing \<lparr>nio_token = 1, nio_read = False, nio_write = True\<rparr>, sl1, ([], []))"
proof -
  let ?n = "\<lparr>nio_token = 1, nio_read = False, nio_write = False\<rparr>"
  have "slab_get (nio_token ?n) (sl_schedules two_tasks) = Some (schedule_new 1)" "\<not> nio_write ?n"
    "so_ctl slow_kernel (nio_read ?n, True) (nio_token ?n) ([], []) = (True, ([], []))"
    by (simp_all add: two_tasks_def slab_get_def slow_kernel_def)
  from conjunct1 [OF tcp_connect_correct [OF this, of "(Done, two_tasks, ([], []))" NotReady "(Done, two_tasks, ([], []))"]]
  show ?thesis by (elim exE conjE) simp
qed

end
