(* ===== verification/Tcp_Windows_Correct.thy ===== *)
theory Tcp_Windows_Correct
  imports Tcp_Windows Tcp_Correct
begin

text \<open>
  Streams on Windows: the bytes are kept as on unix although the kernel may hold a sending operation, and its
  slices, across several polls. The faults of the code are shown in \<open>Messages\<close>, which needs the streams of messages.
\<close>

section \<open>The contract of the kernel\<close>

text \<open>
  \<open>inp\<close> and \<open>outp\<close> are as in \<open>Tcp_Correct\<close>; \<open>flight\<close> are the bytes of the sending operation that is pending.
  Reading no bytes takes none, whether it waits or not; a reading that waits on slices of its own may take any.
\<close>

definition win_contract :: "'k win_kernel \<Rightarrow> ('k \<Rightarrow> u8 list) \<Rightarrow> ('k \<Rightarrow> u8 list) \<Rightarrow> ('k \<Rightarrow> u8 list option) \<Rightarrow> bool" where
  "win_contract env inp outp flight \<longleftrightarrow>
     (\<forall>cs k r k'. ws_recv env cs k = (r, k') \<longrightarrow> outp k' = outp k \<and> flight k' = flight k \<and>
        (case r of Inr bs \<Rightarrow> length bs \<le> sum_list cs \<and> inp k = bs @ inp k' | Inl _ \<Rightarrow> sum_list cs = 0 \<longrightarrow> inp k' = inp k)) \<and>
     (\<forall>iovs k r k'. ws_send env iovs k = (r, k') \<longrightarrow> inp k' = inp k \<and>
        (case r of Inr n \<Rightarrow> n \<le> length (concat iovs) \<and> outp k' = outp k @ take n (concat iovs)
         | Inl e \<Rightarrow> outp k' = outp k \<and> (e = WouldBlock \<longrightarrow> flight k' = Some (concat iovs)))) \<and>
     (\<forall>bs k r k'. ws_result env False k = (r, k') \<and> flight k = Some bs \<longrightarrow> inp k' = inp k \<and>
        (case r of Inr n \<Rightarrow> n \<le> length bs \<and> outp k' = outp k @ take n bs | Inl _ \<Rightarrow> outp k' = outp k)) \<and>
     (\<forall>k r k'. ws_result env True k = (r, k') \<longrightarrow> inp k' = inp k \<and> outp k' = outp k \<and> flight k' = flight k) \<and>
     (\<forall>k r k'. ws_shutdown env k = (r, k') \<longrightarrow> inp k' = inp k \<and> outp k' = outp k \<and> flight k' = flight k)"

lemma win_contractD:
  assumes "win_contract env inp outp flight"
  shows "ws_recv env cs k = (r, k') \<Longrightarrow> outp k' = outp k \<and> flight k' = flight k"
    and "ws_recv env cs k = (Inr bs, k') \<Longrightarrow> length bs \<le> sum_list cs \<and> inp k = bs @ inp k'"
    and "ws_recv env [0] k = (r, k') \<Longrightarrow> inp k' = inp k"
    and "ws_send env iovs k = (q, k') \<Longrightarrow> inp k' = inp k"
    and "ws_send env iovs k = (Inr n, k') \<Longrightarrow> n \<le> length (concat iovs) \<and> outp k' = outp k @ take n (concat iovs)"
    and "ws_send env iovs k = (Inl e, k') \<Longrightarrow> outp k' = outp k \<and> (e = WouldBlock \<longrightarrow> flight k' = Some (concat iovs))"
    and "ws_result env False k = (q, k') \<Longrightarrow> flight k = Some bs \<Longrightarrow> inp k' = inp k"
    and "ws_result env False k = (Inr n, k') \<Longrightarrow> flight k = Some bs \<Longrightarrow> n \<le> length bs \<and> outp k' = outp k @ take n bs"
    and "ws_result env False k = (Inl e, k') \<Longrightarrow> flight k = Some bs \<Longrightarrow> outp k' = outp k"
    and "ws_result env True k = (q, k') \<Longrightarrow> inp k' = inp k \<and> outp k' = outp k \<and> flight k' = flight k"
    and "ws_shutdown env k = (e', k') \<Longrightarrow> inp k' = inp k \<and> outp k' = outp k \<and> flight k' = flight k"
proof -
  note c = assms [unfolded win_contract_def]
  note recv = conjunct1 [OF c] and send = conjunct1 [OF conjunct2 [OF c]]
    and res = conjunct1 [OF conjunct2 [OF conjunct2 [OF c]]]
  show "ws_recv env cs k = (r, k') \<Longrightarrow> outp k' = outp k \<and> flight k' = flight k" using recv by blast
  show "ws_recv env cs k = (Inr bs, k') \<Longrightarrow> length bs \<le> sum_list cs \<and> inp k = bs @ inp k'"
    using recv [rule_format, of cs k "Inr bs" k'] by simp
  show "ws_recv env [0] k = (r, k') \<Longrightarrow> inp k' = inp k" using recv [rule_format, of "[0]" k r k'] by (cases r) simp_all
  show "ws_send env iovs k = (q, k') \<Longrightarrow> inp k' = inp k" using send by blast
  show "ws_send env iovs k = (Inr n, k') \<Longrightarrow> n \<le> length (concat iovs) \<and> outp k' = outp k @ take n (concat iovs)"
    using send [rule_format, of iovs k "Inr n" k'] by simp
  show "ws_send env iovs k = (Inl e, k') \<Longrightarrow> outp k' = outp k \<and> (e = WouldBlock \<longrightarrow> flight k' = Some (concat iovs))"
    using send [rule_format, of iovs k "Inl e" k'] by simp
  show "ws_result env False k = (q, k') \<Longrightarrow> flight k = Some bs \<Longrightarrow> inp k' = inp k" using res by blast
  show "ws_result env False k = (Inr n, k') \<Longrightarrow> flight k = Some bs \<Longrightarrow> n \<le> length bs \<and> outp k' = outp k @ take n bs"
    using res [rule_format, of k "Inr n" k' bs] by simp
  show "ws_result env False k = (Inl e, k') \<Longrightarrow> flight k = Some bs \<Longrightarrow> outp k' = outp k"
    using res [rule_format, of k "Inl e" k' bs] by simp
  show "ws_result env True k = (q, k') \<Longrightarrow> inp k' = inp k \<and> outp k' = outp k \<and> flight k' = flight k" using c by blast
  show "ws_shutdown env k = (e', k') \<Longrightarrow> inp k' = inp k \<and> outp k' = outp k \<and> flight k' = flight k" using c by blast
qed

section \<open>One operation\<close>

text \<open>While a sending operation is pending, its bytes are the first of the buffer.\<close>

definition win_ok :: "('k \<Rightarrow> u8 list option) \<Rightarrow> ('f, 'k) win_tcp \<Rightarrow> bool" where
  "win_ok flight t \<longleftrightarrow> rb_ok (wt_recv t) \<and> bb_wf (wt_buf t) \<and> slab_get (wt_token t) (sl_schedules (wt_loop t)) \<noteq> None \<and>
     (wt_send_pending t \<longrightarrow> (\<exists>bs ys. flight (wt_kernel t) = Some bs \<and> content (wt_buf t) = bs @ ys \<and> bs \<noteq> []))"

lemma win_schedule_total:
  assumes "slab_get tok (sl_schedules sl) \<noteq> None"
  shows "\<exists>sl'. win_schedule_read tok sl = Some sl' \<and> slab_get tok (sl_schedules sl') \<noteq> None"
    and "\<exists>sl'. win_schedule_write tok sl = Some sl' \<and> slab_get tok (sl_schedules sl') \<noteq> None"
  using assms by (auto simp: win_schedule_read_def win_schedule_write_def sys_schedule_read_def sys_schedule_write_def
      change_schedule_def slab_get_set)

text \<open>What a poll of the receiver keeps and brings.\<close>

definition win_recv_post :: "('k \<Rightarrow> u8 list) \<Rightarrow> ('k \<Rightarrow> u8 list) \<Rightarrow> ('k \<Rightarrow> u8 list option) \<Rightarrow>
    ('f, 'k) win_tcp \<Rightarrow> (bytebuf option, io_error) poll \<Rightarrow> ('f, 'k) win_tcp \<Rightarrow> bool" where
  "win_recv_post inp outp flight t r t' \<longleftrightarrow> win_ok flight t' \<and> wt_buf t' = wt_buf t \<and> outp (wt_kernel t') = outp (wt_kernel t) \<and>
     (case r of Ready (Some b) \<Rightarrow> bb_wf b \<and> content b \<noteq> [] \<and> inp (wt_kernel t) = content b @ inp (wt_kernel t')
      | Failed _ \<Rightarrow> True | _ \<Rightarrow> inp (wt_kernel t') = inp (wt_kernel t)) \<and>
     (r = NotReady \<longrightarrow> wt_recv_pending t')"

lemma win_recv_now_spec:
  assumes "win_ok flight t" and "win_contract env inp outp flight"
  obtains r t' where "win_recv_now env t = (r, t')" "win_recv_post inp outp flight t r t'"
proof -
  obtain b1 b2 where p: "rb_pair (wt_recv t) = (b1, b2)" by fastforce
  obtain r k where rd: "ws_recv env [cap b1, cap b2] (wt_kernel t) = (r, k)" by fastforce
  note keep = win_contractD(1) [OF assms(2) rd]
  have ok: "rb_ok (wt_recv t)" using assms(1) by (simp add: win_ok_def)
  show thesis
  proof (cases r)
    case (Inl e)
    note rv = rb_readv_error [where r = "ws_recv env", OF p rd [unfolded Inl]]
    show thesis
      by (rule that [of "Failed e" "t\<lparr>wt_recv := wt_recv t, wt_kernel := k\<rparr>"])
        (use rv keep assms(1) in \<open>simp_all add: win_recv_now_def win_rb_readv_def win_recv_post_def win_ok_def\<close>)
  next
    case (Inr bytes)
    note k = win_contractD(2) [OF assms(2) rd [unfolded Inr]]
    obtain bf where bf: "rb_ok bf" "if bytes = [] then rb_readv (ws_recv env) (wt_recv t) (wt_kernel t) = (Inr None, bf, k)
      else \<exists>buf. rb_readv (ws_recv env) (wt_recv t) (wt_kernel t) = (Inr (Some (buf, length bytes)), bf, k) \<and> bb_wf buf \<and> content buf = bytes"
      using rb_readv_bytes [where r = "ws_recv env", OF ok p rd [unfolded Inr]] k by auto
    let ?t = "t\<lparr>wt_recv := bf, wt_kernel := k\<rparr>"
    have t: "win_ok flight ?t" using assms(1) bf(1) keep by (simp add: win_ok_def)
    show thesis
    proof (cases "bytes = []")
      case True
      with bf(2) t k keep show thesis
        by (intro that [of "Ready None" ?t]) (simp_all add: win_recv_now_def win_rb_readv_def win_recv_post_def)
    next
      case False
      with bf(2) obtain buf where "rb_readv (ws_recv env) (wt_recv t) (wt_kernel t) = (Inr (Some (buf, length bytes)), bf, k)"
        "bb_wf buf" "content buf = bytes" by auto
      with t k keep False show thesis
        by (intro that [of "Ready (Some buf)" ?t]) (simp_all add: win_recv_now_def win_rb_readv_def win_recv_post_def)
    qed
  qed
qed

lemma win_poll_recv_spec:
  assumes "win_ok flight t" and "win_contract env inp outp flight"
  obtains r t' where "win_poll_recv env t = Some (r, t')" "win_recv_post inp outp flight t r t'"
proof -
  note goal = that
  have g: "slab_get (wt_token t) (sl_schedules (wt_loop t)) \<noteq> None" using assms(1) by (simp add: win_ok_def)
  have now: thesis
    if "win_ok flight u" "win_poll_recv env t = Some (win_recv_now env u)" "wt_buf u = wt_buf t"
      "inp (wt_kernel u) = inp (wt_kernel t)" "outp (wt_kernel u) = outp (wt_kernel t)" for u
  proof -
    obtain r t' where r: "win_recv_now env u = (r, t')" "win_recv_post inp outp flight u r t'"
      by (rule win_recv_now_spec [OF \<open>win_ok flight u\<close> assms(2)])
    have "win_recv_post inp outp flight u r t' = win_recv_post inp outp flight t r t'"
      by (simp only: win_recv_post_def \<open>wt_buf u = wt_buf t\<close> \<open>inp (wt_kernel u) = inp (wt_kernel t)\<close>
          \<open>outp (wt_kernel u) = outp (wt_kernel t)\<close>)
    with \<open>win_poll_recv env t = Some (win_recv_now env u)\<close> r show thesis by (intro goal [of r t']) simp_all
  qed
  show thesis
  proof (cases "wt_recv_pending t")
    case True
    obtain b where b: "win_is_read_ready (wt_token t) (wt_loop t) = Some b" using g by (auto simp: win_is_read_ready_def)
    obtain r k where r: "ws_result env True (wt_kernel t) = (r, k)" by fastforce
    note keep = win_contractD(10) [OF assms(2) r]
    let ?t = "t\<lparr>wt_recv_pending := False, wt_kernel := k\<rparr>"
    have t: "win_ok flight ?t" using assms(1) keep by (simp add: win_ok_def)
    show thesis
    proof (cases b)
      case False
      with True b assms(1) show thesis by (intro goal [of NotReady t]) (simp_all add: win_poll_recv_def win_recv_post_def)
    next
      case b': True
      show thesis
      proof (cases r)
        case (Inl e)
        with True b b' r t keep show thesis
          by (intro goal [of "Failed e" ?t]) (simp_all add: win_poll_recv_def win_recv_post_def)
      next
        case (Inr n)
        with True b b' r keep show thesis by (intro now [OF t]) (simp_all add: win_poll_recv_def Let_def)
      qed
    qed
  next
    case False
    obtain r k where r: "ws_recv env [0] (wt_kernel t) = (r, k)" by fastforce
    note keep = win_contractD(1,3) [OF assms(2) r]
    let ?t = "t\<lparr>wt_kernel := k\<rparr>"
    have t: "win_ok flight ?t" using assms(1) keep by (simp add: win_ok_def)
    obtain sl where sl: "win_schedule_read (wt_token t) (wt_loop t) = Some sl" "slab_get (wt_token t) (sl_schedules sl) \<noteq> None"
      using win_schedule_total(1) [OF g] by blast
    consider (wait) "r = Inl WouldBlock" | (fail) e where "r = Inl e" "e \<noteq> WouldBlock" | (go) bs where "r = Inr bs" by (cases r) auto
    then show thesis
    proof cases
      case wait
      with False r sl t keep show thesis
        by (intro goal [of NotReady "?t\<lparr>wt_loop := sl, wt_recv_pending := True\<rparr>"])
          (simp_all add: win_poll_recv_def win_recv_post_def win_ok_def)
    next
      case fail
      then have "win_poll_recv env t = Some (Failed e, ?t)" using False r by (cases e) (simp_all add: win_poll_recv_def Let_def)
      with t keep show thesis by (intro goal [of "Failed e" ?t]) (simp_all add: win_recv_post_def)
    next
      case go
      with False r keep show thesis by (intro now [OF t]) (simp_all add: win_poll_recv_def Let_def)
    qed
  qed
qed

subsection \<open>Sending\<close>

text \<open>What a poll of the sender keeps.\<close>

definition win_send_post :: "('k \<Rightarrow> u8 list) \<Rightarrow> ('k \<Rightarrow> u8 list) \<Rightarrow> ('k \<Rightarrow> u8 list option) \<Rightarrow>
    ('f, 'k) win_tcp \<Rightarrow> (unit, io_error) poll \<Rightarrow> ('f, 'k) win_tcp \<Rightarrow> bool" where
  "win_send_post inp outp flight t r t' \<longleftrightarrow> win_ok flight t' \<and> inp (wt_kernel t') = inp (wt_kernel t) \<and>
     outp (wt_kernel t') @ content (wt_buf t') = outp (wt_kernel t) @ content (wt_buf t) \<and>
     (r = Ready () \<longrightarrow> content (wt_buf t') = []) \<and> (r = NotReady \<longrightarrow> content (wt_buf t') \<noteq> [])"

lemma win_writev_spec:
  assumes "bb_wf data" and "content data \<noteq> []" and "win_contract env inp outp flight"
  obtains e data' k' where "win_writev env data k = Some (e, data', k')" "bb_wf data'" "inp k' = inp k"
    "outp k' @ content data' = outp k @ content data" "e \<noteq> None \<longrightarrow> data' = data"
    "e = Some WouldBlock \<longrightarrow> flight k' = Some (content data)"
proof -
  obtain it where it: "\<And>g :: u8 list list getter. bb_get 0 g data = g it" "chain_wf (gi_blocks it)" "gi_rest it = content data"
    using bb_get_Ok [OF assms(1) _ live_not_empty [OF assms(1,2)], of 0] by (metis drop0 le0)
  have iovs: "concat (get_iovs it) = content data" using get_iovs_spec [OF it(2)] it(3) by simp
  obtain r k' where w: "ws_send env (get_iovs it) k = (r, k')" by fastforce
  note i = win_contractD(4) [OF assms(3) w]
  show thesis
  proof (cases r)
    case (Inl e)
    from win_contractD(6) [OF assms(3) w [unfolded Inl]] i w it(1) Inl assms(1) iovs show thesis
      by (intro that [of "Some e" data k']) (simp_all add: win_writev_def)
  next
    case (Inr n)
    obtain m data' where s: "bb_skip n data = (m, data')" by fastforce
    note sk = bb_skip_spec [OF assms(1) s]
    have "win_writev env data k = Some (None, data', k')" using w it(1) s Inr by (simp add: win_writev_def)
    with win_contractD(5) [OF assms(3) w [unfolded Inr]] i sk iovs show thesis
      by (intro that [of None data' k']) simp_all
  qed
qed

lemma win_send_now_spec:
  assumes "win_ok flight t" and "\<not> wt_send_pending t" and "content (wt_buf t) \<noteq> []" and "win_contract env inp outp flight"
  obtains r t' where "win_send_now env t = Some (r, t')" "win_send_post inp outp flight t r t'"
proof -
  have t: "rb_ok (wt_recv t)" "bb_wf (wt_buf t)" "slab_get (wt_token t) (sl_schedules (wt_loop t)) \<noteq> None"
    using assms(1) by (simp_all add: win_ok_def)
  obtain e data k where w: "win_writev env (wt_buf t) (wt_kernel t) = Some (e, data, k)" "bb_wf data"
    "inp k = inp (wt_kernel t)" "outp k @ content data = outp (wt_kernel t) @ content (wt_buf t)"
    "e \<noteq> None \<longrightarrow> data = wt_buf t" "e = Some WouldBlock \<longrightarrow> flight k = Some (content (wt_buf t))"
    by (rule win_writev_spec [OF t(2) assms(3,4)])
  obtain sl where sl: "win_schedule_write (wt_token t) (wt_loop t) = Some sl" "slab_get (wt_token t) (sl_schedules sl) \<noteq> None"
    using win_schedule_total(2) [OF t(3)] by blast
  consider (sent) "e = None" | (wait) "e = Some WouldBlock" | (fail) err where "e = Some err" "err \<noteq> WouldBlock" by fastforce
  then show thesis
  proof cases
    case sent
    note c = bb_compact_spec [OF w(2)]
    show thesis
      by (rule that [of "if content data = [] then Ready () else NotReady" "t\<lparr>wt_buf := bb_compact data, wt_kernel := k\<rparr>"])
        (use sent w(1,3,4) c t assms(2) in \<open>simp_all add: win_send_now_def Let_def bb_is_empty_iff win_send_post_def win_ok_def\<close>)
  next
    case wait
    show thesis
      by (rule that [of NotReady "t\<lparr>wt_send_pending := True, wt_buf := data, wt_loop := sl, wt_kernel := k\<rparr>"])
        (use wait w sl t assms(3) in \<open>simp_all add: win_send_now_def win_send_post_def win_ok_def\<close>)
  next
    case fail
    then have "win_send_now env t = Some (Failed err, t\<lparr>wt_buf := data, wt_kernel := k\<rparr>)"
      using w(1) by (cases err) (simp_all add: win_send_now_def)
    with w t assms(2) show thesis
      by (intro that [of "Failed err" "t\<lparr>wt_buf := data, wt_kernel := k\<rparr>"]) (simp_all add: win_send_post_def win_ok_def)
  qed
qed

text \<open>The result of a pending operation takes bytes off the front of the buffer.\<close>

lemma win_sent_spec:
  assumes "win_ok flight t" and "wt_send_pending t" and "win_contract env inp outp flight"
    and "ws_result env False (wt_kernel t) = (Inr n, k)"
  defines "u \<equiv> t\<lparr>wt_send_pending := False, wt_buf := bb_compact (snd (bb_skip n (wt_buf t))), wt_kernel := k\<rparr>"
  shows "win_ok flight u" and "inp (wt_kernel u) = inp (wt_kernel t)"
    and "outp (wt_kernel u) @ content (wt_buf u) = outp (wt_kernel t) @ content (wt_buf t)"
proof -
  obtain bs ys where f: "flight (wt_kernel t) = Some bs" "content (wt_buf t) = bs @ ys"
    using assms(1,2) by (auto simp: win_ok_def)
  have wf: "bb_wf (wt_buf t)" using assms(1) by (simp add: win_ok_def)
  obtain m data where s: "bb_skip n (wt_buf t) = (m, data)" by fastforce
  note sk = bb_skip_spec [OF wf s]
  then have data: "bb_wf data" "content data = drop n (content (wt_buf t))" by simp_all
  note c = bb_compact_spec [OF data(1)]
  note r = win_contractD(8) [OF assms(3,4) f(1)] and i = win_contractD(7) [OF assms(3,4) f(1)]
  show "win_ok flight u" using assms(1) c s by (simp add: u_def win_ok_def)
  show "inp (wt_kernel u) = inp (wt_kernel t)" using i by (simp add: u_def)
  show "outp (wt_kernel u) @ content (wt_buf u) = outp (wt_kernel t) @ content (wt_buf t)"
    using r c data(2) f(2) s by (simp add: u_def)
qed

lemma win_poll_send_spec:
  assumes "win_ok flight t" and "win_contract env inp outp flight"
  obtains r t' where "win_poll_send env t = Some (r, t')" "win_send_post inp outp flight t r t'"
proof (cases "bb_is_empty (wt_buf t)")
  case True
  with assms(1) show thesis
    by (intro that [of "Ready ()" t]) (simp_all add: win_poll_send_def win_send_post_def win_ok_def bb_is_empty_iff)
next
  case False
  note goal = that
  have wf: "bb_wf (wt_buf t)" using assms(1) by (simp add: win_ok_def)
  have ne: "content (wt_buf t) \<noteq> []" using False bb_is_empty_iff [OF wf] by simp
  obtain b where b: "win_is_write_ready (wt_token t) (wt_loop t) = Some b"
    using assms(1) by (auto simp: win_is_write_ready_def win_ok_def)
  have now: thesis
    if "win_ok flight u" "\<not> wt_send_pending u" "content (wt_buf u) \<noteq> []" "win_poll_send env t = win_send_now env u"
      "inp (wt_kernel u) = inp (wt_kernel t)" "outp (wt_kernel u) @ content (wt_buf u) = outp (wt_kernel t) @ content (wt_buf t)" for u
  proof -
    note u = that
    obtain r t' where "win_send_now env u = Some (r, t')" "win_send_post inp outp flight u r t'"
      by (rule win_send_now_spec [OF u(1-3) assms(2)])
    with u(4-6) show thesis by (intro goal [of r t']) (simp_all add: win_send_post_def)
  qed
  consider (busy) "\<not> b" | (fresh) "b" "\<not> wt_send_pending t" | (pending) "b" "wt_send_pending t" by blast
  then show thesis
  proof cases
    case busy
    with b False ne assms(1) show thesis by (intro goal [of NotReady t]) (simp_all add: win_poll_send_def win_send_post_def)
  next
    case fresh
    with b False show thesis by (intro now [OF assms(1) fresh(2) ne]) (simp_all add: win_poll_send_def)
  next
    case pending
    obtain r k where r: "ws_result env False (wt_kernel t) = (r, k)" by fastforce
    obtain bs where bs: "flight (wt_kernel t) = Some bs" using assms(1) pending(2) by (auto simp: win_ok_def)
    show thesis
    proof (cases r)
      case (Inl e)
      note k = win_contractD(7) [OF assms(2) r bs] win_contractD(9) [OF assms(2) r [unfolded Inl] bs]
      with b False pending r Inl assms(1) show thesis
        by (intro goal [of "Failed e" "t\<lparr>wt_send_pending := False, wt_kernel := k\<rparr>"])
          (simp_all add: win_poll_send_def win_send_post_def win_ok_def)
    next
      case (Inr n)
      let ?data = "bb_compact (snd (bb_skip n (wt_buf t)))"
      let ?u = "t\<lparr>wt_send_pending := False, wt_buf := ?data, wt_kernel := k\<rparr>"
      note u = win_sent_spec [OF assms(1) pending(2) assms(2) r [unfolded Inr]]
      have e: "bb_is_empty ?data \<longleftrightarrow> content ?data = []" using u(1) by (simp add: win_ok_def bb_is_empty_iff)
      show thesis
      proof (cases "content ?data = []")
        case True
        with b False pending r Inr u e show thesis
          by (intro goal [of "Ready ()" ?u]) (simp_all add: win_poll_send_def win_send_post_def Let_def)
      next
        case ne': False
        with b False pending r Inr e show thesis
          by (intro now [OF u(1) _ _ _ u(2,3)]) (simp_all add: win_poll_send_def Let_def)
      qed
    qed
  qed
qed

section \<open>A connection\<close>

text \<open>What a result means: a receiver that is not ready waits for its operation.\<close>

definition win_settled :: "tcp_result \<Rightarrow> ('f, 'k) win_tcp \<Rightarrow> bool" where
  "win_settled r t = (case r of
       Sent (Ready _) \<Rightarrow> content (wt_buf t) = []
     | Sent NotReady \<Rightarrow> content (wt_buf t) \<noteq> []
     | Received NotReady \<Rightarrow> wt_recv_pending t
     | Received (Ready (Some b)) \<Rightarrow> bb_wf b \<and> content b \<noteq> []
     | _ \<Rightarrow> True)"

lemma win_start_send_spec:
  assumes "win_ok flight t" and "bb_wf data"
  shows "win_ok flight (win_start_send data t)" and "content (wt_buf (win_start_send data t)) = content (wt_buf t) @ content data"
    and "wt_kernel (win_start_send data t) = wt_kernel t"
  using assms by (auto simp: win_ok_def win_start_send_def bb_is_empty_iff bb_extend_wf content_bb_extend)

lemma win_close_spec:
  assumes "win_ok flight t" and "win_contract env inp outp flight"
  obtains r t' where "win_close env t = Some (r, t')" "win_ok flight t'" "inp (wt_kernel t') = inp (wt_kernel t)"
    "outp (wt_kernel t') @ content (wt_buf t') = outp (wt_kernel t) @ content (wt_buf t)" "win_settled (Sent r) t'"
proof -
  obtain r t1 where p: "win_poll_send env t = Some (r, t1)" "win_send_post inp outp flight t r t1"
    by (rule win_poll_send_spec [OF assms])
  show thesis
  proof (cases "r = Ready ()")
    case False
    with p show thesis
      by (intro that [of r t1]) (auto simp: win_close_def win_send_post_def win_settled_def split: poll.splits)
  next
    case True
    obtain e k where k: "ws_shutdown env (wt_kernel t1) = (e, k)" by fastforce
    note keep = win_contractD(11) [OF assms(2) k]
    let ?r = "case e of None \<Rightarrow> Ready () | Some e \<Rightarrow> Failed e" and ?t = "t1\<lparr>wt_kernel := k\<rparr>"
    have "win_close env t = Some (?r, ?t)" using p(1) True k by (cases e) (simp_all add: win_close_def)
    moreover have "win_ok flight ?t" using p(2) keep by (simp add: win_send_post_def win_ok_def)
    moreover have "win_settled (Sent ?r) ?t" using p(2) True by (cases e) (simp_all add: win_send_post_def win_settled_def)
    ultimately show thesis using p(2) keep by (intro that [of ?r ?t]) (simp_all add: win_send_post_def)
  qed
qed

lemma iocp_get_ready_tasks_total:
  assumes "slab_get (io_token ev) (sl_schedules sl) \<noteq> None"
  shows "\<exists>ts sl'. iocp_get_ready_tasks ev sl = Some (ts, sl') \<and> slab_get (io_token ev) (sl_schedules sl') \<noteq> None"
  using assms by (auto simp: iocp_get_ready_tasks_def slab_get_set split: prod.split)

lemma win_step_spec:
  assumes "win_ok flight t" and "win_contract env inp outp flight" and "step_wf s"
  obtains r t' where "win_step env s t = Some (r, t')" "win_ok flight t'" "win_settled r t'"
    "outp (wt_kernel t') @ content (wt_buf t') = outp (wt_kernel t) @ content (wt_buf t) @ given s"
    "\<not> recv_failed r \<longrightarrow> inp (wt_kernel t) = brought r @ inp (wt_kernel t')"
proof (cases s)
  case DoRecv
  obtain r t' where p: "win_poll_recv env t = Some (r, t')" "win_recv_post inp outp flight t r t'"
    by (rule win_poll_recv_spec [OF assms(1,2)])
  have "win_settled (Received r) t' \<and> (\<not> recv_failed (Received r) \<longrightarrow> inp (wt_kernel t) = brought (Received r) @ inp (wt_kernel t'))"
  proof (cases r)
    case (Ready b)
    with p(2) show ?thesis by (cases b) (simp_all add: win_recv_post_def win_settled_def brought_def)
  qed (use p(2) in \<open>simp_all add: win_recv_post_def win_settled_def brought_def recv_failed_def\<close>)
  with DoRecv p show thesis
    by (intro that [of "Received r" t']) (simp_all add: win_step_def win_recv_post_def given_def)
next
  case (DoSend data)
  then have "bb_wf data" using assms(3) by (simp add: step_wf_def)
  from DoSend win_start_send_spec [OF assms(1) this] show thesis
    by (intro that [of Accepted "win_start_send data t"]) (simp_all add: win_step_def win_settled_def given_def brought_def)
next
  case DoComplete
  obtain r t' where "win_poll_send env t = Some (r, t')" "win_send_post inp outp flight t r t'"
    by (rule win_poll_send_spec [OF assms(1,2)])
  with DoComplete show thesis
    by (intro that [of "Sent r" t'])
      (auto simp: win_step_def win_send_post_def win_settled_def given_def brought_def split: poll.splits)
next
  case DoClose
  obtain r t' where "win_close env t = Some (r, t')" "win_ok flight t'" "inp (wt_kernel t') = inp (wt_kernel t)"
    "outp (wt_kernel t') @ content (wt_buf t') = outp (wt_kernel t) @ content (wt_buf t)" "win_settled (Sent r) t'"
    by (rule win_close_spec [OF assms(1,2)])
  with DoClose show thesis
    by (intro that [of "Sent r" t']) (simp_all add: win_step_def given_def brought_def)
next
  case (Wakeup rd w)
  let ?ev = "\<lparr>io_token = wt_token t, io_read = rd\<rparr>"
  have "slab_get (io_token ?ev) (sl_schedules (wt_loop t)) \<noteq> None" using assms(1) by (simp add: win_ok_def)
  from iocp_get_ready_tasks_total [OF this] obtain ts sl where
    "iocp_get_ready_tasks ?ev (wt_loop t) = Some (ts, sl)" "slab_get (wt_token t) (sl_schedules sl) \<noteq> None" by auto
  with Wakeup assms(1) show thesis
    by (intro that [of "Woken ts" "t\<lparr>wt_loop := sl\<rparr>"])
      (simp_all add: win_step_def win_settled_def given_def brought_def win_ok_def)
qed

lemma win_run_spec:
  assumes "win_contract env inp outp flight"
  shows "win_ok flight t \<Longrightarrow> list_all step_wf ss \<Longrightarrow> \<exists>rs t'. win_run env ss t = Some (rs, t') \<and> win_ok flight t' \<and>
    outp (wt_kernel t') @ content (wt_buf t') = outp (wt_kernel t) @ content (wt_buf t) @ concat (map given ss) \<and>
    (list_all (\<lambda>r. \<not> recv_failed r) rs \<longrightarrow> inp (wt_kernel t) = concat (map brought rs) @ inp (wt_kernel t')) \<and>
    (ss \<noteq> [] \<longrightarrow> win_settled (last rs) t')"
proof (induction ss arbitrary: t)
  case (Cons s ss)
  obtain r t1 where s: "win_step env s t = Some (r, t1)" "win_ok flight t1" "win_settled r t1"
    "outp (wt_kernel t1) @ content (wt_buf t1) = outp (wt_kernel t) @ content (wt_buf t) @ given s"
    "\<not> recv_failed r \<longrightarrow> inp (wt_kernel t) = brought r @ inp (wt_kernel t1)"
    using win_step_spec [OF Cons.prems(1) assms] Cons.prems(2) by auto
  obtain rs t' where t': "win_run env ss t1 = Some (rs, t')" "win_ok flight t'"
    "outp (wt_kernel t') @ content (wt_buf t') = outp (wt_kernel t1) @ content (wt_buf t1) @ concat (map given ss)"
    "list_all (\<lambda>r. \<not> recv_failed r) rs \<longrightarrow> inp (wt_kernel t1) = concat (map brought rs) @ inp (wt_kernel t')"
    "ss \<noteq> [] \<longrightarrow> win_settled (last rs) t'"
    using Cons.IH [OF s(2)] Cons.prems(2) by auto
  have "rs \<noteq> []" if "ss \<noteq> []" using t'(1) that by (cases ss) (auto simp: bind_eq_Some_conv)
  moreover have "ss = [] \<Longrightarrow> t' = t1 \<and> rs = []" using t'(1) by simp
  ultimately have "win_settled (last (r # rs)) t'" using s(3) t'(5) by (cases "ss = []") auto
  moreover have "outp (wt_kernel t') @ content (wt_buf t') = outp (wt_kernel t) @ content (wt_buf t) @ given s @ concat (map given ss)"
    using s(4) t'(3) by (metis append.assoc)
  ultimately show ?case using s t' by (intro exI [of _ "r # rs"] exI [of _ t']) simp
qed simp

text \<open>Connections that have been turned into something else.\<close>

definition win_turned :: "('k \<Rightarrow> u8 list option) \<Rightarrow> ('f, 'k) win_tcp \<Rightarrow> ('f, 'k) win_tcp \<Rightarrow> bool \<times> bool \<Rightarrow> u8 list \<Rightarrow> bool" where
  "win_turned flight t t' pend bytes \<longleftrightarrow> win_ok flight t' \<and> wt_token t' = wt_token t \<and> wt_loop t' = wt_loop t \<and>
     wt_kernel t' = wt_kernel t \<and> (wt_recv_pending t', wt_send_pending t') = pend \<and> content (wt_buf t') = bytes"

lemma win_turned:
  assumes "win_ok flight t"
  shows "win_turned flight t (win_recv_into_sender t) (False, False) []"
    and "win_turned flight t (win_recv_into_twoway t) (wt_recv_pending t, False) []"
    and "win_turned flight t (win_sender_into_recv t) (False, False) []"
    and "win_turned flight t (win_sender_into_twoway t) (False, wt_send_pending t) (content (wt_buf t))"
  using assms new_buffer
  by (simp_all add: win_turned_def win_ok_def win_recv_into_sender_def win_recv_into_twoway_def win_sender_into_recv_def
      win_sender_into_twoway_def)

text \<open>
  C33. On Windows, where the kernel may hold the slices of a sending operation while more data is given to
  the sink, no call on a connection panics whatever the order of receiving, sending, completing, closing and
  events. What was given to the sink is what the kernel has taken followed by what is still buffered: the
  result of an operation that was pending is taken off the front of the buffer once, and what was given
  meanwhile stays behind it. As long as no receiving fails, the buffers received bring the peer's bytes in
  order. The sink reports that it is flushed, or closed, only if nothing is buffered, and a receiver that is
  not ready has an operation pending. A receiver that becomes two halves keeps its operation, a sender its
  operation and its buffer; one that becomes the other forgets its operation and what it has buffered.
\<close>

theorem win_bytes_kept:
  assumes "win_contract env inp outp flight" and "win_ok flight t" and "list_all step_wf ss"
  shows "(\<exists>rs t'. win_run env ss t = Some (rs, t') \<and> win_ok flight t' \<and>
      outp (wt_kernel t') @ content (wt_buf t') = outp (wt_kernel t) @ content (wt_buf t) @ concat (map given ss) \<and>
      (list_all (\<lambda>r. \<not> recv_failed r) rs \<longrightarrow> inp (wt_kernel t) = concat (map brought rs) @ inp (wt_kernel t')) \<and>
      (ss \<noteq> [] \<longrightarrow> win_settled (last rs) t')) \<and>
    win_turned flight t (win_recv_into_sender t) (False, False) [] \<and>
    win_turned flight t (win_recv_into_twoway t) (wt_recv_pending t, False) [] \<and>
    win_turned flight t (win_sender_into_recv t) (False, False) [] \<and>
    win_turned flight t (win_sender_into_twoway t) (False, wt_send_pending t) (content (wt_buf t))"
  by (intro conjI win_turned [OF assms(2)]) (use win_run_spec [OF assms] in blast)

text \<open>
  A kernel that hands over two bytes at a time, and whose sending is always pending; its result is one byte.
  Its state: input, output and what is pending.
\<close>

definition pending_kernel :: "(u8 list \<times> u8 list \<times> u8 list option) win_kernel" where
  "pending_kernel = \<lparr>ws_recv = (\<lambda>cs (i, s). let n = min 2 (sum_list cs) in if i = [] then (Inl WouldBlock, [], s) else (Inr (take n i), drop n i, s)),
     ws_send = (\<lambda>iovs (i, o', f). (Inl WouldBlock, i, o', Some (concat iovs))),
     ws_result = (\<lambda>rd (i, o', f). if rd then (Inr 0, i, o', f) else (Inr (min 1 (length (the f))), i, o' @ take 1 (the f), None)),
     ws_shutdown = (\<lambda>k. (None, k))\<rparr>"

lemma pending_kernel_contract: "win_contract pending_kernel fst (\<lambda>k. fst (snd k)) (\<lambda>k. snd (snd k))"
  unfolding win_contract_def
  by (auto simp: pending_kernel_def Let_def min_def split: if_splits)

definition sample_win :: "(nat, u8 list \<times> u8 list \<times> u8 list option) win_tcp" where
  "sample_win = \<lparr>wt_token = 1, wt_recv = recv_buffer_new, wt_recv_pending = False, wt_send_pending = False, wt_buf = bytebuf_new,
     wt_loop = two_tasks, wt_kernel = ([1, 2, 3], [], None)\<rparr>"

lemma sample_win_ok: "win_ok flight sample_win"
  by (simp add: win_ok_def sample_win_def rb_new_ok bytebuf_new_def bytebuf_with_growth_wf two_tasks_def slab_get_def)

theorem win_bytes_kept_witness:
  "\<exists>rs t'. win_run pending_kernel [DoSend (bytebuf_from [7, 8] 2), DoComplete, DoSend (bytebuf_from [9] 1), Wakeup False True, DoComplete, DoRecv]
       sample_win = Some (rs, t') \<and>
     fst (snd (wt_kernel t')) @ content (wt_buf t') = [7, 8, 9]"
proof -
  have "list_all step_wf [DoSend (bytebuf_from [7, 8] 2), DoComplete, DoSend (bytebuf_from [9] 1), Wakeup False True, DoComplete, DoRecv]"
    by (simp add: step_wf_def bytebuf_from_wf)
  from conjunct1 [OF win_bytes_kept [OF pending_kernel_contract sample_win_ok this]] show ?thesis
    by (auto simp: sample_win_def given_def content_bytebuf_from bytebuf_new_def content_bytebuf_with_growth)
qed

section \<open>Connecting and accepting\<close>

text \<open>The result of the poll of an operation that has completed: what is done with what it told.\<close>

definition win_connected_of :: "('k \<Rightarrow> (io_error + nat) \<times> 'k) \<Rightarrow> ('k \<Rightarrow> io_error option \<times> 'k) \<Rightarrow> nat \<Rightarrow> 'f sys_loop \<Rightarrow> 'k \<Rightarrow>
    ((nat, io_error) poll \<times> win_connect_state \<times> 'f sys_loop \<times> 'k) option" where
  "win_connected_of result finish tok sl k =
     (case result k of
        (Inl e, k1) \<Rightarrow> Some (Failed e, WDone, win_drop tok sl, k1)
      | (Inr _, k1) \<Rightarrow>
          (case finish k1 of
             (Some e, k2) \<Rightarrow> Some (Failed e, WDone, win_drop tok sl, k2)
           | (None, k2) \<Rightarrow> Some (Ready tok, WDone, sl, k2)))"

text \<open>An operation that waits: not ready until its event, which wakes the task that polled it.\<close>

lemma win_wait_read:
  assumes "slab_get tok (sl_schedules sl) \<noteq> None"
  obtains sl1 sl2 where "win_schedule_read tok sl = Some sl1" "win_is_read_ready tok sl1 = Some False"
    "iocp_get_ready_tasks \<lparr>io_token = tok, io_read = True\<rparr> sl1 = Some (Single (sl_current sl), sl2)"
    "win_is_read_ready tok sl2 = Some True"
proof -
  obtain s where s: "slab_get tok (sl_schedules sl) = Some s" using assms by blast
  let ?s1 = "s\<lparr>sc_read_ready := False, sc_read_task := sl_current sl\<rparr>"
  let ?sl1 = "sl\<lparr>sl_schedules := slab_set tok ?s1 (sl_schedules sl)\<rparr>"
  let ?sl2 = "?sl1\<lparr>sl_schedules := slab_set tok (?s1\<lparr>sc_read_ready := True\<rparr>) (sl_schedules ?sl1)\<rparr>"
  have g1: "slab_get tok (sl_schedules ?sl1) = Some ?s1" using slab_get_set [OF assms] by simp
  have g2: "slab_get tok (sl_schedules ?sl2) = Some (?s1\<lparr>sc_read_ready := True\<rparr>)"
    using slab_get_set [of tok "sl_schedules ?sl1"] g1 by simp
  show thesis
    by (rule that [of ?sl1 ?sl2])
      (use s g1 g2 in \<open>simp_all add: win_schedule_read_def sys_schedule_read_def change_schedule_def win_is_read_ready_def
        iocp_get_ready_tasks_def iocp_ready_of_def\<close>)
qed

lemma win_wait_write:
  assumes "slab_get tok (sl_schedules sl) \<noteq> None"
  obtains sl1 sl2 where "win_schedule_write tok sl = Some sl1" "win_is_write_ready tok sl1 = Some False"
    "iocp_get_ready_tasks \<lparr>io_token = tok, io_read = False\<rparr> sl1 = Some (Single (sl_current sl), sl2)"
    "win_is_write_ready tok sl2 = Some True"
proof -
  obtain s where s: "slab_get tok (sl_schedules sl) = Some s" using assms by blast
  let ?s1 = "s\<lparr>sc_write_ready := False, sc_write_task := sl_current sl\<rparr>"
  let ?sl1 = "sl\<lparr>sl_schedules := slab_set tok ?s1 (sl_schedules sl)\<rparr>"
  let ?sl2 = "?sl1\<lparr>sl_schedules := slab_set tok (?s1\<lparr>sc_write_ready := True\<rparr>) (sl_schedules ?sl1)\<rparr>"
  have g1: "slab_get tok (sl_schedules ?sl1) = Some ?s1" using slab_get_set [OF assms] by simp
  have g2: "slab_get tok (sl_schedules ?sl2) = Some (?s1\<lparr>sc_write_ready := True\<rparr>)"
    using slab_get_set [of tok "sl_schedules ?sl1"] g1 by simp
  show thesis
    by (rule that [of ?sl1 ?sl2])
      (use s g1 g2 in \<open>simp_all add: win_schedule_write_def sys_schedule_write_def change_schedule_def win_is_write_ready_def
        iocp_get_ready_tasks_def iocp_ready_of_def\<close>)
qed

lemma win_connecting:
  assumes "slab_get tok (sl_schedules sl) \<noteq> None"
  shows "\<exists>sl1 sl2. win_poll_connect result finish (WConnecting tok, sl, k) = Some (NotReady, WFinishing tok, sl1, k) \<and>
    (\<forall>k1. win_poll_connect result finish (WFinishing tok, sl1, k1) = Some (NotReady, WFinishing tok, sl1, k1)) \<and>
    iocp_get_ready_tasks \<lparr>io_token = tok, io_read = False\<rparr> sl1 = Some (Single (sl_current sl), sl2) \<and>
    (\<forall>k1. win_poll_connect result finish (WFinishing tok, sl2, k1) = win_connected_of result finish tok sl2 k1)"
proof -
  obtain sl1 sl2 where w: "win_schedule_write tok sl = Some sl1" "win_is_write_ready tok sl1 = Some False"
    "iocp_get_ready_tasks \<lparr>io_token = tok, io_read = False\<rparr> sl1 = Some (Single (sl_current sl), sl2)"
    "win_is_write_ready tok sl2 = Some True"
    by (rule win_wait_write [OF assms])
  then show ?thesis
    by (intro exI [of _ sl1] exI [of _ sl2]) (simp add: win_poll_connect_def win_connected_of_def)
qed

text \<open>An accept that has completed yields the socket made for it; if it failed, another is started.\<close>

definition win_accepted_of :: "('c, 'a, 'k) win_acceptor \<Rightarrow> 'c \<Rightarrow> ('f, 'c, 'k) win_incoming \<Rightarrow>
    (('c \<times> 'a socket_addr, io_error) poll \<times> ('f, 'c, 'k) win_incoming) option" where
  "win_accepted_of env c t =
     (let again = (\<lambda>k. win_accept_new env (t\<lparr>wi_stream := None, wi_kernel := k\<rparr>))
      in case wa_result env (wi_kernel t) of
           (Inl _, k) \<Rightarrow> again k
         | (Inr _, k) \<Rightarrow>
             (case wa_setsockopt env c k of
                (Some _, k) \<Rightarrow> again k
              | (None, k) \<Rightarrow>
                  (case wa_sockaddrs env k of
                     (family, addr) \<Rightarrow>
                       if family = 2 then Some (Ready (c, V4 addr), t\<lparr>wi_stream := None, wi_kernel := k\<rparr>)
                       else if family = 23 then Some (Ready (c, V6 addr), t\<lparr>wi_stream := None, wi_kernel := k\<rparr>)
                       else again k)))"

lemma win_accept_completed:
  assumes "win_is_read_ready (wi_token t) (wi_loop t) = Some True" and "wi_stream t = Some c"
  shows "win_poll_accept env t = win_accepted_of env c t"
  using assms by (auto simp: win_poll_accept_def win_accepted_of_def finish_accept_def parse_remote_addr_def
      AF_INET_def AF_INET6_def Let_def split: prod.split sum.split option.split)

lemma win_accepting:
  assumes "win_is_read_ready (wi_token t) (wi_loop t) = Some True" and "wi_stream t = None"
    and "wa_socket env (wi_kernel t) = (Inr c, k1)" and "wa_accept_ex env c k1 = (Some WouldBlock, k2)"
  shows "\<exists>sl1 sl2. win_poll_accept env t = Some (NotReady, t\<lparr>wi_loop := sl1, wi_stream := Some c, wi_kernel := k2\<rparr>) \<and>
    (\<forall>k. win_poll_accept env (t\<lparr>wi_loop := sl1, wi_stream := Some c, wi_kernel := k\<rparr>) =
       Some (NotReady, t\<lparr>wi_loop := sl1, wi_stream := Some c, wi_kernel := k\<rparr>)) \<and>
    iocp_get_ready_tasks \<lparr>io_token = wi_token t, io_read = True\<rparr> sl1 = Some (Single (sl_current (wi_loop t)), sl2) \<and>
    (\<forall>k. win_poll_accept env (t\<lparr>wi_loop := sl2, wi_stream := Some c, wi_kernel := k\<rparr>) =
       win_accepted_of env c (t\<lparr>wi_loop := sl2, wi_stream := Some c, wi_kernel := k\<rparr>))"
proof -
  have g: "slab_get (wi_token t) (sl_schedules (wi_loop t)) \<noteq> None" using assms(1) by (auto simp: win_is_read_ready_def)
  obtain sl1 sl2 where w: "win_schedule_read (wi_token t) (wi_loop t) = Some sl1" "win_is_read_ready (wi_token t) sl1 = Some False"
    "iocp_get_ready_tasks \<lparr>io_token = wi_token t, io_read = True\<rparr> sl1 = Some (Single (sl_current (wi_loop t)), sl2)"
    "win_is_read_ready (wi_token t) sl2 = Some True"
    by (rule win_wait_read [OF g])
  have "win_poll_accept env (t\<lparr>wi_loop := sl2, wi_stream := Some c, wi_kernel := k\<rparr>) =
      win_accepted_of env c (t\<lparr>wi_loop := sl2, wi_stream := Some c, wi_kernel := k\<rparr>)" for k
    by (rule win_accept_completed) (simp_all add: w)
  then show ?thesis using w(1-3) assms
    by (intro exI [of _ sl1] exI [of _ sl2]) (simp add: win_poll_accept_def win_accept_new_def win_accept_def)
qed

text \<open>
  C34. Connecting and accepting on Windows wait for one operation. A connection in progress, and an accept
  that could not be served at once, are not ready until the event of their operation, which wakes the task
  that polled them. The next poll ends a connection: with the socket, if the operation succeeded and the
  socket could be updated, and else with the error, the socket having been dropped; a connection that is
  ready or has failed panics when polled again. The next poll of an accept yields the very socket that was
  made for it, with the address of the peer by its family; if it failed, a new accept is started in the same
  call, and the failure is not reported.
\<close>

theorem win_connect_accept_correct:
  assumes "slab_get tok (sl_schedules sl) \<noteq> None"
    and "wi_token t = tok" and "win_is_read_ready tok (wi_loop t) = Some True" and "wi_stream t = None"
    and "wa_socket env (wi_kernel t) = (Inr c, k1)" and "wa_accept_ex env c k1 = (Some WouldBlock, k2)"
  shows "(\<exists>sl1 sl2. win_poll_connect result finish (WConnecting tok, sl, k) = Some (NotReady, WFinishing tok, sl1, k) \<and>
      (\<forall>k1. win_poll_connect result finish (WFinishing tok, sl1, k1) = Some (NotReady, WFinishing tok, sl1, k1)) \<and>
      iocp_get_ready_tasks \<lparr>io_token = tok, io_read = False\<rparr> sl1 = Some (Single (sl_current sl), sl2) \<and>
      (\<forall>k1. win_poll_connect result finish (WFinishing tok, sl2, k1) = win_connected_of result finish tok sl2 k1)) \<and>
    (win_poll_connect result finish cs = Some (r, cs') \<and> r \<noteq> NotReady \<longrightarrow>
      fst cs' = WDone \<and> win_poll_connect result finish cs' = None) \<and>
    (\<exists>sl1 sl2. win_poll_accept env t = Some (NotReady, t\<lparr>wi_loop := sl1, wi_stream := Some c, wi_kernel := k2\<rparr>) \<and>
      (\<forall>k. win_poll_accept env (t\<lparr>wi_loop := sl1, wi_stream := Some c, wi_kernel := k\<rparr>) =
         Some (NotReady, t\<lparr>wi_loop := sl1, wi_stream := Some c, wi_kernel := k\<rparr>)) \<and>
      iocp_get_ready_tasks \<lparr>io_token = tok, io_read = True\<rparr> sl1 = Some (Single (sl_current (wi_loop t)), sl2) \<and>
      (\<forall>k. win_poll_accept env (t\<lparr>wi_loop := sl2, wi_stream := Some c, wi_kernel := k\<rparr>) =
         win_accepted_of env c (t\<lparr>wi_loop := sl2, wi_stream := Some c, wi_kernel := k\<rparr>)))"
proof (intro conjI [OF win_connecting [OF assms(1)]] conjI impI)
  assume *: "win_poll_connect result finish cs = Some (r, cs') \<and> r \<noteq> NotReady"
  obtain st sl0 k0 where "cs = (st, sl0, k0)" by (cases cs)
  with * show "fst cs' = WDone"
    by (cases st) (auto simp: win_poll_connect_def split: prod.splits option.splits bool.splits sum.splits)
  then show "win_poll_connect result finish cs' = None" by (cases cs') (simp add: win_poll_connect_def)
next
  show "\<exists>sl1 sl2. win_poll_accept env t = Some (NotReady, t\<lparr>wi_loop := sl1, wi_stream := Some c, wi_kernel := k2\<rparr>) \<and>
      (\<forall>k. win_poll_accept env (t\<lparr>wi_loop := sl1, wi_stream := Some c, wi_kernel := k\<rparr>) =
         Some (NotReady, t\<lparr>wi_loop := sl1, wi_stream := Some c, wi_kernel := k\<rparr>)) \<and>
      iocp_get_ready_tasks \<lparr>io_token = tok, io_read = True\<rparr> sl1 = Some (Single (sl_current (wi_loop t)), sl2) \<and>
      (\<forall>k. win_poll_accept env (t\<lparr>wi_loop := sl2, wi_stream := Some c, wi_kernel := k\<rparr>) =
         win_accepted_of env c (t\<lparr>wi_loop := sl2, wi_stream := Some c, wi_kernel := k\<rparr>))"
    using win_accepting [of t env c k1 k2] assms(2-6) by simp
qed

text \<open>An acceptor whose first accept waits; sockets are numbers, and so are addresses.\<close>

definition waiting_acceptor :: "(nat, nat, nat) win_acceptor" where
  "waiting_acceptor = \<lparr>wa_socket = (\<lambda>k. (Inr k, Suc k)), wa_accept_ex = (\<lambda>c k. (Some WouldBlock, k)), wa_result = (\<lambda>k. (Inr 0, k)),
     wa_setsockopt = (\<lambda>c k. (None, k)), wa_sockaddrs = (\<lambda>k. (AF_INET6, 77))\<rparr>"

theorem win_connect_accept_correct_witness:
  "(\<exists>sl1. win_poll_accept waiting_acceptor \<lparr>wi_token = 1, wi_stream = None, wi_loop = two_tasks, wi_kernel = 5\<rparr> =
      Some (NotReady, \<lparr>wi_token = 1, wi_stream = Some 5, wi_loop = sl1, wi_kernel = 6\<rparr>)) \<and>
   (\<exists>sl1. win_poll_connect (\<lambda>k. (Inr 0, k)) (\<lambda>k. (None, k)) (WConnecting 1, two_tasks, 5 :: nat) =
      Some (NotReady, WFinishing 1, sl1, 5))"
proof -
  let ?t = "\<lparr>wi_token = 1, wi_stream = None, wi_loop = two_tasks, wi_kernel = 5\<rparr>"
  have "slab_get 1 (sl_schedules two_tasks) \<noteq> None" "wi_token ?t = 1" "win_is_read_ready 1 (wi_loop ?t) = Some True"
    "wi_stream ?t = None" "wa_socket waiting_acceptor (wi_kernel ?t) = (Inr 5, 6)"
    "wa_accept_ex waiting_acceptor 5 6 = (Some WouldBlock, 6)"
    by (simp_all add: two_tasks_def slab_get_def win_is_read_ready_def schedule_new_def waiting_acceptor_def)
  note w = win_connect_accept_correct [OF this, of "\<lambda>k. (Inr 0, k)" "\<lambda>k. (None, k)" 5 "(WDone, two_tasks, 0)" NotReady
      "(WDone, two_tasks, 0)"]
  show ?thesis using conjunct1 [OF w] conjunct2 [OF conjunct2 [OF w]] by auto
qed

section \<open>Faults\<close>

text \<open>A send that takes only some of the bytes at once leaves nothing that would wake the task.\<close>

lemma win_partial_send:
  assumes "bb_wf (wt_buf t)" and "win_is_write_ready (wt_token t) (wt_loop t) = Some True" and "\<not> wt_send_pending t"
    and "\<And>iovs. concat iovs = content (wt_buf t) \<Longrightarrow> ws_send env iovs (wt_kernel t) = (Inr n, k)"
    and "n < length (content (wt_buf t))"
  shows "\<exists>t'. win_poll_send env t = Some (NotReady, t') \<and> \<not> wt_send_pending t' \<and> wt_loop t' = wt_loop t \<and>
    content (wt_buf t') = drop n (content (wt_buf t))"
proof -
  have ne: "content (wt_buf t) \<noteq> []" using assms(5) by auto
  obtain it where it: "\<And>g :: u8 list list getter. bb_get 0 g (wt_buf t) = g it" "chain_wf (gi_blocks it)"
    "gi_rest it = content (wt_buf t)"
    using bb_get_Ok [OF assms(1) _ live_not_empty [OF assms(1) ne], of 0] by (metis drop0 le0)
  have w: "ws_send env (get_iovs it) (wt_kernel t) = (Inr n, k)" using assms(4) get_iovs_spec [OF it(2)] it(3) by simp
  obtain m data where s: "bb_skip n (wt_buf t) = (m, data)" by fastforce
  note sk = bb_skip_spec [OF assms(1) s]
  then have data: "bb_wf data" "content data = drop n (content (wt_buf t))" by simp_all
  note c = bb_compact_spec [OF data(1)]
  have "win_poll_send env t = Some (NotReady, t\<lparr>wt_buf := bb_compact data, wt_kernel := k\<rparr>)"
    using assms(2,3,5) ne it(1) w s c data(2) bb_is_empty_iff [OF assms(1)]
    by (simp add: win_poll_send_def win_send_now_def win_writev_def Let_def bb_is_empty_iff)
  with c data(2) assms(3) show ?thesis by simp
qed

definition taking_one :: "u8 list win_kernel" where
  "taking_one = \<lparr>ws_recv = (\<lambda>cs k. (Inl WouldBlock, k)), ws_send = (\<lambda>iovs k. (Inr 1, k @ take 1 (concat iovs))),
     ws_result = (\<lambda>rd k. (Inr 0, k)), ws_shutdown = (\<lambda>k. (None, k))\<rparr>"

definition sending_win :: "(nat, u8 list) win_tcp" where
  "sending_win = \<lparr>wt_token = 1, wt_recv = recv_buffer_new, wt_recv_pending = False, wt_send_pending = False, wt_buf = bytebuf_from [7, 8] 2,
     wt_loop = two_tasks, wt_kernel = []\<rparr>"

end
