(* ===== verification/Channel_Windows.thy ===== *)
theory Channel_Windows
  imports Channel_Correct Tcp_Windows_Correct
begin

text \<open>
  The channel on Windows: the receiver of \<open>src/sys/windows/spsc.rs\<close> and the awakener of
  \<open>src/sys/windows/awakener.rs\<close>. The ring, its senders and the atomic steps of \<open>try_push\<close> and \<open>try_pop\<close> are
  those of \<open>Channel\<close>; waking posts a packet to the completion port of the receiver's loop, and resetting
  is one store. \<open>event\<close> and the steps of \<open>Channel\<close> that drain it are not used.
\<close>

section \<open>State and steps\<close>

text \<open>
  \<open>wc_packets\<close> is the number of packets posted that the loop has not taken. A \<open>Dispatch\<close> is the loop taking one:
  it runs the task, which polls the receiver unless it waits for something else (\<open>False\<close>).
\<close>

record 'a win_chan =
  wc_chan :: "'a chan"
  wc_packets :: nat

datatype 'a win_action = Step "'a action" | Dispatch bool

text \<open>A new awakener does not ask to be woken before the first reset.\<close>

definition win_sync_channel :: "nat \<Rightarrow> 'a win_chan" where
  "win_sync_channel capacity = \<lparr>wc_chan = (sync_channel capacity)\<lparr>need_wakeup := False\<rparr>, wc_packets = 0\<rparr>"

text \<open>\<open>Awakener::wakeup\<close>: the flag is lowered, then the packet is posted.\<close>

fun win_wake_next :: "'a action \<Rightarrow> 'a win_chan \<Rightarrow> 'a win_chan option" where
  "win_wake_next (Wake_Load i) w =
     (let c = wc_chan w
      in if senders c i = S_Wake then Some (w\<lparr>wc_chan := sender_to i (if need_wakeup c then S_Clear else S_Idle) c\<rparr>) else None)"
| "win_wake_next (Wake_Clear i) w =
     (let c = wc_chan w
      in if senders c i = S_Clear
         then Some (w\<lparr>wc_chan := sender_to i S_Signal (c\<lparr>need_wakeup := False, wake_view := rear (ring c)\<rparr>)\<rparr>) else None)"
| "win_wake_next (Wake_Signal i) w =
     (let c = wc_chan w
      in if senders c i = S_Signal then Some (w\<lparr>wc_chan := sender_to i S_Idle c, wc_packets := wc_packets w + 1\<rparr>) else None)"
| "win_wake_next Drop_Sender w =
     (let c = wc_chan w
      in if \<not> gone c \<and> senders c = (\<lambda>_. S_Idle) then Some (w\<lparr>wc_chan := sender_to 0 S_Wake (c\<lparr>gone := True\<rparr>)\<rparr>) else None)"
| "win_wake_next a w = None"

text \<open>The begin of \<open>Recv::poll\<close>, which may reset.\<close>

definition win_recv_begin :: "'a chan \<Rightarrow> 'a chan" where
  "win_recv_begin c = c\<lparr>waiting := False, receiver := (if need_reset c then R_Rearm else R_Pop)\<rparr>"

text \<open>\<open>Recv::poll\<close>: the task polls by itself, if it is not waiting. A receiver that is dropped resets.\<close>

fun win_recv_next :: "'a action \<Rightarrow> 'a chan \<Rightarrow> 'a chan option" where
  "win_recv_next Poll c =
     (if receiver c = R_Idle \<and> \<not> ended c \<and> \<not> recv_gone c \<and> \<not> waiting c then Some (win_recv_begin c) else None)"
| "win_recv_next Reset_Load c = None"
| "win_recv_next Reset_Drain c = None"
| "win_recv_next Drop_Receiver c =
     (if receiver c = R_Idle \<and> \<not> recv_gone c then Some (c\<lparr>recv_gone := True, need_wakeup := True\<rparr>) else None)"
| "win_recv_next a c = recv_next a c"

definition win_chan_next :: "'a win_action \<Rightarrow> 'a win_chan \<Rightarrow> 'a win_chan option" where
  "win_chan_next a w =
     (case a of
        Step a \<Rightarrow>
          (case send_next a (wc_chan w) of
             Some c \<Rightarrow> Some (w\<lparr>wc_chan := c\<rparr>)
           | None \<Rightarrow>
               (case win_wake_next a w of
                  Some w' \<Rightarrow> Some w'
                | None \<Rightarrow> map_option (\<lambda>c. w\<lparr>wc_chan := c\<rparr>) (win_recv_next a (wc_chan w))))
      | Dispatch polls \<Rightarrow>
          (let c = wc_chan w
           in if 0 < wc_packets w \<and> receiver c = R_Idle
              then Some (w\<lparr>wc_packets := wc_packets w - 1,
                           wc_chan := (if polls \<and> \<not> ended c \<and> \<not> recv_gone c then win_recv_begin c else c)\<rparr>)
              else None))"

fun win_chan_exec :: "'a win_action list \<Rightarrow> 'a win_chan \<Rightarrow> 'a win_chan option" where
  "win_chan_exec [] w = Some w"
| "win_chan_exec (a # as) w = (case win_chan_next a w of Some w' \<Rightarrow> win_chan_exec as w' | None \<Rightarrow> None)"

inductive win_reach :: "('a win_chan \<Rightarrow> 'a win_action \<Rightarrow> bool) \<Rightarrow> nat \<Rightarrow> 'a win_chan \<Rightarrow> bool" for ok capacity where
  win_reach_new: "win_reach ok capacity (win_sync_channel capacity)"
| win_reach_step: "win_reach ok capacity w \<Longrightarrow> ok w a \<Longrightarrow> win_chan_next a w = Some w' \<Longrightarrow> win_reach ok capacity w'"

text \<open>The schedule that packets are for: \<open>register\<close>, once, when the receiver is made.\<close>

definition win_register :: "'f sys_loop \<Rightarrow> (nat \<times> 'f sys_loop) option" where
  "win_register sl = sys_schedule sl"

text \<open>Dropping the awakener, by the last of the two sides, in the loop of the thread that does so.\<close>

definition win_awakener_drop :: "nat \<Rightarrow> 'f sys_loop \<Rightarrow> 'f sys_loop" where
  "win_awakener_drop tok sl = sys_cancel tok sl"

section \<open>The ring\<close>

lemma win_next_cases:
  assumes "win_chan_next a w = Some w'"
  obtains (send) x c where "a = Step x" "send_next x (wc_chan w) = Some c" "w' = w\<lparr>wc_chan := c\<rparr>"
  | (wake) x where "a = Step x" "win_wake_next x w = Some w'"
  | (recv) x c where "a = Step x" "win_recv_next x (wc_chan w) = Some c" "w' = w\<lparr>wc_chan := c\<rparr>"
  | (dispatch) polls where "a = Dispatch polls" "0 < wc_packets w" "receiver (wc_chan w) = R_Idle"
      "w' = w\<lparr>wc_packets := wc_packets w - 1, wc_chan :=
        (if polls \<and> \<not> ended (wc_chan w) \<and> \<not> recv_gone (wc_chan w) then win_recv_begin (wc_chan w) else wc_chan w)\<rparr>"
  using assms by (auto simp: win_chan_next_def Let_def split: win_action.splits option.splits if_splits)

lemma win_recv_begin_inv: "chan_inv c \<Longrightarrow> receiver c = R_Idle \<Longrightarrow> chan_inv (win_recv_begin c)"
  using chan_inv_receiver [of "c\<lparr>waiting := False\<rparr>" "if need_reset c then R_Rearm else R_Pop"]
  by (simp add: win_recv_begin_def offset_def receiver_ok_def)

lemma win_recv_begin_simps [simp]:
  "sent (win_recv_begin c) = sent c" "ring (win_recv_begin c) = ring c" "senders (win_recv_begin c) = senders c"
  by (simp_all add: win_recv_begin_def)

text \<open>The steps of the receiver on Windows are steps of \<open>Channel\<close>, or touch nothing but flags.\<close>

lemma win_recv_cases:
  assumes "win_recv_next a c = Some c'"
  obtains (start) "a = Poll" "c' = win_recv_begin c" "receiver c = R_Idle" "\<not> waiting c"
  | (drop) "a = Drop_Receiver" "c' = c\<lparr>recv_gone := True, need_wakeup := True\<rparr>"
  | (same) "recv_next a c = Some c'" "a \<notin> {Poll, Reset_Load, Reset_Drain, Drop_Receiver}"
  using assms by (cases a) (simp_all split: if_splits)

text \<open>The steps of \<open>wakeup\<close> move the sender between states in which it does not touch the ring.\<close>

lemma win_wake_cases:
  assumes "win_wake_next x w = Some w'" and "one_sender (wc_chan w) x"
  obtains (look) "senders (wc_chan w) 0 = S_Wake"
      "w' = w\<lparr>wc_chan := sender_to 0 (if need_wakeup (wc_chan w) then S_Clear else S_Idle) (wc_chan w)\<rparr>"
  | (clear) "senders (wc_chan w) 0 = S_Clear"
      "w' = w\<lparr>wc_chan := sender_to 0 S_Signal ((wc_chan w)\<lparr>need_wakeup := False, wake_view := rear (ring (wc_chan w))\<rparr>)\<rparr>"
  | (post) "senders (wc_chan w) 0 = S_Signal" "w' = w\<lparr>wc_chan := sender_to 0 S_Idle (wc_chan w), wc_packets := wc_packets w + 1\<rparr>"
  | (leave) "\<not> gone (wc_chan w)" "senders (wc_chan w) 0 = S_Idle"
      "w' = w\<lparr>wc_chan := sender_to 0 S_Wake ((wc_chan w)\<lparr>gone := True\<rparr>)\<rparr>"
proof (cases x)
  case (Wake_Load i)
  with assms show thesis by (intro look) (simp_all add: one_sender_def Let_def split: if_splits)
next
  case (Wake_Clear i)
  with assms show thesis by (intro clear) (simp_all add: one_sender_def Let_def split: if_splits)
next
  case (Wake_Signal i)
  with assms show thesis by (intro post) (simp_all add: one_sender_def Let_def split: if_splits)
next
  case Drop_Sender
  with assms show thesis by (intro leave) (simp_all add: Let_def split: if_splits)
qed (use assms(1) in simp_all)

lemma win_wake_inv:
  assumes inv: "chan_inv (wc_chan w)" and s: "win_wake_next x w = Some w'" and one: "one_sender (wc_chan w) x"
  shows "chan_inv (wc_chan w') \<and> ring (wc_chan w') = ring (wc_chan w) \<and> sent (wc_chan w') = sent (wc_chan w)"
proof -
  let ?c = "wc_chan w"
  have view: "chan_inv (?c\<lparr>need_wakeup := False, wake_view := rear (ring ?c)\<rparr>)"
    using inv by (simp add: chan_inv_def Let_def offset_def staged_def)
  have to: "chan_inv (sender_to 0 p d)"
    if "chan_inv d" "senders d 0 \<in> {S_Idle, S_Wake, S_Signal, S_Clear}" "p \<in> {S_Idle, S_Wake, S_Signal, S_Clear}" for p d
    by (rule chan_inv_sender) (use that in \<open>auto simp: staged_def sender_ok_def\<close>)
  from s one show ?thesis
  proof (cases rule: win_wake_cases)
    case look
    then show ?thesis using to [OF inv] by simp
  next
    case clear
    then show ?thesis using to [OF view, of S_Signal] by simp
  next
    case post
    then show ?thesis using to [OF inv, of S_Idle] by simp
  next
    case leave
    then show ?thesis using to [of "?c\<lparr>gone := True\<rparr>" S_Wake] inv by simp
  qed
qed

lemma win_next_inv:
  assumes inv: "chan_inv (wc_chan w)" and one: "\<forall>x. a = Step x \<longrightarrow> one_sender (wc_chan w) x"
    and s: "win_chan_next a w = Some w'" and bound: "length (sent (wc_chan w')) + rb_cap (ring (wc_chan w)) \<le> usize_max"
  shows "chan_inv (wc_chan w') \<and> rb_cap (ring (wc_chan w')) = rb_cap (ring (wc_chan w))"
  using s
proof (cases rule: win_next_cases)
  case (send x c)
  then show ?thesis using send_next_inv [OF inv _ send(2)] one bound by simp
next
  case (wake x)
  then show ?thesis using win_wake_inv [OF inv wake(2)] one by simp
next
  case (recv x c)
  from recv(2) show ?thesis
  proof (cases rule: win_recv_cases)
    case same
    have "sent (wc_chan w') = sent (wc_chan w)"
      using same(1) recv(3) by (cases x) (auto simp: Let_def split: if_splits receiver_pc.splits)
    with recv_next_inv [OF inv same(1)] bound recv(3) show ?thesis by simp
  qed (use win_recv_begin_inv [OF inv] inv recv(3) in simp_all)
next
  case (dispatch polls)
  then show ?thesis using win_recv_begin_inv [OF inv] inv by simp
qed

lemma win_next_sent:
  assumes "win_chan_next a w = Some w'"
  shows "\<exists>ts. sent (wc_chan w') = sent (wc_chan w) @ ts"
  using assms
proof (cases rule: win_next_cases)
  case (send x c)
  then show ?thesis by (cases x) (auto simp: Let_def split: if_splits sender_pc.splits)
next
  case (wake x)
  then have "sent (wc_chan w') = sent (wc_chan w)" by (cases x) (auto simp: Let_def split: if_splits)
  then show ?thesis by simp
next
  case (recv x c)
  from recv(2) have "sent c = sent (wc_chan w)"
  proof (cases rule: win_recv_cases)
    case same
    then show ?thesis by (cases x) (auto simp: Let_def split: if_splits receiver_pc.splits)
  qed simp_all
  with recv(3) show ?thesis by simp
qed simp

lemma win_sync_channel_inv:
  "chan_inv (wc_chan (win_sync_channel capacity)) \<and> rb_cap (ring (wc_chan (win_sync_channel capacity))) = capacity"
  using sync_channel_inv [of capacity] by (simp add: win_sync_channel_def)

lemma win_reach_inv:
  assumes "win_reach ok capacity w" and "\<And>w x. ok w (Step x) \<Longrightarrow> one_sender (wc_chan w) x"
    and "length (sent (wc_chan w)) + capacity \<le> usize_max"
  shows "chan_inv (wc_chan w) \<and> rb_cap (ring (wc_chan w)) = capacity"
  using assms(1,3)
proof (induction rule: win_reach.induct)
  case win_reach_new
  show ?case by (rule win_sync_channel_inv)
next
  case (win_reach_step w a w')
  obtain ts where "sent (wc_chan w') = sent (wc_chan w) @ ts" using win_next_sent [OF win_reach_step.hyps(3)] by blast
  then have "length (sent (wc_chan w)) + capacity \<le> usize_max" using win_reach_step.prems by simp
  with win_reach_step have "chan_inv (wc_chan w)" "rb_cap (ring (wc_chan w)) = capacity" by simp_all
  moreover have "\<forall>x. a = Step x \<longrightarrow> one_sender (wc_chan w) x" using assms(2) win_reach_step.hyps(2) by blast
  ultimately show ?case using win_next_inv [OF _ _ win_reach_step.hyps(3)] win_reach_step.prems by simp
qed

section \<open>Waking the receiver\<close>

text \<open>Where a sender is in \<open>wakeup\<close>, and a receiver in \<open>poll\<close>.\<close>

datatype wake_phase = Outside | Looking | Lowering | Posting

fun in_wakeup :: "'a sender_pc \<Rightarrow> wake_phase" where
  "in_wakeup S_Wake = Looking"
| "in_wakeup S_Clear = Lowering"
| "in_wakeup S_Signal = Posting"
| "in_wakeup _ = Outside"

datatype poll_phase = Resting | Raising | Popping | Counting | Draining

fun in_poll :: "'a receiver_pc \<Rightarrow> poll_phase" where
  "in_poll R_Idle = Resting"
| "in_poll R_Rearm = Raising"
| "in_poll R_Count = Counting"
| "in_poll R_Reset = Draining"
| "in_poll R_Drain = Draining"
| "in_poll _ = Popping"

text \<open>
  A receiver that will not reset, or waits, is woken by the next call of \<open>wakeup\<close>, by the one that has lowered
  the flag, or by a packet; if there is something it has not seen, one of these is under way.
\<close>

definition wake_cond :: "poll_phase \<Rightarrow> wake_phase \<Rightarrow> bool \<Rightarrow> bool \<Rightarrow> bool \<Rightarrow> bool \<Rightarrow> bool \<Rightarrow> nat \<Rightarrow> bool" where
  "wake_cond rp sp need reset wait left unseen packets \<longleftrightarrow>
     rp \<noteq> Draining \<and> (sp = Lowering \<longrightarrow> need) \<and> (rp \<noteq> Resting \<and> rp \<noteq> Raising \<longrightarrow> \<not> reset) \<and>
     (wait \<longrightarrow> rp = Resting \<and> reset) \<and> (\<not> reset \<or> wait \<longrightarrow> need \<or> sp = Posting \<or> 0 < packets) \<and>
     (rp = Counting \<or> wait \<longrightarrow> unseen \<or> wait \<and> left \<longrightarrow> sp \<noteq> Outside \<or> 0 < packets)"

lemma wake_cond_sender:
  "wake_cond rp Outside n r w l u p \<Longrightarrow> wake_cond rp Looking n r w l' u' p"
  "wake_cond rp Looking n r w l u p \<Longrightarrow> wake_cond rp (if n then Lowering else Outside) n r w l u p"
  "wake_cond rp Lowering n r w l u p \<Longrightarrow> wake_cond rp Posting False r w l u p"
  "wake_cond rp Posting n r w l u p \<Longrightarrow> wake_cond rp Outside n r w l u (Suc p)"
  unfolding wake_cond_def by (cases n; cases w; cases r; cases l; cases rp; simp)+

lemma wake_cond_receiver:
  "wake_cond Resting sp n r w l u p \<Longrightarrow> r \<or> p' = p \<Longrightarrow> wake_cond (if r then Raising else Popping) sp n r False l u p'"
  "wake_cond Raising sp n r w l u p \<Longrightarrow> wake_cond Popping sp True False w l u p"
  "wake_cond rp sp n r w l u p \<Longrightarrow> wake_cond rp sp True r w l u p"
  "wake_cond Popping sp n r w l u p \<Longrightarrow> wake_cond Counting sp n r w l False p"
  "wake_cond Popping sp n r w l u p \<Longrightarrow> wake_cond Resting sp n r w l u' p"
  "wake_cond Counting sp n r w l u p \<Longrightarrow> wake_cond Resting sp n True w l u p"
  "wake_cond Counting sp n r w False u p \<Longrightarrow> wake_cond Resting sp n True True False u p"
  "wake_cond Popping sp n r w l u p \<Longrightarrow> wake_cond Popping sp n r w l u' p"
  unfolding wake_cond_def by (cases r; cases w; cases l; simp)+

definition win_wake_ok :: "'a win_chan \<Rightarrow> bool" where
  "win_wake_ok w \<longleftrightarrow> (let c = wc_chan w in
     wake_cond (in_poll (receiver c)) (in_wakeup (senders c 0)) (need_wakeup c) (need_reset c) (waiting c) (gone c)
       (front (ring c) \<noteq> rear (ring c)) (wc_packets w))"

lemma win_wake_ok_send:
  assumes ok: "win_wake_ok w" and one: "one_sender (wc_chan w) x" and s: "send_next x (wc_chan w) = Some c"
  shows "win_wake_ok (w\<lparr>wc_chan := c\<rparr>)"
proof -
  let ?c = "wc_chan w"
  have to: "win_wake_ok (w\<lparr>wc_chan := sender_to 0 p (?c\<lparr>ring := r\<rparr>)\<rparr>)"
    if "in_wakeup (senders ?c 0) = Outside" "in_wakeup p = Outside"
      "front r = front (ring ?c)" "rear r = rear (ring ?c)" for p r
    using ok that by (simp add: win_wake_ok_def Let_def)
  have to': "win_wake_ok (w\<lparr>wc_chan := sender_to 0 p ?c\<rparr>)"
    if "in_wakeup (senders ?c 0) = Outside" "in_wakeup p = Outside" for p
    using ok that by (simp add: win_wake_ok_def Let_def)
  show ?thesis
  proof (cases x)
    case (Push_Publish j)
    then obtain t re where "j = 0" "senders ?c 0 = S_Publish t re"
      "c = sender_to 0 S_Wake (?c\<lparr>ring := ring_publish re (ring ?c), sent := sent ?c @ [t]\<rparr>)"
      using one s by (auto simp: one_sender_def split: sender_pc.splits)
    then show ?thesis using ok wake_cond_sender(1) by (simp add: win_wake_ok_def Let_def)
  next
    case (Push_Refresh j k)
    then obtain t re where "j = 0" "senders ?c 0 = S_Refresh t re"
      "c = (let r = (ring ?c)\<lparr>shadow_front := k\<rparr> in sender_to 0 (if ring_full r re then S_Full t else S_Write t re) (?c\<lparr>ring := r\<rparr>))"
      using one s by (auto simp: one_sender_def Let_def split: sender_pc.splits if_splits)
    then show ?thesis using to by (simp add: Let_def)
  next
    case (Push_Write j)
    then obtain t re where "senders ?c 0 = S_Write t re" "c = sender_to 0 (S_Publish t re) (?c\<lparr>ring := ring_write t re (ring ?c)\<rparr>)"
      using one s by (auto simp: one_sender_def split: sender_pc.splits)
    then show ?thesis using to by simp
  next
    case (Send j t)
    then have "c = ?c \<or> senders ?c 0 = S_Idle \<and> c = sender_to 0 (S_Push t) ?c"
      using one s by (auto simp: one_sender_def split: if_splits)
    then show ?thesis using to' ok by auto
  next
    case (Push_Load j)
    then obtain t where "senders ?c 0 = S_Push t"
      "c = sender_to 0 (if ring_full (ring ?c) (rear (ring ?c)) then S_Refresh t (rear (ring ?c)) else S_Write t (rear (ring ?c))) ?c"
      using one s by (auto simp: one_sender_def Let_def split: sender_pc.splits)
    then show ?thesis using to' by simp
  next
    case (Retry j)
    then obtain t where "senders ?c 0 = S_Full t" "c = sender_to 0 (if recv_gone ?c then S_Idle else S_Push t) ?c"
      using one s by (auto simp: one_sender_def split: sender_pc.splits)
    then show ?thesis using to' by simp
  next
    case (Give_Up j)
    then obtain t where "senders ?c 0 = S_Full t" "c = sender_to 0 S_Idle ?c"
      using one s by (auto simp: one_sender_def split: sender_pc.splits)
    then show ?thesis using to' by simp
  qed (use s in simp_all)
qed

lemma win_wake_ok_wake:
  assumes ok: "win_wake_ok w" and one: "one_sender (wc_chan w) x" and s: "win_wake_next x w = Some w'"
  shows "win_wake_ok w'"
  using s one
proof (cases rule: win_wake_cases)
  case look
  then show ?thesis using ok wake_cond_sender(2) [of _ "need_wakeup (wc_chan w)"]
    by (cases "need_wakeup (wc_chan w)") (simp_all add: win_wake_ok_def Let_def)
next
  case clear
  then show ?thesis using ok wake_cond_sender(3) by (simp add: win_wake_ok_def Let_def)
next
  case post
  then show ?thesis using ok wake_cond_sender(4) by (simp add: win_wake_ok_def Let_def)
next
  case leave
  then show ?thesis using ok wake_cond_sender(1) by (simp add: win_wake_ok_def Let_def)
qed

lemma win_wake_ok_begin:
  assumes "win_wake_ok w" and "receiver (wc_chan w) = R_Idle" and "need_reset (wc_chan w) \<or> p = wc_packets w"
  shows "win_wake_ok (w\<lparr>wc_packets := p, wc_chan := win_recv_begin (wc_chan w)\<rparr>)"
  using assms wake_cond_receiver(1) [of "in_wakeup (senders (wc_chan w) 0)" "need_wakeup (wc_chan w)" "need_reset (wc_chan w)" _ _ _ _ p]
  by (cases "need_reset (wc_chan w)") (simp_all add: win_wake_ok_def win_recv_begin_def Let_def)

lemma win_wake_ok_recv:
  assumes inv: "chan_inv (wc_chan w)" and ok: "win_wake_ok w" and fresh: "fresh_loads (wc_chan w) x"
    and s: "win_recv_next x (wc_chan w) = Some c"
  shows "win_wake_ok (w\<lparr>wc_chan := c\<rparr>)"
  using s
proof (cases rule: win_recv_cases)
  case start
  then show ?thesis using win_wake_ok_begin [OF ok, of "wc_packets w"] by simp
next
  case drop
  then show ?thesis using ok wake_cond_receiver(3) by (simp add: win_wake_ok_def Let_def)
next
  case same
  let ?c = "wc_chan w"
  show ?thesis
  proof (cases x)
    case (Pop_Refresh k)
    then obtain f where f: "receiver ?c = R_Refresh f" "k = rear (ring ?c)"
      "c = ?c\<lparr>ring := (ring ?c)\<lparr>shadow_rear := k\<rparr>, recv_view := k, receiver := (if f = k then R_Count else R_Take f)\<rparr>"
      using same fresh by (auto simp: fresh_loads_def split: receiver_pc.splits if_splits)
    then have "f = front (ring ?c)" using chan_invD(8) [OF inv] by (simp add: receiver_ok_def)
    then show ?thesis using ok wake_cond_receiver(4,8) f by (simp add: win_wake_ok_def Let_def)
  next
    case Count
    then have r: "receiver ?c = R_Count" and c: "c = (if gone ?c then ?c\<lparr>need_reset := True, ended := True, receiver := R_Idle\<rparr>
        else ?c\<lparr>need_reset := True, waiting := True, receiver := R_Idle\<rparr>)"
      using same(1) by (simp_all split: if_splits)
    show ?thesis using ok wake_cond_receiver(6,7) r unfolding c by (cases "gone ?c") (simp_all add: win_wake_ok_def Let_def)
  next
    case Pop_Take
    then obtain f v where "receiver ?c = R_Take f" "c = ?c\<lparr>ring := ring_clear f (ring ?c), receiver := R_Release v f\<rparr>"
      using same(1) by (auto split: receiver_pc.splits)
    then show ?thesis using ok by (simp add: win_wake_ok_def Let_def)
  next
    case Pop_Release
    then obtain f v where "receiver ?c = R_Release v f"
      "c = ?c\<lparr>ring := ring_release f (ring ?c), received := received ?c @ [v], receiver := R_Idle\<rparr>"
      using same(1) by (auto split: receiver_pc.splits)
    then show ?thesis using ok wake_cond_receiver(5) by (simp add: win_wake_ok_def Let_def)
  next
    case Reset_Rearm
    then have "receiver ?c = R_Rearm" "c = ?c\<lparr>need_wakeup := True, need_reset := False, receiver := R_Pop\<rparr>"
      using same(1) by (simp_all split: if_splits)
    then show ?thesis using ok wake_cond_receiver(2) by (simp add: win_wake_ok_def Let_def)
  next
    case Pop_Load
    then have r: "receiver ?c = R_Pop" and c: "c = ?c\<lparr>receiver := (if front (ring ?c) = shadow_rear (ring ?c)
        then R_Refresh (front (ring ?c)) else R_Take (front (ring ?c)))\<rparr>"
      using same(1) by (simp_all add: Let_def split: if_splits)
    show ?thesis using ok r unfolding c
      by (cases "front (ring ?c) = shadow_rear (ring ?c)") (simp_all add: win_wake_ok_def Let_def)
  qed (use same in simp_all)
qed

text \<open>The loop takes packets only while the receiver waits, and then the task polls it.\<close>

definition polled_until_waiting :: "'a win_chan \<Rightarrow> 'a win_action \<Rightarrow> bool" where
  "polled_until_waiting w a \<longleftrightarrow>
     (case a of
        Step x \<Rightarrow> one_sender (wc_chan w) x \<and> fresh_loads (wc_chan w) x
      | Dispatch polls \<Rightarrow> waiting (wc_chan w) \<and> polls \<or> ended (wc_chan w) \<or> recv_gone (wc_chan w))"

lemma win_next_over:
  assumes "win_chan_next a w = Some w'" and "ended (wc_chan w) \<or> recv_gone (wc_chan w)"
  shows "ended (wc_chan w') \<or> recv_gone (wc_chan w')"
  using assms(1)
proof (cases rule: win_next_cases)
  case (send x c)
  then show ?thesis using assms(2) by (cases x) (auto simp: Let_def sender_to_def split: if_splits sender_pc.splits)
next
  case (wake x)
  then show ?thesis using assms(2) by (cases x) (auto simp: Let_def sender_to_def split: if_splits)
next
  case (recv x c)
  from recv(2) have "ended c \<or> recv_gone c"
  proof (cases rule: win_recv_cases)
    case start
    then show ?thesis using assms(2) by (simp add: win_recv_begin_def)
  next
    case same
    then show ?thesis using assms(2) by (cases x) (auto simp: Let_def split: if_splits receiver_pc.splits)
  qed simp
  with recv(3) show ?thesis by simp
next
  case (dispatch polls)
  then show ?thesis using assms(2) by (simp add: win_recv_begin_def)
qed

lemma win_reach_wake:
  assumes "win_reach polled_until_waiting capacity w" and "length (sent (wc_chan w)) + capacity \<le> usize_max"
  shows "ended (wc_chan w) \<or> recv_gone (wc_chan w) \<or> win_wake_ok w"
  using assms
proof (induction rule: win_reach.induct)
  case win_reach_new
  show ?case by (simp add: win_wake_ok_def wake_cond_def win_sync_channel_def sync_channel_def Let_def)
next
  case (win_reach_step w a w')
  note s = win_reach_step.hyps(3) and allowed = win_reach_step.hyps(2) [unfolded polled_until_waiting_def]
  obtain ts where "sent (wc_chan w') = sent (wc_chan w) @ ts" using win_next_sent [OF s] by blast
  then have bound: "length (sent (wc_chan w)) + capacity \<le> usize_max" using win_reach_step.prems by simp
  have inv: "chan_inv (wc_chan w)"
    by (rule win_reach_inv [OF win_reach_step.hyps(1) _ bound, THEN conjunct1]) (simp add: polled_until_waiting_def)
  show ?case
  proof (cases "ended (wc_chan w) \<or> recv_gone (wc_chan w)")
    case True
    then show ?thesis using win_next_over [OF s] by blast
  next
    case False
    then have ok: "win_wake_ok w" using win_reach_step.IH bound by blast
    from s show ?thesis
    proof (cases rule: win_next_cases)
      case (send x c)
      then show ?thesis using win_wake_ok_send [OF ok _ send(2)] allowed by simp
    next
      case (wake x)
      then show ?thesis using win_wake_ok_wake [OF ok _ wake(2)] allowed by simp
    next
      case (recv x c)
      then show ?thesis using win_wake_ok_recv [OF inv ok _ recv(2)] allowed by simp
    next
      case (dispatch polls)
      then have "waiting (wc_chan w)" "polls" using allowed False by simp_all
      moreover have "need_reset (wc_chan w)" using ok \<open>waiting (wc_chan w)\<close> by (simp add: win_wake_ok_def wake_cond_def Let_def)
      ultimately show ?thesis using win_wake_ok_begin [OF ok dispatch(3), of "wc_packets w - 1"] dispatch(4) False by simp
    qed
  qed
qed

section \<open>Properties\<close>

text \<open>
  C21. The channel on Windows is as safe as on unix, whatever the interleaving, stale loads and tasks that
  do not poll: the messages received are the first of those sent, in order, and at most \<open>capacity\<close> are on the
  way. If loads of \<open>rear\<close> are current, and a task that is run for a packet polls the receiver, which waits, no
  wakeup is lost: when the sender is between calls, a packet is posted for a receiver that waits while a message
  is on the way or the sender was dropped.
\<close>

theorem win_no_lost_wakeup:
  assumes "win_reach (\<lambda>w a. \<forall>x. a = Step x \<longrightarrow> one_sender (wc_chan w) x) capacity w"
    and "length (sent (wc_chan w)) + capacity \<le> usize_max"
  shows "received (wc_chan w) = take (length (received (wc_chan w))) (sent (wc_chan w)) \<and>
    length (sent (wc_chan w)) \<le> length (received (wc_chan w)) + capacity \<and>
    (win_reach polled_until_waiting capacity w \<longrightarrow>
      waiting (wc_chan w) \<and> \<not> ended (wc_chan w) \<and> \<not> recv_gone (wc_chan w) \<and> senders (wc_chan w) 0 = S_Idle \<and>
        (received (wc_chan w) \<noteq> sent (wc_chan w) \<or> gone (wc_chan w)) \<longrightarrow> 0 < wc_packets w)"
proof -
  let ?c = "wc_chan w"
  have inv: "chan_inv ?c" and cap: "rb_cap (ring ?c) = capacity"
    using win_reach_inv [OF assms(1) _ assms(2)] by simp_all
  note i = chan_invD [OF inv]
  have "0 < wc_packets w"
    if "win_reach polled_until_waiting capacity w" "waiting ?c" "\<not> ended ?c" "\<not> recv_gone ?c" "senders ?c 0 = S_Idle"
      "received ?c \<noteq> sent ?c \<or> gone ?c"
  proof -
    have "win_wake_ok w" using win_reach_wake [OF that(1) assms(2)] that(3,4) by blast
    moreover have "front (ring ?c) \<noteq> rear (ring ?c) \<or> gone ?c" using i(6,12,13) that(6) by auto
    ultimately show ?thesis using that(2,5) by (simp add: win_wake_ok_def wake_cond_def Let_def)
  qed
  moreover have "length (sent ?c) \<le> length (received ?c) + capacity" using i(1,6,12,14) cap by simp
  ultimately show ?thesis using i(13) by simp
qed

text \<open>The receiver finds nothing and waits; then a message comes.\<close>

definition win_wait_then_message :: "nat win_action list" where
  "win_wait_then_message = map Step [Poll, Reset_Rearm, Pop_Load, Pop_Refresh 0, Count, Send 0 7, Push_Load 0, Push_Write 0,
     Push_Publish 0, Wake_Load 0, Wake_Clear 0, Wake_Signal 0]"

text \<open>A run whose actions are all allowed where they are taken.\<close>

fun win_run_ok :: "('a win_chan \<Rightarrow> 'a win_action \<Rightarrow> bool) \<Rightarrow> 'a win_action list \<Rightarrow> 'a win_chan \<Rightarrow> bool" where
  "win_run_ok ok [] w = True"
| "win_run_ok ok (a # as) w = (ok w a \<and> (case win_chan_next a w of Some w' \<Rightarrow> win_run_ok ok as w' | None \<Rightarrow> False))"

lemma win_exec_reach:
  "win_reach ok capacity w \<Longrightarrow> win_chan_exec as w = Some w' \<Longrightarrow> win_run_ok ok as w \<Longrightarrow> win_reach ok capacity w'"
  by (induction as arbitrary: w) (auto split: option.splits dest: win_reach_step)

lemmas win_channel_eval = win_chan_next_def win_sync_channel_def win_recv_begin_def channel_eval

theorem win_no_lost_wakeup_witness:
  "\<exists>w. win_chan_exec win_wait_then_message (win_sync_channel 2) = Some w \<and> waiting (wc_chan w) \<and>
     received (wc_chan w) = [] \<and> 0 < wc_packets w"
proof -
  let ?one = "\<lambda>w a. \<forall>x. a = Step x \<longrightarrow> one_sender (wc_chan w) x"
  obtain w where w: "win_chan_exec win_wait_then_message (win_sync_channel 2) = Some w"
    "waiting (wc_chan w)" "received (wc_chan w) = []" "sent (wc_chan w) = [7]" "senders (wc_chan w) 0 = S_Idle"
    "\<not> ended (wc_chan w)" "\<not> recv_gone (wc_chan w)"
    by (simp add: win_wait_then_message_def win_channel_eval)
  have "win_reach ?one 2 w"
    by (rule win_exec_reach [OF win_reach_new w(1)]) (simp add: win_wait_then_message_def one_sender_def win_channel_eval)
  moreover have "win_reach polled_until_waiting 2 w"
    by (rule win_exec_reach [OF win_reach_new w(1)])
      (simp add: win_wait_then_message_def polled_until_waiting_def one_sender_def fresh_loads_def win_channel_eval)
  ultimately show ?thesis using win_no_lost_wakeup [of 2 w] w by (auto simp: usize_max_def)
qed

section \<open>Races\<close>

text \<open>
  The task takes two messages; the packet of the second comes when it waits for something else. It then finds
  the receiver empty, without having reset it.
\<close>

definition packet_consumed :: "nat win_action list" where
  "packet_consumed = map Step [Send 0 1, Push_Load 0, Push_Write 0, Push_Publish 0, Wake_Load 0,
     Poll, Reset_Rearm, Pop_Load, Pop_Refresh 1, Pop_Take, Pop_Release,
     Send 0 2, Push_Load 0, Push_Write 0, Push_Publish 0, Wake_Load 0, Wake_Clear 0, Wake_Signal 0,
     Poll, Pop_Load, Pop_Refresh 2, Pop_Take, Pop_Release] @ [Dispatch False] @
   map Step [Poll, Pop_Load, Pop_Refresh 2, Count, Send 0 3, Push_Load 0, Push_Refresh 0 2, Push_Write 0, Push_Publish 0, Wake_Load 0]"

text \<open>One thread sends, and loads are current.\<close>

definition fresh_single :: "'a win_chan \<Rightarrow> 'a win_action \<Rightarrow> bool" where
  "fresh_single w a = (case a of Step x \<Rightarrow> one_sender (wc_chan w) x \<and> fresh_loads (wc_chan w) x | Dispatch _ \<Rightarrow> True)"


end
