(* ===== verification/Prefix.thy ===== *)
theory Prefix
  imports Codec_Scalar Codec_Bytes
begin

text \<open>
  Streams of length-prefixed messages: \<open>src/proto\<close>. The stream that is wrapped is a function from
  its state to the result of a poll, which yields buffers. The four files with prefixes of two and
  four bytes differ in the codec of the prefix only, so they are instances of the same functions.
  \<open>None\<close> is a call of \<open>unreachable()\<close>.
\<close>

section \<open>State\<close>

datatype prefix_state = More nat | Pending | Done

record 's prefix =
  px_stream :: 's
  px_state :: prefix_state
  px_data :: bytebuf

type_synonym ('s, 'e) source = "'s \<Rightarrow> (bytebuf option, 'e) poll \<times> 's"
type_synonym ('s, 'e) polled = "((bytebuf option, 'e) poll \<times> 's prefix) option"

definition prefix_new :: "'s \<Rightarrow> 's prefix" where
  "prefix_new stream = \<lparr>px_stream = stream, px_state = Pending, px_data = bytebuf_new\<rparr>"

text \<open>The cast of the value read to \<open>usize\<close>.\<close>

definition length_reader :: "'n::len word codec \<Rightarrow> nat reader" where
  "length_reader c b = apfst (map_outcome unat) (bb_read (codec_read c) b)"

section \<open>Polls\<close>

definition prefix_poll_more :: "('s, 'e) source \<Rightarrow> nat \<Rightarrow> 's prefix \<Rightarrow> ('s, 'e) polled" where
  "prefix_poll_more poll_s n p =
     (case poll_s (px_stream p) of
        (NotReady, s) \<Rightarrow> Some (NotReady, p\<lparr>px_stream := s\<rparr>)
      | (Failed e, s) \<Rightarrow> Some (Failed e, p\<lparr>px_stream := s\<rparr>)
      | (Ready None, s) \<Rightarrow> Some (Ready None, p\<lparr>px_stream := s, px_state := Done\<rparr>)
      | (Ready (Some pulled), s) \<Rightarrow>
          (case bb_drain_to n (bb_extend pulled (px_data p)) of
             (Ok t, data) \<Rightarrow> Some (Ready (Some t), p\<lparr>px_stream := s, px_data := data, px_state := Pending\<rparr>)
           | (Err _, data) \<Rightarrow> Some (NotReady, p\<lparr>px_stream := s, px_data := data\<rparr>)
           | (Panic, data) \<Rightarrow> None))"

text \<open>The prefixes of two and four bytes (\<open>sz\<close>).\<close>

definition prefix_poll_pending :: "nat \<Rightarrow> nat reader \<Rightarrow> ('s, 'e) source \<Rightarrow> 's prefix \<Rightarrow> ('s, 'e) polled" where
  "prefix_poll_pending sz rd poll_s p =
     (case poll_s (px_stream p) of
        (NotReady, s) \<Rightarrow> Some (NotReady, p\<lparr>px_stream := s\<rparr>)
      | (Failed e, s) \<Rightarrow> Some (Failed e, p\<lparr>px_stream := s\<rparr>)
      | (Ready None, s) \<Rightarrow> Some (Ready None, p\<lparr>px_stream := s, px_state := Done\<rparr>)
      | (Ready (Some pulled), s) \<Rightarrow>
          (let len = bb_len pulled
           in if len < sz then Some (NotReady, p\<lparr>px_stream := s, px_data := pulled\<rparr>)
              else case rd pulled of
                     (Ok n, data) \<Rightarrow>
                       (if len \<ge> n then
                          (case bb_drain_to n data of
                             (Ok t, data) \<Rightarrow> Some (Ready (Some t), p\<lparr>px_stream := s, px_data := data\<rparr>)
                           | _ \<Rightarrow> None)
                        else Some (NotReady, p\<lparr>px_stream := s, px_data := data, px_state := More n\<rparr>))
                   | _ \<Rightarrow> None))"

definition prefix_poll :: "nat \<Rightarrow> nat reader \<Rightarrow> ('s, 'e) source \<Rightarrow> 's prefix \<Rightarrow> ('s, 'e) polled" where
  "prefix_poll sz rd poll_s p =
     (case px_state p of
        Pending \<Rightarrow>
          (let len = bb_len (px_data p)
           in if len < sz then prefix_poll_pending sz rd poll_s p
              else case rd (px_data p) of
                     (Ok n, data) \<Rightarrow>
                       (if len \<ge> n then
                          (case bb_drain_to n data of
                             (Ok t, data) \<Rightarrow> Some (Ready (Some t), p\<lparr>px_data := data\<rparr>)
                           | _ \<Rightarrow> None)
                        else prefix_poll_more poll_s n (p\<lparr>px_data := data, px_state := More n\<rparr>))
                   | _ \<Rightarrow> None)
      | More n \<Rightarrow> prefix_poll_more poll_s n p
      | Done \<Rightarrow> Some (Ready None, p))"

definition u16be_prefix_poll :: "bool \<Rightarrow> ('s, 'e) source \<Rightarrow> 's prefix \<Rightarrow> ('s, 'e) polled" where
  "u16be_prefix_poll little = prefix_poll 2 (length_reader (u16_big_endian little))"

definition u16le_prefix_poll :: "bool \<Rightarrow> ('s, 'e) source \<Rightarrow> 's prefix \<Rightarrow> ('s, 'e) polled" where
  "u16le_prefix_poll little = prefix_poll 2 (length_reader (u16_little_endian little))"

definition u32be_prefix_poll :: "bool \<Rightarrow> ('s, 'e) source \<Rightarrow> 's prefix \<Rightarrow> ('s, 'e) polled" where
  "u32be_prefix_poll little = prefix_poll 4 (length_reader (u32_big_endian little))"

definition u32le_prefix_poll :: "bool \<Rightarrow> ('s, 'e) source \<Rightarrow> 's prefix \<Rightarrow> ('s, 'e) polled" where
  "u32le_prefix_poll little = prefix_poll 4 (length_reader (u32_little_endian little))"

text \<open>The prefix of one byte.\<close>

definition u8_prefix_poll_pending :: "('s, 'e) source \<Rightarrow> 's prefix \<Rightarrow> ('s, 'e) polled" where
  "u8_prefix_poll_pending poll_s p =
     (case poll_s (px_stream p) of
        (NotReady, s) \<Rightarrow> Some (NotReady, p\<lparr>px_stream := s\<rparr>)
      | (Failed e, s) \<Rightarrow> Some (Failed e, p\<lparr>px_stream := s\<rparr>)
      | (Ready None, s) \<Rightarrow> Some (Ready None, p\<lparr>px_stream := s, px_state := Done\<rparr>)
      | (Ready (Some pulled), s) \<Rightarrow>
          (case length_reader u8_codec pulled of
             (Ok n, data) \<Rightarrow>
               (case bb_drain_to n data of
                  (Ok t, data) \<Rightarrow> Some (Ready (Some t), p\<lparr>px_stream := s, px_data := data\<rparr>)
                | (Err _, data) \<Rightarrow> Some (NotReady, p\<lparr>px_stream := s, px_data := data, px_state := More n\<rparr>)
                | (Panic, data) \<Rightarrow> None)
           | (Err _, data) \<Rightarrow> Some (NotReady, p\<lparr>px_stream := s, px_data := data\<rparr>)
           | (Panic, data) \<Rightarrow> None))"

definition u8_prefix_poll :: "('s, 'e) source \<Rightarrow> 's prefix \<Rightarrow> ('s, 'e) polled" where
  "u8_prefix_poll poll_s p =
     (case px_state p of
        Pending \<Rightarrow>
          (case length_reader u8_codec (px_data p) of
             (Ok n, data) \<Rightarrow>
               (case bb_drain_to n data of
                  (Ok t, data) \<Rightarrow> Some (Ready (Some t), p\<lparr>px_data := data\<rparr>)
                | (Err _, data) \<Rightarrow> prefix_poll_more poll_s n (p\<lparr>px_data := data, px_state := More n\<rparr>)
                | (Panic, data) \<Rightarrow> None)
           | (Err _, data) \<Rightarrow> u8_prefix_poll_pending poll_s (p\<lparr>px_data := data\<rparr>)
           | (Panic, data) \<Rightarrow> None)
      | More n \<Rightarrow> prefix_poll_more poll_s n p
      | Done \<Rightarrow> Some (Ready None, p))"

section \<open>Reading a prefix and a message\<close>

lemma length_reader_spec:
  assumes "fixed_codec (c :: 'n::len word codec) valid enc dec sz e" and "bb_wf b"
  shows "\<exists>b'. length_reader c b =
      (if sz \<le> length (content b) then Ok (unat (dec (take sz (content b)))) else Err Underflow, b') \<and>
    bb_wf b' \<and> content b' = drop sz (content b) \<and> (sz \<le> length (content b) \<longrightarrow> idx b' < length (blocks b'))"
proof -
  obtain b' where b': "codec_read c b = (if sz \<le> length (content b) then Ok (dec (take sz (content b))) else Err Underflow, b')"
    "bb_wf b'" "content b' = drop sz (content b)"
    using fixed_codec.read_spec [OF assms] by blast
  with fixed_codec.read_live [OF assms _ b'(1)] show ?thesis by (auto simp: length_reader_def bb_read_def)
qed

lemma not_live_content: "\<not> idx b < length (blocks b) \<Longrightarrow> content b = []"
  by (simp add: content_def)

text \<open>Taking a message out of a buffer; one that starts with a block still to be read.\<close>

lemma drain_spec:
  assumes "bb_wf b" and "n = 0 \<longrightarrow> idx b < length (blocks b)"
  shows "n \<le> length (content b) \<Longrightarrow> \<exists>t b'. bb_drain_to n b = (Ok t, b') \<and> bb_wf t \<and> bb_wf b' \<and>
      content t = take n (content b) \<and> content b' = drop n (content b)"
    and "length (content b) < n \<Longrightarrow> bb_drain_to n b = (Err IndexOutOfBounds, b)"
proof -
  assume n: "n \<le> length (content b)"
  then have "idx b < length (blocks b)" using assms(2) not_live_content [of b] by (cases "n = 0") fastforce+
  with bb_drain_to_Ok [OF assms(1) _ n] show "\<exists>t b'. bb_drain_to n b = (Ok t, b') \<and> bb_wf t \<and> bb_wf b' \<and>
      content t = take n (content b) \<and> content b' = drop n (content b)" by metis
next
  assume "length (content b) < n"
  then show "bb_drain_to n b = (Err IndexOutOfBounds, b)" by (intro bb_drain_to_Err [OF assms(1)]) simp
qed

section \<open>Framed streams\<close>

text \<open>
  What a stream of messages does on the bytes not yet handed out: \<open>parse\<close> takes the first message
  off, if it is complete; else one more buffer is pulled.
\<close>

definition framed_poll :: "(u8 list \<Rightarrow> (u8 list \<times> u8 list) option) \<Rightarrow> ('s, 'e) source \<Rightarrow> u8 list \<times> 's \<Rightarrow>
    (u8 list option, 'e) poll \<times> u8 list \<times> 's" where
  "framed_poll parse poll_s = (\<lambda>(d, s).
     case parse d of
       Some (msg, rest) \<Rightarrow> (Ready (Some msg), rest, s)
     | None \<Rightarrow>
         (case poll_s s of
            (NotReady, s) \<Rightarrow> (NotReady, d, s)
          | (Failed e, s) \<Rightarrow> (Failed e, d, s)
          | (Ready None, s) \<Rightarrow> (Ready None, d, s)
          | (Ready (Some b), s) \<Rightarrow>
              (case parse (d @ content b) of
                 Some (msg, rest) \<Rightarrow> (Ready (Some msg), rest, s)
               | None \<Rightarrow> (NotReady, d @ content b, s))))"

definition parse_u8 :: "u8 list \<Rightarrow> (u8 list \<times> u8 list) option" where
  "parse_u8 d = (case d of
     [] \<Rightarrow> None
   | n # rest \<Rightarrow> if unat n \<le> length rest then Some (take (unat n) rest, drop (unat n) rest) else None)"

definition poll_bytes :: "(bytebuf option, 'e) poll \<Rightarrow> (u8 list option, 'e) poll" where
  "poll_bytes r = (case r of Ready b \<Rightarrow> Ready (map_option content b) | NotReady \<Rightarrow> NotReady | Failed e \<Rightarrow> Failed e)"

text \<open>The next poll of the stream yields a well-formed buffer, if any.\<close>

definition sane :: "('s, 'e) source \<Rightarrow> 's \<Rightarrow> bool" where
  "sane poll_s s \<longleftrightarrow> (\<forall>b s'. poll_s s = (Ready (Some b), s') \<longrightarrow> bb_wf b)"

text \<open>The bytes not yet handed out, of which a prefix that was read is one.\<close>

definition u8_prefix_inv :: "'s prefix \<Rightarrow> u8 list \<Rightarrow> bool" where
  "u8_prefix_inv p d \<longleftrightarrow> bb_wf (px_data p) \<and>
     (case px_state p of
        Pending \<Rightarrow> d = content (px_data p)
      | More n \<Rightarrow> length (content (px_data p)) < n \<and> n < 256 \<and> d = of_nat n # content (px_data p)
      | Done \<Rightarrow> False)"

lemma poll_more_spec:
  assumes w: "bb_wf (px_data p)" and n: "length (content (px_data p)) < n" "n < 256" and st: "px_state p = More n"
    and s: "sane poll_s (px_stream p)" and f: "framed_poll parse_u8 poll_s (of_nat n # content (px_data p), px_stream p) = (r, d', s')"
  shows "\<exists>r0 p'. prefix_poll_more poll_s n p = Some (r0, p') \<and> poll_bytes r0 = r \<and> px_stream p' = s' \<and>
    (r = Ready None \<and> px_state p' = Done \<or> r \<noteq> Ready None \<and> u8_prefix_inv p' d')"
proof -
  let ?h = "of_nat n :: u8"
  have h: "unat ?h = n" using n(2) by (simp add: unat_of_nat)
  have none: "parse_u8 (?h # content (px_data p)) = None" using n(1) by (simp add: parse_u8_def h)
  obtain q s1 where q: "poll_s (px_stream p) = (q, s1)" by fastforce
  show ?thesis
  proof (cases q)
    case (Ready o1)
    show ?thesis
    proof (cases o1)
      case None
      with q Ready f none show ?thesis
        by (simp add: prefix_poll_more_def framed_poll_def poll_bytes_def)
    next
      case (Some b)
      then have b: "bb_wf b" using s q Ready by (auto simp: sane_def)
      let ?b = "bb_extend b (px_data p)"
      have e: "bb_wf ?b" "content ?b = content (px_data p) @ content b"
        using w b by (simp_all add: bb_extend_wf content_bb_extend)
      have n0: "n = 0 \<longrightarrow> idx ?b < length (blocks ?b)" using n(1) by simp
      show ?thesis
      proof (cases "n \<le> length (content ?b)")
        case True
        then obtain t b' where d: "bb_drain_to n ?b = (Ok t, b')" "bb_wf b'" "content t = take n (content ?b)"
          "content b' = drop n (content ?b)"
          using drain_spec(1) [OF e(1) n0] by blast
        have "parse_u8 (?h # content (px_data p) @ content b) = Some (content t, content b')"
          using True d e(2) by (simp add: parse_u8_def h)
        with q Ready Some f none d show ?thesis
          by (auto simp: prefix_poll_more_def framed_poll_def poll_bytes_def u8_prefix_inv_def)
      next
        case False
        then have d: "bb_drain_to n ?b = (Err IndexOutOfBounds, ?b)" using drain_spec(2) [OF e(1) n0] by simp
        have "parse_u8 (?h # content (px_data p) @ content b) = None"
          using False e(2) by (simp add: parse_u8_def h)
        with q Ready Some f none d e False n(2) st show ?thesis
          by (auto simp: prefix_poll_more_def framed_poll_def poll_bytes_def u8_prefix_inv_def)
      qed
    qed
  qed (use q f none n st w in \<open>auto simp: prefix_poll_more_def framed_poll_def poll_bytes_def u8_prefix_inv_def\<close>)
qed

lemma unat_lt_u8: "unat (h :: u8) < 256"
  by (rule order.strict_trans2 [OF unsigned_less]) simp

lemma u8_cases:
  assumes w: "bb_wf b"
  obtains (Empty) b1 where "content b = []" "parse_u8 (content b) = None"
      "length_reader u8_codec b = (Err Underflow, b1)" "bb_wf b1" "content b1 = []"
    | (Whole) n b1 t b2 where "parse_u8 (content b) = Some (content t, content b2)"
      "length_reader u8_codec b = (Ok n, b1)" "bb_drain_to n b1 = (Ok t, b2)" "bb_wf b2"
    | (Part) n b1 where "parse_u8 (content b) = None" "length_reader u8_codec b = (Ok n, b1)"
      "bb_drain_to n b1 = (Err IndexOutOfBounds, b1)" "bb_wf b1" "content b = of_nat n # content b1"
      "length (content b1) < n" "n < 256"
proof -
  obtain b1 where b1: "length_reader u8_codec b =
      (if 1 \<le> length (content b) then Ok (unat (hd (take 1 (content b)))) else Err Underflow, b1)"
    "bb_wf b1" "content b1 = drop 1 (content b)" "1 \<le> length (content b) \<longrightarrow> idx b1 < length (blocks b1)"
    using length_reader_spec [OF u8_laws.fixed_codec_axioms w] by blast
  show thesis
  proof (cases "content b")
    case Nil
    with b1 Empty show thesis by (simp add: parse_u8_def)
  next
    case (Cons h rest)
    let ?n = "unat h"
    have r: "length_reader u8_codec b = (Ok ?n, b1)" "content b1 = rest" "idx b1 < length (blocks b1)"
      using b1 Cons by simp_all
    then have n0: "?n = 0 \<longrightarrow> idx b1 < length (blocks b1)" by simp
    show thesis
    proof (cases "?n \<le> length rest")
      case True
      then obtain t b2 where d: "bb_drain_to ?n b1 = (Ok t, b2)" "bb_wf b2" "content t = take ?n rest"
        "content b2 = drop ?n rest"
        using drain_spec(1) [OF b1(2) n0] r(2) by auto
      have "parse_u8 (content b) = Some (content t, content b2)" using True Cons d by (simp add: parse_u8_def)
      then show thesis by (rule Whole [OF _ r(1) d(1,2)])
    next
      case False
      then have "length (content b1) < ?n" using r(2) by simp
      moreover from this have "bb_drain_to ?n b1 = (Err IndexOutOfBounds, b1)" by (rule drain_spec(2) [OF b1(2) n0])
      moreover have "parse_u8 (content b) = None" using False Cons by (simp add: parse_u8_def)
      moreover have "?n < 256" using unat_lt_u8 [of h] by simp
      moreover have "content b = of_nat ?n # content b1" using Cons r(2) by simp
      ultimately show thesis using Part [OF _ r(1) _ b1(2)] by simp
    qed
  qed
qed

lemma u8_poll_pending_spec:
  assumes w: "bb_wf (px_data p)" "content (px_data p) = []" and st: "px_state p = Pending"
    and s: "sane poll_s (px_stream p)" and f: "framed_poll parse_u8 poll_s ([], px_stream p) = (r, d', s')"
  shows "\<exists>r0 p'. u8_prefix_poll_pending poll_s p = Some (r0, p') \<and> poll_bytes r0 = r \<and> px_stream p' = s' \<and>
    (r = Ready None \<and> px_state p' = Done \<or> r \<noteq> Ready None \<and> u8_prefix_inv p' d')"
proof -
  have none: "parse_u8 [] = None" by (simp add: parse_u8_def)
  obtain q s1 where q: "poll_s (px_stream p) = (q, s1)" by fastforce
  show ?thesis
  proof (cases q)
    case (Ready o1)
    show ?thesis
    proof (cases o1)
      case None
      with q Ready f none show ?thesis
        by (simp add: u8_prefix_poll_pending_def framed_poll_def poll_bytes_def)
    next
      case (Some b)
      then have b: "bb_wf b" using s q Ready by (auto simp: sane_def)
      from b show ?thesis
        by (cases rule: u8_cases)
          (use q Ready Some f none st in \<open>auto simp: u8_prefix_poll_pending_def framed_poll_def poll_bytes_def u8_prefix_inv_def\<close>)
    qed
  qed (use q f none st w in \<open>auto simp: u8_prefix_poll_pending_def framed_poll_def poll_bytes_def u8_prefix_inv_def\<close>)
qed

lemma framed_poll_Some: "parse d = Some (msg, rest) \<Longrightarrow> framed_poll parse poll_s (d, s) = (Ready (Some msg), rest, s)"
  by (simp add: framed_poll_def)

lemma u8_poll_spec:
  assumes i: "u8_prefix_inv p d" and s: "sane poll_s (px_stream p)" and f: "framed_poll parse_u8 poll_s (d, px_stream p) = (r, d', s')"
  shows "\<exists>r0 p'. u8_prefix_poll poll_s p = Some (r0, p') \<and> poll_bytes r0 = r \<and> px_stream p' = s' \<and>
    (r = Ready None \<and> px_state p' = Done \<or> r \<noteq> Ready None \<and> u8_prefix_inv p' d')"
proof (cases "px_state p")
  case (More n)
  with i have "bb_wf (px_data p)" "length (content (px_data p)) < n" "n < 256" "d = of_nat n # content (px_data p)"
    by (simp_all add: u8_prefix_inv_def)
  with poll_more_spec [OF this(1-3) More s] f More show ?thesis by (simp add: u8_prefix_poll_def)
next
  case Pending
  with i have w: "bb_wf (px_data p)" and d: "d = content (px_data p)" by (simp_all add: u8_prefix_inv_def)
  from w show ?thesis
  proof (cases rule: u8_cases)
    case (Empty b1)
    let ?p = "p\<lparr>px_data := b1\<rparr>"
    have "u8_prefix_poll poll_s p = u8_prefix_poll_pending poll_s ?p" using Empty Pending by (simp add: u8_prefix_poll_def)
    then show ?thesis using u8_poll_pending_spec [of ?p poll_s r d' s'] Empty Pending s f d by simp
  next
    case (Whole n b1 t b2)
    with framed_poll_Some [of parse_u8 _ _ _ poll_s, OF Whole(1)] Pending f d show ?thesis
      by (auto simp: u8_prefix_poll_def poll_bytes_def u8_prefix_inv_def)
  next
    case (Part n b1)
    let ?p = "p\<lparr>px_data := b1, px_state := More n\<rparr>"
    have "u8_prefix_poll poll_s p = prefix_poll_more poll_s n ?p" using Part Pending by (simp add: u8_prefix_poll_def)
    then show ?thesis using poll_more_spec [of ?p n poll_s r d' s'] Part s f d by simp
  qed
next
  case Done
  with i show ?thesis by (simp add: u8_prefix_inv_def)
qed

section \<open>Runs of polls\<close>

fun prefix_run :: "('s prefix \<Rightarrow> ('s, 'e) polled) \<Rightarrow> nat \<Rightarrow> 's prefix \<Rightarrow> (u8 list option, 'e) poll list option" where
  "prefix_run poll_p 0 p = Some []"
| "prefix_run poll_p (Suc n) p =
     (case poll_p p of
        None \<Rightarrow> None
      | Some (r, p') \<Rightarrow> map_option ((#) (poll_bytes r)) (prefix_run poll_p n p'))"

text \<open>A framed stream that has ended is not polled any more.\<close>

fun framed_run :: "(u8 list \<Rightarrow> (u8 list \<times> u8 list) option) \<Rightarrow> ('s, 'e) source \<Rightarrow> nat \<Rightarrow> u8 list \<times> 's \<Rightarrow>
    (u8 list option, 'e) poll list" where
  "framed_run parse poll_s 0 ds = []"
| "framed_run parse poll_s (Suc n) ds =
     (case framed_poll parse poll_s ds of
        (Ready None, _) \<Rightarrow> replicate (Suc n) (Ready None)
      | (r, ds') \<Rightarrow> r # framed_run parse poll_s n ds')"

lemma done_run: "px_state p = Done \<Longrightarrow> prefix_run (u8_prefix_poll poll_s) n p = Some (replicate n (Ready None))"
  by (induction n) (simp_all add: u8_prefix_poll_def poll_bytes_def)

lemma framed_run_Suc:
  assumes "framed_poll parse poll_s ds = (r, ds')" and "r \<noteq> Ready None"
  shows "framed_run parse poll_s (Suc n) ds = r # framed_run parse poll_s n ds'"
  using assms by (auto split: poll.splits option.splits)

lemma u8_run:
  assumes "\<And>s. sane poll_s s" and "u8_prefix_inv p d"
  shows "prefix_run (u8_prefix_poll poll_s) n p = Some (framed_run parse_u8 poll_s n (d, px_stream p))"
  using assms(2)
proof (induction n arbitrary: p d)
  case (Suc n)
  obtain r d' s' where f: "framed_poll parse_u8 poll_s (d, px_stream p) = (r, d', s')" by (metis prod_cases3)
  from u8_poll_spec [OF Suc.prems assms(1) f] obtain r0 p' where
    p': "u8_prefix_poll poll_s p = Some (r0, p')" "poll_bytes r0 = r" "px_stream p' = s'"
    "r = Ready None \<and> px_state p' = Done \<or> r \<noteq> Ready None \<and> u8_prefix_inv p' d'"
    by blast
  show ?case
  proof (cases "r = Ready None")
    case True
    with p' f done_run [of p' poll_s n] show ?thesis by simp
  next
    case False
    with p'(4) have "u8_prefix_inv p' d'" by simp
    from Suc.IH [OF this] p' framed_run_Suc [OF f False, of n] show ?thesis by simp
  qed
qed simp

section \<open>Prefixes of two and four bytes\<close>

text \<open>
  What a poll of the wider prefixes does on the bytes buffered: a message whose prefix is counted as
  part of it reaches \<open>unreachable()\<close>, and bytes too few for a prefix are replaced by the next buffer.
\<close>

lemma wide_poll_whole:
  assumes c: "fixed_codec (c :: 'n::len word codec) valid enc dec sz e" and w: "bb_wf (px_data p)" and st: "px_state p = Pending"
    and d: "sz \<le> length (content (px_data p))" "n = unat (dec (take sz (content (px_data p))))"
  shows "sz + n \<le> length (content (px_data p)) \<Longrightarrow>
      \<exists>t b. prefix_poll sz (length_reader c) poll_s p = Some (Ready (Some t), p\<lparr>px_data := b\<rparr>) \<and> bb_wf b \<and>
        content t = take n (drop sz (content (px_data p))) \<and> content b = drop (sz + n) (content (px_data p))"
    and "n \<le> length (content (px_data p)) \<Longrightarrow> length (content (px_data p)) < sz + n \<Longrightarrow>
      prefix_poll sz (length_reader c) poll_s p = None"
    and "length (content (px_data p)) < n \<Longrightarrow>
      \<exists>b. prefix_poll sz (length_reader c) poll_s p = prefix_poll_more poll_s n (p\<lparr>px_data := b, px_state := More n\<rparr>) \<and>
        bb_wf b \<and> content b = drop sz (content (px_data p))"
proof -
  let ?d = "content (px_data p)"
  obtain b1 where b1: "length_reader c (px_data p) = (Ok n, b1)" "bb_wf b1" "content b1 = drop sz ?d"
    "idx b1 < length (blocks b1)"
    using length_reader_spec [OF c w] d by auto
  then have n0: "n = 0 \<longrightarrow> idx b1 < length (blocks b1)" by simp
  have len: "bb_len (px_data p) = length ?d" by (rule bb_len_content [OF w])
  show "sz + n \<le> length ?d \<Longrightarrow> \<exists>t b. prefix_poll sz (length_reader c) poll_s p = Some (Ready (Some t), p\<lparr>px_data := b\<rparr>) \<and>
      bb_wf b \<and> content t = take n (drop sz ?d) \<and> content b = drop (sz + n) ?d"
  proof -
    assume *: "sz + n \<le> length ?d"
    then have "n \<le> length (content b1)" using b1(3) by simp
    with drain_spec(1) [OF b1(2) n0] obtain t b where "bb_drain_to n b1 = (Ok t, b)" "bb_wf b" "content t = take n (drop sz ?d)"
      "content b = drop n (drop sz ?d)"
      unfolding b1(3) by blast
    with * st d(1) len b1(1) show ?thesis
      by (intro exI [of _ t] exI [of _ b]) (simp add: prefix_poll_def add.commute)
  qed
  show "n \<le> length ?d \<Longrightarrow> length ?d < sz + n \<Longrightarrow> prefix_poll sz (length_reader c) poll_s p = None"
  proof -
    assume "n \<le> length ?d" "length ?d < sz + n"
    moreover from this have "bb_drain_to n b1 = (Err IndexOutOfBounds, b1)"
      using b1(3) d(1) by (intro drain_spec(2) [OF b1(2) n0]) simp
    ultimately show ?thesis using st d(1) len b1(1) by (simp add: prefix_poll_def)
  qed
  show "length ?d < n \<Longrightarrow> \<exists>b. prefix_poll sz (length_reader c) poll_s p =
      prefix_poll_more poll_s n (p\<lparr>px_data := b, px_state := More n\<rparr>) \<and> bb_wf b \<and> content b = drop sz ?d"
    using st d(1) len b1 by (intro exI [of _ b1]) (simp add: prefix_poll_def)
qed

lemma wide_poll_short:
  assumes w: "bb_wf (px_data p)" and st: "px_state p = Pending" and d: "length (content (px_data p)) < sz"
    and q: "poll_s (px_stream p) = (Ready (Some b), s)" "bb_wf b" "length (content b) < sz"
  shows "prefix_poll sz rd poll_s p = Some (NotReady, p\<lparr>px_stream := s, px_data := b\<rparr>)"
  using assms by (simp add: prefix_poll_def prefix_poll_pending_def bb_len_content Let_def)

end
