(* ===== verification/Prefix_Correct.thy ===== *)
theory Prefix_Correct
  imports Prefix
begin

text \<open>
  The stream of messages with a prefix of one byte frames the bytes of its stream; those with wider
  prefixes do so for some sequences of buffers only.
\<close>

text \<open>A stream of given buffers.\<close>

fun feed :: "(bytebuf list, 'e) source" where
  "feed [] = (Ready None, [])"
| "feed (b # bs) = (Ready (Some b), bs)"

definition chunk :: "u8 list \<Rightarrow> bytebuf" where
  "chunk bs = bytebuf_from bs (length bs)"

lemma chunk_facts: "bb_wf (chunk bs)" "content (chunk bs) = bs"
  by (simp_all add: chunk_def bytebuf_from_wf content_bytebuf_from)

lemma fresh_data: "bb_wf (px_data (prefix_new s))" "content (px_data (prefix_new s)) = []"
  by (simp_all add: prefix_new_def bytebuf_new_def bytebuf_with_growth_wf content_bytebuf_with_growth)

text \<open>
  C23. For every stream of well-formed buffers, the first polls of a stream of messages with a prefix
  of one byte return what cutting the concatenated bytes into messages would, however the bytes are
  spread over the buffers: a poll hands out the next message if it is complete and else pulls one
  buffer. No poll reaches \<open>unreachable()\<close>, and after its end the stream is not polled again.
\<close>

theorem u8_prefix_correct:
  assumes "\<forall>s b s'. poll_s s = (Ready (Some b), s') \<longrightarrow> bb_wf b"
  shows "prefix_run (u8_prefix_poll poll_s) n (prefix_new s) = Some (framed_run parse_u8 poll_s n ([], s))"
proof -
  have new: "px_state (prefix_new s) = Pending" "px_stream (prefix_new s) = s"
    by (simp_all add: prefix_new_def)
  then have "u8_prefix_inv (prefix_new s) []" by (simp add: u8_prefix_inv_def fresh_data)
  with u8_run [of poll_s "prefix_new s" "[]" n] new assms show ?thesis by (simp add: sane_def)
qed

theorem u8_prefix_correct_witness:
  "prefix_run (u8_prefix_poll (\<lambda>s. case s of [] \<Rightarrow> (Ready None, []) | bs # s \<Rightarrow> (Ready (Some (chunk bs)), s)))
     6 (prefix_new [[2, 7], [8, 1], [], [9]]) =
   Some [NotReady, Ready (Some [7, 8]), NotReady, Ready (Some [9]), Ready None, Ready (None :: u8 list option) :: (_, unit) poll]"
proof -
  have n: "6 = Suc (Suc (Suc (Suc (Suc (Suc 0)))))" by simp
  show ?thesis
    unfolding n by (subst u8_prefix_correct) (auto simp: chunk_facts framed_poll_def parse_u8_def split: list.splits)
qed



end
