(* ===== verification/Nio_Bsd.thy ===== *)
theory Nio_Bsd
  imports Event_Loop_Correct
begin

text \<open>
  Sockets on the BSDs: \<open>src/sys/unix/bsd/nio_imp.rs\<close> and \<open>poll.rs\<close>. The interest in reading and that in
  writing are two filters of the kernel queue, and an event is for one of them. A socket is shown to wake the
  same tasks as one of Linux.
\<close>

section \<open>Sockets\<close>

datatype kq_filter = Filter_Read | Filter_Write

record kevent =
  kv_token :: nat
  kv_read :: bool

text \<open>The kernel queue: adding (\<open>True\<close>) or deleting a filter of the descriptor.\<close>

type_synonym 'p kqueue = "bool \<Rightarrow> kq_filter \<Rightarrow> nat \<Rightarrow> 'p \<Rightarrow> bool \<times> 'p"

definition bsd_try_from :: "'f sys_loop \<Rightarrow> (nio \<times> 'f sys_loop) option" where
  "bsd_try_from sl =
     (case sys_schedule sl of
        None \<Rightarrow> None
      | Some (tok, sl) \<Rightarrow> Some (\<lparr>nio_token = tok, nio_read = False, nio_write = False\<rparr>, sl))"

definition bsd_change :: "'p kqueue \<Rightarrow> bool \<Rightarrow> kq_filter \<Rightarrow> (nat \<Rightarrow> 'f sys_loop \<Rightarrow> 'f sys_loop option) \<Rightarrow> nio \<Rightarrow> 'f sys_loop \<times> 'p \<Rightarrow>
    (unit, unit) outcome \<times> nio \<times> 'f sys_loop \<times> 'p" where
  "bsd_change kq add f after n lp =
     (let (sl, p) = lp
      in case kq add f (nio_token n) p of
           (False, p) \<Rightarrow> (Err (), n, sl, p)
         | (True, p) \<Rightarrow> (case after (nio_token n) sl of Some sl \<Rightarrow> (Ok (), n, sl, p) | None \<Rightarrow> (Panic, n, sl, p)))"

definition bsd_schedule_read :: "'p kqueue \<Rightarrow> nio \<Rightarrow> 'f sys_loop \<times> 'p \<Rightarrow> (unit, unit) outcome \<times> nio \<times> 'f sys_loop \<times> 'p" where
  "bsd_schedule_read kq n lp =
     (if nio_read n then (Ok (), n, lp) else bsd_change kq True Filter_Read sys_schedule_read (n\<lparr>nio_read := True\<rparr>) lp)"

definition bsd_schedule_write :: "'p kqueue \<Rightarrow> nio \<Rightarrow> 'f sys_loop \<times> 'p \<Rightarrow> (unit, unit) outcome \<times> nio \<times> 'f sys_loop \<times> 'p" where
  "bsd_schedule_write kq n lp =
     (if nio_write n then (Ok (), n, lp) else bsd_change kq True Filter_Write sys_schedule_write (n\<lparr>nio_write := True\<rparr>) lp)"

definition bsd_cancel_write :: "'p kqueue \<Rightarrow> nio \<Rightarrow> 'f sys_loop \<times> 'p \<Rightarrow> (unit, unit) outcome \<times> nio \<times> 'f sys_loop \<times> 'p" where
  "bsd_cancel_write kq n lp =
     (if nio_write n then bsd_change kq False Filter_Write sys_cancel_write (n\<lparr>nio_write := False\<rparr>) lp else (Ok (), n, lp))"

definition bsd_is_read_ready :: "nio \<Rightarrow> 'f sys_loop \<Rightarrow> bool option" where
  "bsd_is_read_ready n sl =
     (if nio_read n then map_option sc_read_ready (slab_get (nio_token n) (sl_schedules sl)) else Some True)"

definition bsd_is_write_ready :: "nio \<Rightarrow> 'f sys_loop \<Rightarrow> bool option" where
  "bsd_is_write_ready n sl =
     (if nio_write n then map_option sc_write_ready (slab_get (nio_token n) (sl_schedules sl)) else Some True)"

text \<open>Dropping a socket; the filters go when the descriptor is closed.\<close>

definition bsd_drop :: "nio \<Rightarrow> 'f sys_loop \<Rightarrow> 'f sys_loop" where
  "bsd_drop n sl = sys_cancel (nio_token n) sl"

definition bsd_ready_of :: "kevent \<Rightarrow> schedule \<Rightarrow> ready_tasks \<times> schedule" where
  "bsd_ready_of ev s =
     (if kv_read ev then (Single (sc_read_task s), s\<lparr>sc_read_ready := True\<rparr>)
      else (Single (sc_write_task s), s\<lparr>sc_write_ready := True\<rparr>))"

definition bsd_get_ready_tasks :: "kevent \<Rightarrow> 'f sys_loop \<Rightarrow> (ready_tasks \<times> 'f sys_loop) option" where
  "bsd_get_ready_tasks ev sl =
     do {
       s \<leftarrow> slab_get (kv_token ev) (sl_schedules sl);
       let (tasks, s) = bsd_ready_of ev s;
       Some (tasks, sl\<lparr>sl_schedules := slab_set (kv_token ev) s (sl_schedules sl)\<rparr>) }"

text \<open>The seconds and nanoseconds given to \<open>kevent\<close>; none is no limit.\<close>

definition kevent_timeout :: "nat option \<Rightarrow> (int \<times> int) option" where
  "kevent_timeout timeout =
     map_option (\<lambda>dur. (sint (word_of_nat (dur div 1000000000) :: u64), int (dur mod 1000000000))) timeout"

section \<open>Compared with Linux\<close>

fun tasks_of :: "ready_tasks \<Rightarrow> nat list" where
  "tasks_of (Single t) = [t]"
| "tasks_of (Pair t1 t2) = [t1, t2]"

text \<open>The events that a kernel queue reports where \<open>epoll\<close> reports one, and the tasks they are for.\<close>

definition kevents_of :: "event \<Rightarrow> kevent list" where
  "kevents_of ev =
     (if ev_read ev then [\<lparr>kv_token = ev_token ev, kv_read = True\<rparr>] else []) @
     (if ev_write ev \<or> \<not> ev_read ev then [\<lparr>kv_token = ev_token ev, kv_read = False\<rparr>] else [])"

fun bsd_tasks :: "kevent list \<Rightarrow> 'f sys_loop \<Rightarrow> (nat list \<times> 'f sys_loop) option" where
  "bsd_tasks [] sl = Some ([], sl)"
| "bsd_tasks (ev # evs) sl =
     do { (ts, sl) \<leftarrow> bsd_get_ready_tasks ev sl; (us, sl) \<leftarrow> bsd_tasks evs sl; Some (tasks_of ts @ us, sl) }"

lemma slab_set_twice: "slab_set i y (slab_set i x s) = slab_set i y s"
proof (cases "slab_get i s")
  case (Some z)
  then have "slab_get i (slab_set i x s) = Some x" using slab_get_set [of i s i x] by simp
  then show ?thesis by (simp only: slab_set_def [of i y] option.case) (simp add: slab_set_def Some)
qed (simp add: slab_set_def)

text \<open>The result of a call without the state of the kernel.\<close>

definition without_kernel :: "(unit, unit) outcome \<times> nio \<times> 'f sys_loop \<times> 'p \<Rightarrow> (unit, unit) outcome \<times> nio \<times> 'f sys_loop" where
  "without_kernel r = (case r of (x, n, sl, p) \<Rightarrow> (x, n, sl))"

lemma change_same:
  assumes "fst (kq add f (nio_token n) p) = fst (ctl (nio_read n, nio_write n) (nio_token n) q)"
  shows "without_kernel (bsd_change kq add f after n (sl, p)) = without_kernel (nio_reregister ctl after n (sl, q))"
  using assms
  by (cases "kq add f (nio_token n) p"; cases "ctl (nio_read n, nio_write n) (nio_token n) q")
    (auto simp: bsd_change_def nio_reregister_def without_kernel_def split: bool.splits option.splits)

text \<open>
  C39. On Linux and on the BSDs a socket behaves alike. The calls that change its interest have the same
  result, and leave the same socket and loop, if the kernel accepts the change there and here; it is ready
  in the same states; and an event of \<open>epoll\<close> is for the same tasks, in the same order, as the events the
  kernel queue reports in its place, after which the loop is the same.
\<close>

theorem bsd_like_linux:
  assumes "fst (kq True Filter_Read (nio_token n) p) = fst (ctl (True, nio_write n) (nio_token n) q)"
    and "fst (kq True Filter_Write (nio_token n) p) = fst (ctl (nio_read n, True) (nio_token n) q)"
    and "fst (kq False Filter_Write (nio_token n) p) = fst (ctl (nio_read n, False) (nio_token n) q)"
  shows "without_kernel (bsd_schedule_read kq n (sl, p)) = without_kernel (nio_schedule_read ctl n (sl, q)) \<and>
    without_kernel (bsd_schedule_write kq n (sl, p)) = without_kernel (nio_schedule_write ctl n (sl, q)) \<and>
    without_kernel (bsd_cancel_write kq n (sl, p)) = without_kernel (nio_cancel_write ctl n (sl, q)) \<and>
    bsd_is_read_ready n sl = nio_is_read_ready n sl \<and> bsd_is_write_ready n sl = nio_is_write_ready n sl \<and>
    bsd_tasks (kevents_of ev) sl = map_option (\<lambda>(ts, sl). (tasks_of ts, sl)) (get_ready_tasks ev sl)"
proof (intro conjI)
  have skip: "without_kernel (Ok (), n, sl, p) = without_kernel (Ok (), n, sl, q)" by (simp add: without_kernel_def)
  show "without_kernel (bsd_schedule_read kq n (sl, p)) = without_kernel (nio_schedule_read ctl n (sl, q))"
    using change_same [of kq True Filter_Read "n\<lparr>nio_read := True\<rparr>" p ctl q sys_schedule_read sl] assms(1) skip
    by (simp add: bsd_schedule_read_def nio_schedule_read_def)
  show "without_kernel (bsd_schedule_write kq n (sl, p)) = without_kernel (nio_schedule_write ctl n (sl, q))"
    using change_same [of kq True Filter_Write "n\<lparr>nio_write := True\<rparr>" p ctl q sys_schedule_write sl] assms(2) skip
    by (simp add: bsd_schedule_write_def nio_schedule_write_def)
  show "without_kernel (bsd_cancel_write kq n (sl, p)) = without_kernel (nio_cancel_write ctl n (sl, q))"
    using change_same [of kq False Filter_Write "n\<lparr>nio_write := False\<rparr>" p ctl q sys_cancel_write sl] assms(3) skip
    by (simp add: bsd_cancel_write_def nio_cancel_write_def)
  show "bsd_is_read_ready n sl = nio_is_read_ready n sl" by (simp add: bsd_is_read_ready_def nio_is_read_ready_def)
  show "bsd_is_write_ready n sl = nio_is_write_ready n sl" by (simp add: bsd_is_write_ready_def nio_is_write_ready_def)
  show "bsd_tasks (kevents_of ev) sl = map_option (\<lambda>(ts, sl). (tasks_of ts, sl)) (get_ready_tasks ev sl)"
  proof (cases "slab_get (ev_token ev) (sl_schedules sl)")
    case None
    then show ?thesis by (simp add: kevents_of_def bsd_get_ready_tasks_def get_ready_tasks_def)
  next
    case (Some s)
    then have g: "slab_get (ev_token ev) (sl_schedules sl) \<noteq> None" by simp
    from Some show ?thesis
      by (simp add: kevents_of_def bsd_get_ready_tasks_def get_ready_tasks_def bsd_ready_of_def ready_of_def
          slab_get_set [OF g] slab_set_twice)
  qed
qed

theorem bsd_like_linux_witness:
  "bsd_tasks (kevents_of \<lparr>ev_token = 1, ev_read = True, ev_write = True\<rparr>) two_tasks =
     map_option (\<lambda>(ts, sl). (tasks_of ts, sl)) (get_ready_tasks \<lparr>ev_token = 1, ev_read = True, ev_write = True\<rparr> two_tasks)"
  using bsd_like_linux [of "\<lambda>add f tok p. (True, p)" "\<lparr>nio_token = 1, nio_read = True, nio_write = True\<rparr>" "()" "\<lambda>ops tok p. (True, p)" "()" two_tasks]
  by simp

end
