(* ===== verification/Tcp_Server.thy ===== *)
theory Tcp_Server
  imports Ring_Buffer
begin

text \<open>
  The TCP server of \<open>src/service/tcp/server\<close>: the builder and the two ways to run of \<open>server.rs\<close>, the
  workers of \<open>worker.rs\<close> and the sessions of \<open>session.rs\<close>.

  With several workers, the thread that accepts connections and the threads of the workers share a
  counter for each worker and the channel to it. Their atomic steps are interleaved in any order. With one
  worker everything happens in one thread. A connection is a value of type \<open>'c\<close>.
\<close>

section \<open>Building a server\<close>

record server_config =
  cf_num_of_workers :: nat
  cf_worker_conns :: nat

definition server_with_handler :: server_config where
  "server_with_handler = \<lparr>cf_num_of_workers = 1, cf_worker_conns = 512\<rparr>"

text \<open>\<open>checked_next_power_of_two\<close> of the standard library.\<close>

definition checked_next_power_of_two :: "nat \<Rightarrow> nat option" where
  "checked_next_power_of_two n = (let p = next_power_of_two n in if p \<le> usize_max then Some p else None)"

definition set_num_of_workers :: "nat \<Rightarrow> server_config \<Rightarrow> server_config" where
  "set_num_of_workers n c =
     (case checked_next_power_of_two n of Some n \<Rightarrow> c\<lparr>cf_num_of_workers := n\<rparr> | None \<Rightarrow> c)"

definition set_worker_conns :: "nat \<Rightarrow> server_config \<Rightarrow> server_config" where
  "set_worker_conns n c = (if n > 0 then c\<lparr>cf_worker_conns := n\<rparr> else c)"

datatype config_call = Num_Of_Workers nat | Worker_Conns nat

definition config_step :: "config_call \<Rightarrow> server_config \<Rightarrow> server_config" where
  "config_step call c = (case call of Num_Of_Workers n \<Rightarrow> set_num_of_workers n c | Worker_Conns n \<Rightarrow> set_worker_conns n c)"

definition configure :: "config_call list \<Rightarrow> server_config" where
  "configure calls = fold config_step calls server_with_handler"

section \<open>Several workers\<close>

text \<open>
  A worker: the connections in its channel, those with a session, and whether its thread has ended and
  dropped the receiver. The counter is shared; every access is relaxed. The thread that accepts sees its
  own additions, but maybe not the last subtractions of the worker: \<open>wk_unseen\<close> is how many it may miss.
  \<open>wk_lost\<close> are the connections that were counted and never got a session.
\<close>

record 'c worker =
  wk_queue :: "'c list"
  wk_sessions :: "'c list"
  wk_count :: nat
  wk_unseen :: nat
  wk_gone :: bool
  wk_lost :: "'c list"

definition worker_new :: "'c worker" where
  "worker_new = \<lparr>wk_queue = [], wk_sessions = [], wk_count = 0, wk_unseen = 0, wk_gone = False, wk_lost = []\<rparr>"

text \<open>
  \<open>send\<close>: into the channel, or an error if its receiver is gone; the channel has room for as many
  connections as a worker may have.
\<close>

definition worker_send :: "'c \<Rightarrow> 'c worker \<Rightarrow> 'c worker" where
  "worker_send c w = (if wk_gone w then w\<lparr>wk_lost := c # wk_lost w\<rparr> else w\<lparr>wk_queue := wk_queue w @ [c]\<rparr>)"

definition worker_conn_count :: "nat \<Rightarrow> 'c worker \<Rightarrow> (nat \<times> 'c worker) option" where
  "worker_conn_count d w =
     (if d \<le> wk_unseen w then Some ((wk_count w + d) mod (usize_max + 1), w\<lparr>wk_unseen := d\<rparr>) else None)"

definition worker_inc_conn_count :: "'c worker \<Rightarrow> 'c worker" where
  "worker_inc_conn_count w = w\<lparr>wk_count := (wk_count w + 1) mod (usize_max + 1), wk_unseen := 0\<rparr>"

text \<open>In the thread of the worker: \<open>Session::new\<close> and its drop, which subtracts one, wrapping around.\<close>

definition session_new :: "'c worker \<Rightarrow> 'c worker option" where
  "session_new w =
     (case wk_queue w of
        [] \<Rightarrow> None
      | c # q \<Rightarrow> if wk_gone w then None else Some (w\<lparr>wk_queue := q, wk_sessions := wk_sessions w @ [c]\<rparr>))"

definition session_drop :: "nat \<Rightarrow> 'c worker \<Rightarrow> 'c worker option" where
  "session_drop i w =
     (if i < length (wk_sessions w)
      then Some (w\<lparr>wk_sessions := take i (wk_sessions w) @ drop (i + 1) (wk_sessions w),
             wk_count := (wk_count w + usize_max) mod (usize_max + 1), wk_unseen := wk_unseen w + 1\<rparr>)
      else None)"

text \<open>The thread of a worker ends, by an error or a panic: the receiver goes, with the connections in it.\<close>

definition worker_end :: "'c worker \<Rightarrow> 'c worker" where
  "worker_end w = w\<lparr>wk_gone := True, wk_lost := wk_queue w @ wk_lost w, wk_queue := []\<rparr>"

text \<open>
  Where the closure of \<open>run\<close> is, with the connection it dispatches: it looks at the counter of the worker
  at \<open>i\<close>, has chosen it, or has to count the connection it sent.
\<close>

datatype 'c dispatcher = D_Idle | D_Look 'c nat | D_Send 'c nat | D_Inc nat

record 'c server =
  sv_workers :: "'c worker list"
  sv_mask :: nat
  sv_idx :: nat
  sv_worker_conns :: nat
  sv_pc :: "'c dispatcher"
  sv_refused :: "'c list"

definition server_init :: "server_config \<Rightarrow> 'c server" where
  "server_init cf = \<lparr>sv_workers = replicate (cf_num_of_workers cf - 1 + 1) worker_new, sv_mask = cf_num_of_workers cf - 1, sv_idx = 0,
     sv_worker_conns = cf_worker_conns cf, sv_pc = D_Idle, sv_refused = []\<rparr>"

datatype 'c server_step = Accept 'c | Look nat | Dispatch | Count | Take nat | Finish nat nat | End nat

definition dispatch_look :: "nat \<Rightarrow> 'c \<Rightarrow> nat \<Rightarrow> 'c server \<Rightarrow> 'c server option" where
  "dispatch_look d c i s =
     (case worker_conn_count d (sv_workers s ! i) of
        None \<Rightarrow> None
      | Some (n, w) \<Rightarrow>
          (let s = s\<lparr>sv_workers := (sv_workers s)[i := w]\<rparr>; idx = (i + 1) AND sv_mask s
           in if n < sv_worker_conns s then Some (s\<lparr>sv_idx := idx, sv_pc := D_Send c i\<rparr>)
              else if idx = sv_idx s then Some (s\<lparr>sv_pc := D_Idle, sv_refused := c # sv_refused s\<rparr>)
              else Some (s\<lparr>sv_pc := D_Look c idx\<rparr>)))"

definition at_worker :: "nat \<Rightarrow> ('c worker \<Rightarrow> 'c worker option) \<Rightarrow> 'c server \<Rightarrow> 'c server option" where
  "at_worker i f s =
     (if i < length (sv_workers s)
      then map_option (\<lambda>w. s\<lparr>sv_workers := (sv_workers s)[i := w]\<rparr>) (f (sv_workers s ! i)) else None)"

definition server_next :: "'c server_step \<Rightarrow> 'c server \<Rightarrow> 'c server option" where
  "server_next step s =
     (case (step, sv_pc s) of
        (Accept c, D_Idle) \<Rightarrow> Some (s\<lparr>sv_pc := D_Look c (sv_idx s)\<rparr>)
      | (Look d, D_Look c i) \<Rightarrow> dispatch_look d c i s
      | (Dispatch, D_Send c i) \<Rightarrow>
          map_option (\<lambda>s. s\<lparr>sv_pc := D_Inc i\<rparr>) (at_worker i (\<lambda>w. Some (worker_send c w)) s)
      | (Count, D_Inc i) \<Rightarrow>
          map_option (\<lambda>s. s\<lparr>sv_pc := D_Idle\<rparr>) (at_worker i (\<lambda>w. Some (worker_inc_conn_count w)) s)
      | (Take i, _) \<Rightarrow> at_worker i session_new s
      | (Finish i j, _) \<Rightarrow> at_worker i (session_drop j) s
      | (End i, _) \<Rightarrow> at_worker i (\<lambda>w. Some (worker_end w)) s
      | _ \<Rightarrow> None)"

inductive server_reach :: "server_config \<Rightarrow> 'c server \<Rightarrow> bool" for cf where
  server_reach_init: "server_reach cf (server_init cf)"
| server_reach_step: "server_reach cf s \<Longrightarrow> server_next step s = Some s' \<Longrightarrow> server_reach cf s'"

section \<open>One worker\<close>

text \<open>
  \<open>run_single\<close>: the thread that accepts also runs the sessions. A refused connection is dropped without a
  session. The counter is part of the task that accepts, and goes with it when accepting fails or the loop
  drops its tasks; a session that is dropped afterwards subtracts from memory that is freed, which is \<open>None\<close>.
\<close>

record 'c single =
  sg_sessions :: "'c list"
  sg_conn_count :: "nat option"
  sg_worker_conns :: nat
  sg_refused :: "'c list"

definition single_new :: "server_config \<Rightarrow> 'c single" where
  "single_new cf = \<lparr>sg_sessions = [], sg_conn_count = Some 0, sg_worker_conns = cf_worker_conns cf, sg_refused = []\<rparr>"

definition single_drop :: "nat \<Rightarrow> 'c single \<Rightarrow> 'c single option" where
  "single_drop i s =
     (case sg_conn_count s of
        None \<Rightarrow> None
      | Some n \<Rightarrow> Some (s\<lparr>sg_sessions := take i (sg_sessions s) @ drop (i + 1) (sg_sessions s),
          sg_conn_count := Some ((n + usize_max) mod (usize_max + 1))\<rparr>))"

text \<open>A new connection; \<open>keep\<close> tells whether the handler returned a task that owns the session.\<close>

definition single_accept :: "'c \<Rightarrow> bool \<Rightarrow> 'c single \<Rightarrow> 'c single option" where
  "single_accept c keep s =
     (case sg_conn_count s of
        None \<Rightarrow> Some s
      | Some n \<Rightarrow>
          (let s = s\<lparr>sg_conn_count := Some ((n + 1) mod (usize_max + 1))\<rparr>
           in if sg_worker_conns s > n
              then (let s = s\<lparr>sg_sessions := sg_sessions s @ [c]\<rparr>
                    in if keep then Some s else single_drop (length (sg_sessions s) - 1) s)
              else Some (s\<lparr>sg_refused := c # sg_refused s\<rparr>)))"

datatype 'c single_step = Single_Accept 'c bool | Single_Finish nat | Single_End

fun single_next :: "'c single_step \<Rightarrow> 'c single \<Rightarrow> 'c single option" where
  "single_next (Single_Accept c keep) s = single_accept c keep s"
| "single_next (Single_Finish i) s = (if i < length (sg_sessions s) then single_drop i s else Some s)"
| "single_next Single_End s = Some (s\<lparr>sg_conn_count := None\<rparr>)"

fun single_run :: "'c single_step list \<Rightarrow> 'c single \<Rightarrow> 'c single option" where
  "single_run [] s = Some s"
| "single_run (step # steps) s = (case single_next step s of None \<Rightarrow> None | Some s \<Rightarrow> single_run steps s)"

text \<open>\<open>start\<close> and \<open>Server::run\<close>: one worker is served by the thread that accepts.\<close>

definition server_start :: "server_config \<Rightarrow> 'c server + 'c single" where
  "server_start cf =
     (let mask = cf_num_of_workers cf - 1 in if mask = 0 then Inr (single_new cf) else Inl (server_init cf))"

end
