(* ===== verification/Tcp_Server_Correct.thy ===== *)
theory Tcp_Server_Correct
  imports Tcp_Server
begin

text \<open>
  The TCP server: no worker ever has more connections than configured, however its thread and the one
  that accepts interleave, and connections go round the workers; what a server with one worker does.
\<close>

section \<open>Configurations\<close>

definition config_ok :: "server_config \<Rightarrow> bool" where
  "config_ok cf \<longleftrightarrow> (\<exists>k. cf_num_of_workers cf = 2 ^ k) \<and> 0 < cf_worker_conns cf \<and> cf_worker_conns cf \<le> usize_max"

definition call_ok :: "config_call \<Rightarrow> bool" where
  "call_ok call = (case call of Num_Of_Workers n \<Rightarrow> n \<le> usize_max | Worker_Conns n \<Rightarrow> n \<le> usize_max)"

lemma config_step_ok: "config_ok cf \<Longrightarrow> call_ok call \<Longrightarrow> config_ok (config_step call cf)"
proof (cases call)
  case (Num_Of_Workers n)
  moreover assume "config_ok cf"
  moreover obtain k where "next_power_of_two n = 2 ^ k" using next_power_of_two_spec by blast
  ultimately show ?thesis
    by (auto simp: config_step_def config_ok_def set_num_of_workers_def checked_next_power_of_two_def Let_def)
qed (auto simp: config_step_def config_ok_def set_worker_conns_def call_ok_def)

lemma configure_ok: "list_all call_ok calls \<Longrightarrow> config_ok (configure calls)"
proof -
  have "list_all call_ok calls \<Longrightarrow> config_ok cf \<Longrightarrow> config_ok (fold config_step calls cf)" for cf
    by (induction calls arbitrary: cf) (simp_all add: config_step_ok)
  moreover have "config_ok server_with_handler"
    unfolding config_ok_def server_with_handler_def
    by (simp add: usize_max_def) (rule exI [of _ 0], simp)
  ultimately show "list_all call_ok calls \<Longrightarrow> config_ok (configure calls)" by (simp add: configure_def)
qed

lemma next_worker: "i < 2 ^ k \<Longrightarrow> (i + 1) AND (2 ^ k - 1) = (i + 1) mod (2 ^ k :: nat)"
  by (metis and_exp_eq_0_iff_not_bit take_bit_eq_mask take_bit_eq_mod mask_eq_exp_minus_1)

section \<open>The counters\<close>

text \<open>All the connections of a worker that were sent to it and are not finished, and those just lost.\<close>

definition total :: "'c worker \<Rightarrow> nat" where
  "total w = length (wk_queue w) + length (wk_sessions w) + length (wk_lost w)"

definition worker_ok :: "nat \<Rightarrow> bool \<Rightarrow> bool \<Rightarrow> 'c worker \<Rightarrow> bool" where
  "worker_ok conns chosen uncounted w \<longleftrightarrow>
     (wk_count w + (if uncounted then 1 else 0)) mod (usize_max + 1) = total w \<and>
     wk_count w \<le> usize_max \<and> (if chosen then total w + wk_unseen w < conns else total w + wk_unseen w \<le> conns)"

lemma counted: "worker_ok conns ch False w \<Longrightarrow> wk_count w = total w"
proof -
  assume "worker_ok conns ch False w"
  then have "wk_count w mod (usize_max + 1) = total w" "wk_count w < usize_max + 1" by (simp_all add: worker_ok_def)
  then show ?thesis by (simp only: mod_less)
qed

lemma uncounted: "worker_ok conns False True w \<Longrightarrow> conns \<le> usize_max \<Longrightarrow> total w = (wk_count w + 1) mod (usize_max + 1)"
  by (simp add: worker_ok_def)

lemma send_ok:
  assumes "worker_ok conns True False w" and "conns \<le> usize_max"
  shows "worker_ok conns False True (worker_send c w)"
proof -
  have "total (worker_send c w) = total w + 1" "wk_count (worker_send c w) = wk_count w" "wk_unseen (worker_send c w) = wk_unseen w"
    by (simp_all add: worker_send_def total_def)
  with assms counted [OF assms(1)] show ?thesis by (simp add: worker_ok_def)
qed

lemma inc_ok:
  assumes "worker_ok conns False True w"
  shows "worker_ok conns False False (worker_inc_conn_count w)"
proof -
  have "total (worker_inc_conn_count w) = total w" by (simp add: worker_inc_conn_count_def total_def)
  moreover have "total w < usize_max + 1"
    using assms mod_less_divisor [of "usize_max + 1" "wk_count w + 1"] by (simp add: worker_ok_def)
  ultimately show ?thesis
    using assms by (simp add: worker_ok_def worker_inc_conn_count_def)
qed

lemma look_ok:
  assumes "worker_ok conns False False w" and "conns \<le> usize_max" and "worker_conn_count d w = Some (n, w')"
  shows "n = total w + d" and "total w' = total w" and "d \<le> wk_unseen w" and "worker_ok conns (n < conns) False w'"
proof -
  have d: "d \<le> wk_unseen w" and w': "w' = w\<lparr>wk_unseen := d\<rparr>" and n: "n = (wk_count w + d) mod (usize_max + 1)"
    using assms(3) by (simp_all add: worker_conn_count_def split: if_splits)
  moreover have "total w + d \<le> usize_max" using d assms(1,2) by (simp add: worker_ok_def)
  ultimately have n: "n = total w + d" using counted [OF assms(1)] by simp
  show "n = total w + d" "d \<le> wk_unseen w" "total w' = total w" using n d by (simp_all add: w' total_def)
  then show "worker_ok conns (n < conns) False w'"
    using assms(1) d n by (simp add: worker_ok_def w' total_def)
qed

lemma session_new_ok:
  assumes "worker_ok conns ch un w" and "session_new w = Some w'"
  shows "worker_ok conns ch un w'"
  using assms by (auto simp: session_new_def worker_ok_def total_def split: list.splits if_splits)

lemma session_drop_ok:
  assumes "worker_ok conns ch un w" and "session_drop i w = Some w'"
  shows "worker_ok conns ch un w'"
proof -
  let ?M = "usize_max + 1"
  have i: "i < length (wk_sessions w)" using assms(2) by (simp add: session_drop_def split: if_splits)
  have t: "total w' + 1 = total w" and c: "wk_count w' = (wk_count w + usize_max) mod ?M" and u: "wk_unseen w' = wk_unseen w + 1"
    using assms(2) i by (auto simp: session_drop_def total_def)
  have le: "wk_count w \<le> usize_max" and eq: "(wk_count w + of_bool un) mod ?M = total w"
    using assms(1) by (auto simp: worker_ok_def of_bool_def)
  have "(wk_count w' + of_bool un) mod ?M = total w'"
  proof (cases "wk_count w = 0")
    case True
    with eq t have "of_bool un mod ?M = total w' + 1" by simp
    moreover have "(1 :: nat) mod ?M = 1" by (simp add: usize_max_def)
    ultimately have "un \<and> total w' = 0" by (cases un) simp_all
    with True c show ?thesis by simp
  next
    case False
    then have "wk_count w + usize_max = (wk_count w - 1) + ?M" by simp
    then have "wk_count w' = (wk_count w - 1) mod ?M" by (simp only: c mod_add_self2)
    then have "wk_count w' = wk_count w - 1" using le by simp
    moreover have "wk_count w + of_bool un \<noteq> ?M" using eq t by (auto simp del: add_Suc_right)
    then have "wk_count w + of_bool un < ?M" using le by (cases un) auto
    then have "total w = wk_count w + of_bool un" using eq by (simp only: mod_less)
    ultimately show ?thesis using t False le by (cases un) auto
  qed
  moreover have "wk_count w' \<le> usize_max" by (simp add: c less_Suc_eq_le [symmetric])
  ultimately show ?thesis using assms(1) t u by (auto simp: worker_ok_def split: if_splits)
qed

lemma worker_end_ok: "worker_ok conns ch un w \<Longrightarrow> worker_ok conns ch un (worker_end w)"
proof -
  have "total (worker_end w) = total w" by (simp add: worker_end_def total_def)
  then show "worker_ok conns ch un w \<Longrightarrow> ?thesis" by (simp add: worker_ok_def worker_end_def)
qed

section \<open>The server\<close>

definition chosen :: "'c dispatcher \<Rightarrow> nat \<Rightarrow> bool" where
  "chosen pc i \<longleftrightarrow> (case pc of D_Send _ j \<Rightarrow> i = j | _ \<Rightarrow> False)"

definition uncounted_at :: "'c dispatcher \<Rightarrow> nat \<Rightarrow> bool" where
  "uncounted_at pc i \<longleftrightarrow> pc = D_Inc i"

definition pc_at :: "'c dispatcher \<Rightarrow> nat \<Rightarrow> bool" where
  "pc_at pc n \<longleftrightarrow> (case pc of D_Idle \<Rightarrow> True | D_Look _ i \<Rightarrow> i < n | D_Send _ i \<Rightarrow> i < n | D_Inc i \<Rightarrow> i < n)"

definition server_inv :: "server_config \<Rightarrow> 'c server \<Rightarrow> bool" where
  "server_inv cf s \<longleftrightarrow> sv_worker_conns s = cf_worker_conns cf \<and> sv_mask s = cf_num_of_workers cf - 1 \<and>
     length (sv_workers s) = cf_num_of_workers cf \<and> sv_idx s < cf_num_of_workers cf \<and> pc_at (sv_pc s) (cf_num_of_workers cf) \<and>
     (\<forall>i < length (sv_workers s). worker_ok (cf_worker_conns cf) (chosen (sv_pc s) i) (uncounted_at (sv_pc s) i) (sv_workers s ! i))"

lemma server_init_inv: "config_ok cf \<Longrightarrow> server_inv cf (server_init cf)"
proof -
  assume "config_ok cf"
  moreover from this have "cf_num_of_workers cf - 1 + 1 = cf_num_of_workers cf" "0 < cf_num_of_workers cf"
    by (auto simp: config_ok_def)
  moreover have "worker_ok n False False worker_new" for n by (simp add: worker_ok_def worker_new_def total_def)
  ultimately show ?thesis
    by (simp only: server_inv_def server_init_def) (auto simp: pc_at_def chosen_def uncounted_at_def)
qed

text \<open>A step of one worker, with the dispatcher where it was or moved on.\<close>

lemma at_worker_inv:
  assumes "server_inv cf s" and "at_worker i f s = Some s'"
    and "\<And>w w'. f w = Some w' \<Longrightarrow> worker_ok (cf_worker_conns cf) (chosen (sv_pc s) i) (uncounted_at (sv_pc s) i) w \<Longrightarrow>
      worker_ok (cf_worker_conns cf) (chosen pc i) (uncounted_at pc i) w'"
    and "\<And>j. j \<noteq> i \<Longrightarrow> chosen pc j = chosen (sv_pc s) j \<and> uncounted_at pc j = uncounted_at (sv_pc s) j"
    and "pc_at pc (cf_num_of_workers cf)"
  shows "server_inv cf (s'\<lparr>sv_pc := pc\<rparr>)"
proof -
  obtain w' where w': "i < length (sv_workers s)" "f (sv_workers s ! i) = Some w'" "s' = s\<lparr>sv_workers := (sv_workers s)[i := w']\<rparr>"
    using assms(2) by (auto simp: at_worker_def split: if_splits)
  have ok: "worker_ok (cf_worker_conns cf) (chosen (sv_pc s) j) (uncounted_at (sv_pc s) j) (sv_workers s ! j)"
    if "j < length (sv_workers s)" for j using assms(1) that by (simp add: server_inv_def)
  have "worker_ok (cf_worker_conns cf) (chosen pc j) (uncounted_at pc j) ((sv_workers s)[i := w'] ! j)"
    if "j < length (sv_workers s)" for j
    using ok [OF that] assms(3) [OF w'(2)] assms(4) [of j] that by (cases "j = i") (simp_all add: nth_list_update)
  with assms(1,5) w'(3) show ?thesis by (simp add: server_inv_def)
qed

lemma look_inv:
  assumes "server_inv cf s" and "config_ok cf" and "sv_pc s = D_Look c i" and "dispatch_look d c i s = Some s'"
  shows "server_inv cf s'"
proof -
  obtain k where k: "cf_num_of_workers cf = 2 ^ k" using assms(2) by (auto simp: config_ok_def)
  have s: "sv_worker_conns s = cf_worker_conns cf" "sv_mask s = 2 ^ k - 1" "i < length (sv_workers s)" "length (sv_workers s) = 2 ^ k"
    "cf_worker_conns cf \<le> usize_max"
    using assms k by (simp_all add: server_inv_def pc_at_def config_ok_def)
  let ?idx = "(i + 1) AND sv_mask s"
  have idx: "?idx < 2 ^ k" using next_worker [of i k] s by simp
  have i: "worker_ok (cf_worker_conns cf) False False (sv_workers s ! i)"
    using assms(1,3) s(3) by (auto simp: server_inv_def chosen_def uncounted_at_def)
  obtain n w where w: "worker_conn_count d (sv_workers s ! i) = Some (n, w)"
    using assms(4) by (auto simp: dispatch_look_def split: option.splits)
  note l = look_ok [OF i s(5) w]
  have at: "at_worker i (\<lambda>_. Some w) s = Some (s\<lparr>sv_workers := (sv_workers s)[i := w]\<rparr>)" using s(3) by (simp add: at_worker_def)
  let ?pc = "if n < cf_worker_conns cf then D_Send c i else if ?idx = sv_idx s then D_Idle else D_Look c ?idx"
  have "server_inv cf ((s\<lparr>sv_workers := (sv_workers s)[i := w]\<rparr>)\<lparr>sv_pc := ?pc\<rparr>)"
    by (rule at_worker_inv [OF assms(1) at])
      (use l(4) assms(3) idx k s in \<open>auto simp: chosen_def uncounted_at_def pc_at_def split: if_splits\<close>)
  then show ?thesis
    using assms(4) w s(1) idx k by (auto simp: dispatch_look_def Let_def server_inv_def split: if_splits)
qed

lemma server_next_inv:
  assumes "server_inv cf s" and "config_ok cf" and "server_next step s = Some s'"
  shows "server_inv cf s'"
proof -
  have conns: "cf_worker_conns cf \<le> usize_max" using assms(2) by (simp add: config_ok_def)
  have same: "server_inv cf s1" if "at_worker i f s = Some s1"
    "\<And>ch un w w'. f w = Some w' \<Longrightarrow> worker_ok (cf_worker_conns cf) ch un w \<Longrightarrow> worker_ok (cf_worker_conns cf) ch un w'" for i f s1
  proof -
    have "sv_pc s1 = sv_pc s" using that(1) by (auto simp: at_worker_def split: if_splits)
    then have "s1\<lparr>sv_pc := sv_pc s\<rparr> = s1" by (cases s1) simp
    with at_worker_inv [OF assms(1) that(1), of "sv_pc s"] that(2) assms(1) show ?thesis by (simp add: server_inv_def)
  qed
  show ?thesis
  proof (cases step)
    case (Accept c)
    with assms show ?thesis
      by (auto simp: server_next_def server_inv_def pc_at_def chosen_def uncounted_at_def split: dispatcher.splits)
  next
    case (Look d)
    with assms look_inv show ?thesis by (auto simp: server_next_def split: dispatcher.splits)
  next
    case Dispatch
    then obtain c i s1 where pc: "sv_pc s = D_Send c i" and s1: "at_worker i (\<lambda>w. Some (worker_send c w)) s = Some s1"
      "s' = s1\<lparr>sv_pc := D_Inc i\<rparr>"
      using assms(3) by (auto simp: server_next_def split: dispatcher.splits)
    show ?thesis unfolding s1(2)
      by (rule at_worker_inv [OF assms(1) s1(1)])
        (use pc assms(1) send_ok [OF _ conns] in \<open>auto simp: chosen_def uncounted_at_def pc_at_def server_inv_def\<close>)
  next
    case Count
    then obtain i s1 where pc: "sv_pc s = D_Inc i" and s1: "at_worker i (\<lambda>w. Some (worker_inc_conn_count w)) s = Some s1"
      "s' = s1\<lparr>sv_pc := D_Idle\<rparr>"
      using assms(3) by (auto simp: server_next_def split: dispatcher.splits)
    show ?thesis unfolding s1(2)
      by (rule at_worker_inv [OF assms(1) s1(1)])
        (use pc assms(1) inc_ok in \<open>auto simp: chosen_def uncounted_at_def pc_at_def server_inv_def\<close>)
  next
    case (Take i)
    with assms(3) show ?thesis by (auto simp: server_next_def intro: same session_new_ok split: dispatcher.splits)
  next
    case (Finish i j)
    with assms(3) show ?thesis by (auto simp: server_next_def intro: same session_drop_ok split: dispatcher.splits)
  next
    case (End i)
    with assms(3) show ?thesis by (auto simp: server_next_def intro: same worker_end_ok split: dispatcher.splits)
  qed
qed

lemma server_reach_inv: "server_reach cf s \<Longrightarrow> config_ok cf \<Longrightarrow> server_inv cf s"
  by (induction rule: server_reach.induct) (auto intro: server_init_inv server_next_inv)

text \<open>A worker loses connections only after its thread has ended.\<close>

lemma at_worker_cases:
  assumes "at_worker i f s = Some s'"
  obtains w' where "i < length (sv_workers s)" "f (sv_workers s ! i) = Some w'" "s' = s\<lparr>sv_workers := (sv_workers s)[i := w']\<rparr>"
  using assms by (auto simp: at_worker_def split: if_splits)

definition none_lost :: "'c worker \<Rightarrow> bool" where
  "none_lost w \<longleftrightarrow> wk_gone w \<or> wk_lost w = []"

lemma server_next_workers:
  assumes "server_next step s = Some s'" and "\<forall>w \<in> set (sv_workers s). none_lost w"
  shows "\<forall>w \<in> set (sv_workers s'). none_lost w"
proof -
  have upd: "\<forall>w \<in> set (sv_workers s1). none_lost w" if a: "at_worker i f s = Some s1" "\<And>w w'. f w = Some w' \<Longrightarrow> none_lost w \<Longrightarrow> none_lost w'"
    for i f s1
  proof -
    obtain w' where w': "i < length (sv_workers s)" "f (sv_workers s ! i) = Some w'" "s1 = s\<lparr>sv_workers := (sv_workers s)[i := w']\<rparr>"
      by (rule at_worker_cases [OF a(1)])
    have "none_lost w'" using a(2) [OF w'(2)] assms(2) w'(1) by simp
    with w'(3) assms(2) set_update_ball [of "sv_workers s" none_lost w' i] show ?thesis by simp
  qed
  have look: "\<forall>w \<in> set (sv_workers s1). none_lost w" if l: "dispatch_look d c i s = Some s1" for d c i s1
  proof -
    obtain n w where w: "worker_conn_count d (sv_workers s ! i) = Some (n, w)" "sv_workers s1 = (sv_workers s)[i := w]"
      using l by (auto simp: dispatch_look_def Let_def split: option.splits if_splits)
    show ?thesis
    proof (cases "i < length (sv_workers s)")
      case True
      then have "none_lost (sv_workers s ! i)" using assms(2) by simp
      with w(1) have "none_lost w" by (auto simp: worker_conn_count_def none_lost_def split: if_splits)
      with w(2) assms(2) set_update_ball [of "sv_workers s" none_lost w i] show ?thesis by simp
    qed (use w(2) assms(2) in \<open>simp add: list_update_beyond not_less\<close>)
  qed
  show ?thesis
  proof (cases step)
    case (Look d)
    with assms(1) look show ?thesis by (auto simp: server_next_def split: dispatcher.splits)
  next
    case Dispatch
    then obtain c i s1 where a: "at_worker i (\<lambda>w. Some (worker_send c w)) s = Some s1" and s': "s' = s1\<lparr>sv_pc := D_Inc i\<rparr>"
      using assms(1) by (auto simp: server_next_def split: dispatcher.splits)
    have "\<forall>w \<in> set (sv_workers s1). none_lost w" by (rule upd [OF a]) (auto simp: none_lost_def worker_send_def)
    with s' show ?thesis by simp
  next
    case Count
    then obtain i s1 where a: "at_worker i (\<lambda>w. Some (worker_inc_conn_count w)) s = Some s1" and s': "s' = s1\<lparr>sv_pc := D_Idle\<rparr>"
      using assms(1) by (auto simp: server_next_def split: dispatcher.splits)
    have "\<forall>w \<in> set (sv_workers s1). none_lost w" by (rule upd [OF a]) (auto simp: none_lost_def worker_inc_conn_count_def)
    with s' show ?thesis by simp
  next
    case (Take i)
    then have a: "at_worker i session_new s = Some s'" using assms(1) by (auto simp: server_next_def split: dispatcher.splits)
    show ?thesis by (rule upd [OF a]) (auto simp: none_lost_def session_new_def split: list.splits if_splits)
  next
    case (Finish i j)
    then have a: "at_worker i (session_drop j) s = Some s'" using assms(1) by (auto simp: server_next_def split: dispatcher.splits)
    show ?thesis by (rule upd [OF a]) (auto simp: none_lost_def session_drop_def split: if_splits)
  next
    case (End i)
    then have a: "at_worker i (\<lambda>w. Some (worker_end w)) s = Some s'" using assms(1) by (auto simp: server_next_def split: dispatcher.splits)
    show ?thesis by (rule upd [OF a]) (auto simp: none_lost_def worker_end_def)
  qed (use assms in \<open>auto simp: server_next_def split: dispatcher.splits\<close>)
qed

lemma server_reach_none_lost: "server_reach cf s \<Longrightarrow> \<forall>w \<in> set (sv_workers s). none_lost w"
proof (induction rule: server_reach.induct)
  case server_reach_init
  show ?case by (simp add: server_init_def none_lost_def worker_new_def)
next
  case (server_reach_step s step s')
  then show ?case using server_next_workers by blast
qed

section \<open>Properties\<close>

text \<open>
  C36. However a server is configured and its threads interleave, and although the counters are read late
  and are corrected after sending: no worker has more connections, waiting and in sessions together, than
  configured. When one is sent there is room in the channel, so that the accepting thread does not wait.
  Between two connections each counter is exact, except that it keeps counting those that were lost when
  the thread of the worker ended. A worker whose thread runs loses none.
\<close>

theorem server_conns_bounded:
  assumes "list_all call_ok calls" and "server_reach (configure calls) s"
  shows "list_all (\<lambda>w. length (wk_queue w) + length (wk_sessions w) \<le> sv_worker_conns s) (sv_workers s) \<and>
    (\<exists>k. length (sv_workers s) = 2 ^ k) \<and>
    (sv_pc s = D_Send c i \<longrightarrow> length (wk_queue (sv_workers s ! i)) < sv_worker_conns s) \<and>
    (sv_pc s = D_Idle \<longrightarrow>
      list_all (\<lambda>w. wk_count w = length (wk_queue w) + length (wk_sessions w) + length (wk_lost w)) (sv_workers s)) \<and>
    list_all (\<lambda>w. \<not> wk_gone w \<longrightarrow> wk_lost w = []) (sv_workers s)"
proof (intro conjI impI)
  note cf = configure_ok [OF assms(1)]
  note inv = server_reach_inv [OF assms(2) cf]
  have w: "worker_ok (sv_worker_conns s) (chosen (sv_pc s) j) (uncounted_at (sv_pc s) j) (sv_workers s ! j)" if "j < length (sv_workers s)" for j
    using inv that by (simp add: server_inv_def)
  show "\<exists>k. length (sv_workers s) = 2 ^ k" using cf inv by (auto simp: config_ok_def server_inv_def)
  show "list_all (\<lambda>w. length (wk_queue w) + length (wk_sessions w) \<le> sv_worker_conns s) (sv_workers s)"
    unfolding list_all_length using w by (fastforce simp: worker_ok_def total_def split: if_splits)
  show "list_all (\<lambda>w. \<not> wk_gone w \<longrightarrow> wk_lost w = []) (sv_workers s)"
    using server_reach_none_lost [OF assms(2)] by (auto simp: list_all_iff none_lost_def)
  show "length (wk_queue (sv_workers s ! i)) < sv_worker_conns s" if "sv_pc s = D_Send c i"
    using that w [of i] inv by (simp add: server_inv_def pc_at_def chosen_def worker_ok_def total_def)
  show "list_all (\<lambda>w. wk_count w = length (wk_queue w) + length (wk_sessions w) + length (wk_lost w)) (sv_workers s)"
    if "sv_pc s = D_Idle"
    unfolding list_all_length using w counted that by (force simp: chosen_def uncounted_at_def total_def)
qed

theorem server_conns_bounded_witness:
  "list_all (\<lambda>w. length (wk_queue w) + length (wk_sessions w) \<le> 2)
     (sv_workers (server_init (configure [Num_Of_Workers 3, Worker_Conns 2]) :: nat server))"
proof -
  have "list_all call_ok [Num_Of_Workers 3, Worker_Conns 2]" by (simp add: call_ok_def usize_max_def)
  note * = conjunct1 [OF server_conns_bounded [OF this server_reach_init]]
  have "cf_worker_conns (configure [Num_Of_Workers 3, Worker_Conns 2]) = 2"
    by (simp add: configure_def config_step_def set_num_of_workers_def set_worker_conns_def checked_next_power_of_two_def
        Let_def split: option.split)
  then have "sv_worker_conns (server_init (configure [Num_Of_Workers 3, Worker_Conns 2]) :: nat server) = 2"
    by (simp add: server_init_def)
  with * show ?thesis by metis
qed

section \<open>Going round\<close>

fun server_run :: "'c server_step list \<Rightarrow> 'c server \<Rightarrow> 'c server option" where
  "server_run [] s = Some s"
| "server_run (step # steps) s = (case server_next step s of None \<Rightarrow> None | Some s \<Rightarrow> server_run steps s)"

lemma server_run_append: "server_run (xs @ ys) s = (case server_run xs s of None \<Rightarrow> None | Some s \<Rightarrow> server_run ys s)"
  by (induction xs arbitrary: s) (simp_all split: option.split)

text \<open>A worker without what the accepting thread has not seen yet, and whether it has all its connections.\<close>

definition seen :: "'c worker \<Rightarrow> 'c worker" where
  "seen w = w\<lparr>wk_unseen := 0\<rparr>"

definition full :: "'c server \<Rightarrow> nat \<Rightarrow> bool" where
  "full s i \<longleftrightarrow> sv_worker_conns s \<le> wk_count (sv_workers s ! i)"

lemma look_now:
  assumes "server_inv cf s" and "config_ok cf" and "sv_pc s = D_Look c i"
  shows "server_next (Look 0) s =
    (let s1 = s\<lparr>sv_workers := (sv_workers s)[i := seen (sv_workers s ! i)]\<rparr>; idx = (i + 1) mod cf_num_of_workers cf
     in if \<not> full s i then Some (s1\<lparr>sv_idx := idx, sv_pc := D_Send c i\<rparr>)
        else if idx = sv_idx s then Some (s1\<lparr>sv_pc := D_Idle, sv_refused := c # sv_refused s\<rparr>)
        else Some (s1\<lparr>sv_pc := D_Look c idx\<rparr>))"
proof -
  obtain k where k: "cf_num_of_workers cf = 2 ^ k" using assms(2) by (auto simp: config_ok_def)
  have i: "i < 2 ^ k" "sv_mask s = 2 ^ k - 1" using assms(1,3) k by (simp_all add: server_inv_def pc_at_def)
  have "wk_count (sv_workers s ! i) \<le> usize_max"
    using assms(1) i k by (simp add: server_inv_def worker_ok_def)
  then have "wk_count (sv_workers s ! i) mod (usize_max + 1) = wk_count (sv_workers s ! i)" by simp
  then show ?thesis
    using assms(3) next_worker [OF i(1)] i(2) k
    by (simp add: server_next_def dispatch_look_def worker_conn_count_def seen_def full_def Let_def not_less)
qed

lemma seen_update: "map seen (ws[i := seen (ws ! i)]) = map seen ws"
  by (cases "i < length ws") (auto simp: seen_def nth_list_update intro!: nth_equalityI)

text \<open>Looking at \<open>m\<close> workers that are full.\<close>

lemma look_full:
  assumes "server_inv cf s" and "config_ok cf" and "sv_pc s = D_Look c (sv_idx s)"
    and "m < cf_num_of_workers cf" and "\<forall>j<m. full s ((sv_idx s + j) mod cf_num_of_workers cf)"
  shows "\<exists>s'. server_run (replicate m (Look 0)) s = Some s' \<and> server_inv cf s' \<and>
    s' = s\<lparr>sv_workers := sv_workers s', sv_pc := D_Look c ((sv_idx s + m) mod cf_num_of_workers cf)\<rparr> \<and>
    map seen (sv_workers s') = map seen (sv_workers s)"
  using assms(4,5)
proof (induction m)
  case 0
  have "sv_idx s < cf_num_of_workers cf" using assms(1) by (simp add: server_inv_def)
  with assms(1,3) show ?case by simp
next
  case (Suc m)
  let ?N = "cf_num_of_workers cf" and ?i = "(sv_idx s + m) mod cf_num_of_workers cf"
  obtain s1 where s1: "server_run (replicate m (Look 0)) s = Some s1" "server_inv cf s1"
    "s1 = s\<lparr>sv_workers := sv_workers s1, sv_pc := D_Look c ?i\<rparr>" "map seen (sv_workers s1) = map seen (sv_workers s)"
    using Suc by auto
  have sv: "sv_pc s1 = D_Look c ?i" "sv_idx s1 = sv_idx s" "sv_worker_conns s1 = sv_worker_conns s"
    by (subst s1(3), simp)+
  have len: "length (sv_workers s1) = ?N" "length (sv_workers s) = ?N" "sv_idx s < ?N"
    using s1(2) assms(1) by (simp_all add: server_inv_def)
  have i: "?i < ?N" using len by simp
  have "seen (sv_workers s1 ! ?i) = seen (sv_workers s ! ?i)" using s1(4) i len by (metis nth_map)
  then have "full s1 ?i = full s ?i" using sv(3) by (simp add: full_def seen_def) (metis worker.ext_inject worker.surjective worker.update_convs(4))
  then have full: "full s1 ?i" using Suc.prems(2) by simp
  have ne: "(?i + 1) mod ?N \<noteq> sv_idx s"
  proof -
    have "(?i + 1) mod ?N = (sv_idx s + Suc m) mod ?N" by (simp add: mod_Suc_eq)
    also have "\<dots> \<noteq> sv_idx s"
    proof (cases "sv_idx s + Suc m < ?N")
      case False
      then have "(sv_idx s + Suc m) mod ?N = sv_idx s + Suc m - ?N" using len(3) Suc.prems(1) by (simp add: mod_if)
      with Suc.prems(1) False show ?thesis by linarith
    qed simp
    finally show ?thesis .
  qed
  have "server_next (Look 0) s1 = Some (s1\<lparr>sv_workers := (sv_workers s1)[?i := seen (sv_workers s1 ! ?i)], sv_pc := D_Look c ((?i + 1) mod ?N)\<rparr>)"
    using look_now [OF s1(2) assms(2) sv(1)] full ne sv(2) by (simp add: Let_def)
  moreover have "(?i + 1) mod ?N = (sv_idx s + Suc m) mod ?N" by (simp add: mod_Suc_eq)
  ultimately have n: "server_next (Look 0) s1 =
      Some (s1\<lparr>sv_workers := (sv_workers s1)[?i := seen (sv_workers s1 ! ?i)], sv_pc := D_Look c ((sv_idx s + Suc m) mod ?N)\<rparr>)" by simp
  let ?s2 = "s1\<lparr>sv_workers := (sv_workers s1)[?i := seen (sv_workers s1 ! ?i)], sv_pc := D_Look c ((sv_idx s + Suc m) mod ?N)\<rparr>"
  have "server_run (replicate (Suc m) (Look 0)) s = Some ?s2"
    using s1(1) n by (simp only: replicate_Suc replicate_append_same [symmetric] server_run_append) simp
  moreover have "server_inv cf ?s2" by (rule server_next_inv [OF s1(2) assms(2) n])
  moreover have "?s2 = s\<lparr>sv_workers := sv_workers ?s2, sv_pc := D_Look c ((sv_idx s + Suc m) mod ?N)\<rparr>"
    by (subst s1(3)) simp
  moreover have "map seen (sv_workers ?s2) = map seen (sv_workers s)" using s1(4) by (simp add: seen_update)
  ultimately show ?case by blast
qed

lemma seen_nth: "map seen ws = map seen vs \<Longrightarrow> i < length ws \<Longrightarrow> seen (ws ! i) = seen (vs ! i)"
  by (metis length_map nth_map)

lemma seen_ops: "worker_inc_conn_count (worker_send c (seen w)) = worker_inc_conn_count (worker_send c w)"
  by (simp add: seen_def worker_inc_conn_count_def worker_send_def)

lemma full_seen: "seen (sv_workers s1 ! i) = seen (sv_workers s ! i) \<Longrightarrow> sv_worker_conns s1 = sv_worker_conns s \<Longrightarrow> full s1 i = full s i"
  by (simp add: full_def seen_def) (metis worker.ext_inject worker.surjective worker.update_convs(4))

text \<open>
  C37. A connection goes to the first worker with room, from the one after the last choice on, and the
  next search begins behind it; the other workers keep their connections. If every worker is full, each is
  looked at once and the connection is dropped. (Here no other thread takes a step in between.)
\<close>

theorem server_dispatch_correct:
  assumes "list_all call_ok calls" and "server_reach (configure calls) s" and "sv_pc s = D_Idle"
    and "\<forall>j<m. full s ((sv_idx s + j) mod length (sv_workers s))" and "m \<le> length (sv_workers s)"
  shows "(m < length (sv_workers s) \<and> \<not> full s ((sv_idx s + m) mod length (sv_workers s)) \<longrightarrow>
      (let i = (sv_idx s + m) mod length (sv_workers s)
       in \<exists>s'. server_run (Accept c # replicate (m + 1) (Look 0) @ [Dispatch, Count]) s = Some s' \<and> sv_pc s' = D_Idle \<and>
         sv_idx s' = (i + 1) mod length (sv_workers s) \<and> sv_refused s' = sv_refused s \<and>
         map seen (sv_workers s') = map seen ((sv_workers s)[i := worker_inc_conn_count (worker_send c (sv_workers s ! i))]))) \<and>
    (m = length (sv_workers s) \<longrightarrow>
      (\<exists>s'. server_run (Accept c # replicate m (Look 0)) s = Some s' \<and> sv_pc s' = D_Idle \<and>
         sv_idx s' = sv_idx s \<and> sv_refused s' = c # sv_refused s \<and> map seen (sv_workers s') = map seen (sv_workers s)))"
proof (intro conjI impI)
  let ?cf = "configure calls" and ?N = "length (sv_workers s)"
  note cf = configure_ok [OF assms(1)]
  note inv = server_reach_inv [OF assms(2) cf]
  have N: "cf_num_of_workers ?cf = ?N" and idx: "sv_idx s < ?N" using inv by (simp_all add: server_inv_def)
  let ?s0 = "s\<lparr>sv_pc := D_Look c (sv_idx s)\<rparr>"
  have a: "server_next (Accept c) s = Some ?s0" using assms(3) by (simp add: server_next_def)
  have inv0: "server_inv ?cf ?s0" by (rule server_next_inv [OF inv cf a])
  have looks: "\<exists>s1. server_run (replicate j (Look 0)) ?s0 = Some s1 \<and> server_inv ?cf s1 \<and>
      s1 = s\<lparr>sv_workers := sv_workers s1, sv_pc := D_Look c ((sv_idx s + j) mod ?N)\<rparr> \<and> map seen (sv_workers s1) = map seen (sv_workers s)"
    if "j \<le> m" "j < ?N" for j
    using look_full [OF inv0 cf, of c j] that assms(4) N by (simp add: full_def)
  {
    assume m: "m < ?N \<and> \<not> full s ((sv_idx s + m) mod ?N)"
    let ?i = "(sv_idx s + m) mod ?N"
    obtain s1 where s1: "server_run (replicate m (Look 0)) ?s0 = Some s1" "server_inv ?cf s1"
      "s1 = s\<lparr>sv_workers := sv_workers s1, sv_pc := D_Look c ?i\<rparr>" "map seen (sv_workers s1) = map seen (sv_workers s)"
      using looks [of m] m by auto
    have sv: "sv_pc s1 = D_Look c ?i" "sv_worker_conns s1 = sv_worker_conns s" "sv_refused s1 = sv_refused s"
      by (subst s1(3), simp)+
    have i: "?i < ?N" using m by (intro mod_less_divisor) auto
    have len: "length (sv_workers s1) = ?N" using s1(4) by (metis length_map)
    have eq: "seen (sv_workers s1 ! ?i) = seen (sv_workers s ! ?i)" by (rule seen_nth [OF s1(4)]) (simp only: len i)
    have "\<not> full s1 ?i" using m full_seen [OF eq sv(2)] by simp
    then have n: "server_next (Look 0) s1 = Some (s1\<lparr>sv_workers := (sv_workers s1)[?i := seen (sv_workers s1 ! ?i)],
        sv_idx := (?i + 1) mod ?N, sv_pc := D_Send c ?i\<rparr>)"
      using look_now [OF s1(2) cf sv(1)] N by (simp add: Let_def)
    let ?ws = "(sv_workers s1)[?i := worker_inc_conn_count (worker_send c (sv_workers s1 ! ?i))]"
    let ?s' = "s1\<lparr>sv_workers := ?ws, sv_idx := (?i + 1) mod ?N, sv_pc := D_Idle\<rparr>"
    have "server_run [Look 0, Dispatch, Count] s1 = Some ?s'"
      using n i len by (simp add: server_next_def [of Dispatch] server_next_def [of Count] at_worker_def seen_ops)
    then have "server_run (Accept c # replicate (m + 1) (Look 0) @ [Dispatch, Count]) s = Some ?s'"
      using a s1(1) server_run_append [of "replicate m (Look 0)" "[Look 0, Dispatch, Count]" ?s0]
      by (simp add: replicate_append_same [symmetric])
    moreover have "map seen ?ws = map seen ((sv_workers s)[?i := worker_inc_conn_count (worker_send c (sv_workers s ! ?i))])"
      using s1(4) eq by (metis map_update seen_ops)
    ultimately show "let i = ?i in \<exists>s'. server_run (Accept c # replicate (m + 1) (Look 0) @ [Dispatch, Count]) s = Some s' \<and>
        sv_pc s' = D_Idle \<and> sv_idx s' = (i + 1) mod ?N \<and> sv_refused s' = sv_refused s \<and>
        map seen (sv_workers s') = map seen ((sv_workers s)[i := worker_inc_conn_count (worker_send c (sv_workers s ! i))])"
      using sv(3) by (simp only: Let_def) (intro exI [of _ ?s'], simp)
  }
  assume m: "m = ?N"
  then have "m \<noteq> 0" using idx by linarith
  then obtain l where l: "m = Suc l" using not0_implies_Suc by blast
  let ?i = "(sv_idx s + l) mod ?N"
  obtain s1 where s1: "server_run (replicate l (Look 0)) ?s0 = Some s1" "server_inv ?cf s1"
    "s1 = s\<lparr>sv_workers := sv_workers s1, sv_pc := D_Look c ?i\<rparr>" "map seen (sv_workers s1) = map seen (sv_workers s)"
    using looks [of l] l m by auto
  have sv: "sv_pc s1 = D_Look c ?i" "sv_worker_conns s1 = sv_worker_conns s" "sv_refused s1 = sv_refused s" "sv_idx s1 = sv_idx s"
    by (subst s1(3), simp)+
  have i: "?i < ?N" using m l by (intro mod_less_divisor) auto
  have len: "length (sv_workers s1) = ?N" using s1(4) by (metis length_map)
  have eq: "seen (sv_workers s1 ! ?i) = seen (sv_workers s ! ?i)" by (rule seen_nth [OF s1(4)]) (simp only: len i)
  have full: "full s1 ?i" using assms(4) l full_seen [OF eq sv(2)] by simp
  have "(?i + 1) mod ?N = (sv_idx s + m) mod ?N" by (simp add: mod_Suc_eq l)
  with m idx have home: "(?i + 1) mod ?N = sv_idx s" by simp
  have n: "server_next (Look 0) s1 = Some (s1\<lparr>sv_workers := (sv_workers s1)[?i := seen (sv_workers s1 ! ?i)],
      sv_pc := D_Idle, sv_refused := c # sv_refused s1\<rparr>)"
    using look_now [OF s1(2) cf sv(1)] full home N sv(4) by (simp add: Let_def)
  have "server_run (Accept c # replicate m (Look 0)) s = Some (s1\<lparr>sv_workers := (sv_workers s1)[?i := seen (sv_workers s1 ! ?i)],
      sv_pc := D_Idle, sv_refused := c # sv_refused s1\<rparr>)"
    using a s1(1) n server_run_append [of "replicate l (Look 0)" "[Look 0]" ?s0] l by (simp add: replicate_append_same [symmetric])
  then show "\<exists>s'. server_run (Accept c # replicate m (Look 0)) s = Some s' \<and> sv_pc s' = D_Idle \<and>
      sv_idx s' = sv_idx s \<and> sv_refused s' = c # sv_refused s \<and> map seen (sv_workers s') = map seen (sv_workers s)"
    using sv s1(4) by (simp add: seen_update)
qed

theorem server_dispatch_correct_witness:
  "\<exists>s'. server_run [Accept 7, Look 0, Dispatch, Count] (server_init (configure [Num_Of_Workers 2]) :: nat server) = Some s' \<and>
     sv_idx s' = 1 mod 2"
proof -
  let ?s = "server_init (configure [Num_Of_Workers 2]) :: nat server"
  have ok: "list_all call_ok [Num_Of_Workers 2]" by (simp add: call_ok_def usize_max_def)
  have "next_power_of_two 2 = 2" by (simp add: next_power_of_two.simps)
  then have s: "length (sv_workers ?s) = 2" "sv_idx ?s = 0" "sv_pc ?s = D_Idle" "\<not> full ?s 0"
    by (simp_all add: server_init_def configure_def config_step_def set_num_of_workers_def checked_next_power_of_two_def Let_def
        usize_max_def server_with_handler_def full_def worker_new_def)
  have "\<forall>j<0. full ?s ((sv_idx ?s + j) mod length (sv_workers ?s))" "0 \<le> length (sv_workers ?s)" by simp_all
  from conjunct1 [OF server_dispatch_correct [OF ok server_reach_init s(3) this, of 7]] s
  show ?thesis by (auto simp: Let_def)
qed

section \<open>One worker\<close>

definition single_ok :: "nat \<Rightarrow> 'c single \<Rightarrow> bool" where
  "single_ok n s \<longleftrightarrow> sg_conn_count s = Some (length (sg_sessions s) + length (sg_refused s)) \<and>
     length (sg_sessions s) + length (sg_refused s) \<le> n \<and> length (sg_sessions s) \<le> sg_worker_conns s"

lemma single_drop_ok:
  assumes "single_ok n s" and "i < length (sg_sessions s)" and "n \<le> usize_max"
  shows "\<exists>s'. single_drop i s = Some s' \<and> single_ok n s' \<and> sg_worker_conns s' = sg_worker_conns s \<and> sg_refused s' = sg_refused s"
proof -
  let ?k = "length (sg_sessions s) + length (sg_refused s)"
  have "?k + usize_max = (?k - 1) + (usize_max + 1)" using assms(2) by simp
  then have "(?k + usize_max) mod (usize_max + 1) = (?k - 1) mod (usize_max + 1)" by (simp only: mod_add_self2)
  also have "\<dots> = ?k - 1" using assms by (intro mod_less) (auto simp: single_ok_def)
  finally show ?thesis using assms by (auto simp: single_drop_def single_ok_def)
qed

lemma single_accept_ok:
  assumes "single_ok n s" and "n < usize_max"
  shows "\<exists>s'. single_accept c keep s = Some s' \<and> single_ok (n + 1) s' \<and> sg_worker_conns s' = sg_worker_conns s"
proof -
  let ?k = "length (sg_sessions s) + length (sg_refused s)"
  have count: "sg_conn_count s = Some ?k" and k: "?k \<le> n" using assms(1) by (simp_all add: single_ok_def)
  have m: "(?k + 1) mod (usize_max + 1) = ?k + 1" using k assms(2) by simp
  let ?s = "s\<lparr>sg_conn_count := Some (?k + 1), sg_sessions := sg_sessions s @ [c]\<rparr>"
  show ?thesis
  proof (cases "?k < sg_worker_conns s")
    case True
    then have ok: "single_ok (n + 1) ?s" using assms(1) by (simp add: single_ok_def)
    show ?thesis
    proof (cases keep)
      case False
      have "single_accept c keep s = single_drop (length (sg_sessions s)) ?s"
        using True False count m by (simp add: single_accept_def Let_def)
      with single_drop_ok [OF ok, of "length (sg_sessions s)"] assms(2) show ?thesis by auto
    qed (use True ok count m in \<open>simp add: single_accept_def Let_def\<close>)
  next
    case False
    with count m assms(1) show ?thesis by (simp add: single_accept_def Let_def single_ok_def)
  qed
qed

lemma single_run_ok:
  assumes "single_ok n s" and "n + length steps \<le> usize_max" and "Single_End \<notin> set steps"
  shows "\<exists>s'. single_run steps s = Some s' \<and> single_ok (n + length steps) s' \<and> sg_worker_conns s' = sg_worker_conns s"
  using assms
proof (induction steps arbitrary: s n)
  case (Cons step steps)
  have "\<exists>s1. single_next step s = Some s1 \<and> single_ok (n + 1) s1 \<and> sg_worker_conns s1 = sg_worker_conns s"
  proof (cases step)
    case (Single_Accept c keep)
    with single_accept_ok [OF Cons.prems(1)] Cons.prems(2) show ?thesis by simp
  next
    case (Single_Finish i)
    have up: "single_ok n s1 \<Longrightarrow> single_ok (n + 1) s1" for s1 :: "'a single" by (simp add: single_ok_def)
    show ?thesis
    proof (cases "i < length (sg_sessions s)")
      case True
      with single_drop_ok [OF Cons.prems(1) True] Cons.prems(2) Single_Finish up show ?thesis by auto
    qed (use Cons.prems(1) Single_Finish up in simp)
  qed (use Cons.prems(3) in simp)
  then obtain s1 where s1: "single_next step s = Some s1" "single_ok (n + 1) s1" "sg_worker_conns s1 = sg_worker_conns s" by blast
  have "\<exists>s'. single_run steps s1 = Some s' \<and> single_ok (n + 1 + length steps) s' \<and> sg_worker_conns s' = sg_worker_conns s1"
    by (rule Cons.IH [OF s1(2)]) (use Cons.prems(2,3) in simp_all)
  with s1(1,3) show ?case by simp
qed simp

text \<open>
  C38. A server with one worker has at most as many sessions as configured. But its counter also counts
  every connection it refused, for ever: a new one gets a session if and only if the sessions and all those
  refused so far are fewer than configured, so that after that many refusals it serves nobody, even without
  a session. And when the task that accepts goes, by an error of \<open>accept\<close> or the end of the loop, while a
  session is left, dropping that session uses freed memory.
\<close>

theorem server_single_counts:
  assumes "length steps \<le> usize_max" and "Single_End \<notin> set steps"
  shows "\<exists>s. single_run steps (single_new cf) = Some s \<and> length (sg_sessions s) \<le> cf_worker_conns cf \<and>
    sg_conn_count s = Some (length (sg_sessions s) + length (sg_refused s)) \<and>
    (\<forall>c s'. single_accept c True s = Some s' \<longrightarrow>
      (if length (sg_sessions s) + length (sg_refused s) < cf_worker_conns cf
       then sg_sessions s' = sg_sessions s @ [c] \<and> sg_refused s' = sg_refused s
       else sg_sessions s' = sg_sessions s \<and> sg_refused s' = c # sg_refused s)) \<and>
    (sg_sessions s \<noteq> [] \<longrightarrow> single_run [Single_End, Single_Finish 0] s = None)"
proof -
  have "single_ok 0 (single_new cf :: 'a single)" by (simp add: single_ok_def single_new_def)
  from single_run_ok [OF this, of steps] assms obtain s :: "'a single" where s: "single_run steps (single_new cf) = Some s"
    "single_ok (length steps) s" "sg_worker_conns s = sg_worker_conns (single_new cf :: 'a single)" by auto
  have conns: "sg_worker_conns s = cf_worker_conns cf" using s(3) by (simp add: single_new_def)
  have count: "sg_conn_count s = Some (length (sg_sessions s) + length (sg_refused s))" "length (sg_sessions s) \<le> cf_worker_conns cf"
    using s(2) conns by (simp_all add: single_ok_def)
  have "if length (sg_sessions s) + length (sg_refused s) < cf_worker_conns cf
      then sg_sessions s' = sg_sessions s @ [c] \<and> sg_refused s' = sg_refused s
      else sg_sessions s' = sg_sessions s \<and> sg_refused s' = c # sg_refused s" if "single_accept c True s = Some s'" for c s'
    using that count(1) conns by (auto simp: single_accept_def Let_def split: if_splits)
  moreover have "single_run [Single_End, Single_Finish 0] s = None" if "sg_sessions s \<noteq> []"
    using that by (simp add: single_drop_def)
  ultimately show ?thesis using s(1) count by blast
qed

theorem server_single_counts_witness:
  "\<exists>s :: nat single. single_run [Single_Accept 7 True, Single_Accept 8 True, Single_Finish 0] (single_new (configure [Worker_Conns 1])) = Some s \<and>
     sg_conn_count s = Some (length (sg_sessions s) + length (sg_refused s))"
proof -
  have "length [Single_Accept 7 True, Single_Accept 8 True, Single_Finish 0] \<le> usize_max" by (simp add: usize_max_def)
  from server_single_counts [OF this, of "configure [Worker_Conns 1]"] show ?thesis by auto
qed

end
