(* ===== verification/Messages.thy ===== *)
theory Messages
  imports Prefix_Correct Tcp_Windows_Correct "HOL-Library.Sublist"
begin

text \<open>
  Components together: a stream of messages with a prefix of one byte (\<open>src/proto/u8_prefix.rs\<close>) over the
  receiving half of a TCP connection (\<open>src/net/tcp.rs\<close>), while the other half sends. The messages that were
  framed by the peer arrive, in order, however the kernel cuts the bytes.
\<close>

section \<open>A connection as a stream of buffers\<close>

text \<open>
  \<open>Stream::poll\<close> of the receivers. The second case does not arise for sockets whose schedule is there
  (lemma \<open>tcp_source_spec\<close>).
\<close>

definition tcp_source :: "'k kernel \<Rightarrow> (('f, 'k) tcp, io_error) source" where
  "tcp_source env t = (case poll_recv env t of Some (r, t') \<Rightarrow> (r, t') | None \<Rightarrow> (Failed CtlError, t))"

text \<open>A receiver that hands out a buffer, or is not ready, has noted its interest.\<close>

lemma poll_recv_interest:
  assumes "poll_recv env t = Some (r, t')" and "r = NotReady \<or> (\<exists>b. r = Ready (Some b))"
  shows "nio_read (tc_nio t')"
proof -
  have sched: "nio_read (tc_nio t')" if "tc_nio_then (nio_schedule_read ctl) x u = Some (r, t')" for ctl x u
    using that nio_interest(1) by (auto simp: tc_nio_then_def Let_def split: prod.splits outcome.splits)
  show ?thesis
    using assms sched not_read_ready
    by (auto simp: poll_recv_def Let_def split: option.splits bool.splits prod.splits sum.splits io_error.splits)
qed

lemma tcp_source_spec:
  assumes "tcp_ok t" and "tcp_kernel env inp outp"
  obtains r t' where "tcp_source env t = (r, t')" "poll_recv env t = Some (r, t')" "tcp_ok t'" "tc_buf t' = tc_buf t"
    "outp (tc_kernel t') = outp (tc_kernel t)"
    "case r of Ready (Some b) \<Rightarrow> bb_wf b \<and> inp (tc_kernel t) = content b @ inp (tc_kernel t')
       | Failed _ \<Rightarrow> True | _ \<Rightarrow> inp (tc_kernel t') = inp (tc_kernel t)"
    "r = NotReady \<or> (\<exists>b. r = Ready (Some b)) \<longrightarrow> nio_read (tc_nio t')"
proof -
  note goal = that
  obtain r t' where p: "poll_recv env t = Some (r, t')" "tcp_ok t'" "tc_buf t' = tc_buf t"
    "outp (tc_kernel t') = outp (tc_kernel t)"
    "case r of Ready (Some b) \<Rightarrow> bb_wf b \<and> content b \<noteq> [] \<and> inp (tc_kernel t) = content b @ inp (tc_kernel t')
       | Failed _ \<Rightarrow> True | _ \<Rightarrow> inp (tc_kernel t') = inp (tc_kernel t)"
    by (rule poll_recv_spec [OF assms])
  show thesis
    by (rule goal [of r t']) (use p poll_recv_interest [OF p(1)] in \<open>auto simp: tcp_source_def split: poll.splits option.splits\<close>)
qed

section \<open>Framed bytes\<close>

definition frame :: "u8 list \<Rightarrow> u8 list" where
  "frame m = of_nat (length m) # m"

abbreviation frames :: "u8 list list \<Rightarrow> u8 list" where
  "frames ms \<equiv> concat (map frame ms)"

lemma parse_frame: "length m < 256 \<Longrightarrow> parse_u8 (frame m @ rest) = Some (m, rest)"
  by (simp add: frame_def parse_u8_def unat_of_nat)

lemma parse_Some: "parse_u8 d = Some (m, rest) \<Longrightarrow> d = frame m @ rest \<and> length m < 256"
  using unat_lt_u8 by (auto simp: parse_u8_def frame_def min_def split: list.splits if_splits)

lemma frames_unique:
  "frames xs @ z = frames ms @ rest \<Longrightarrow> \<forall>m\<in>set xs. length m < 256 \<Longrightarrow> \<forall>m\<in>set ms. length m < 256 \<Longrightarrow>
    parse_u8 rest = None \<Longrightarrow> \<exists>ys. ms = xs @ ys \<and> z = frames ys @ rest"
proof (induction xs arbitrary: ms)
  case (Cons x xs)
  have x: "parse_u8 (frames (x # xs) @ z) = Some (x, frames xs @ z)" using parse_frame Cons.prems(2) by simp
  show ?case
  proof (cases ms)
    case Nil
    with x Cons.prems(1,4) show ?thesis by simp
  next
    case (Cons m ms')
    with parse_frame [of m "frames ms' @ rest"] x Cons.prems(1,3) have "x = m" "frames xs @ z = frames ms' @ rest" by auto
    with Cons.IH [of ms'] Cons Cons.prems(2-4) show ?thesis by auto
  qed
qed simp

section \<open>A connection that receives messages\<close>

text \<open>The owner polls the messages; the other half of the socket, and the loop, take the steps of \<open>Tcp_Stream\<close>.\<close>

datatype message_step = NextMessage | OnSocket tcp_step

definition message_step :: "'k kernel \<Rightarrow> message_step \<Rightarrow> ('f, 'k) tcp prefix \<Rightarrow>
    ((bytebuf option, io_error) poll option \<times> ('f, 'k) tcp prefix) option" where
  "message_step env s p =
     (case s of
        NextMessage \<Rightarrow> do { (r, p) \<leftarrow> u8_prefix_poll (tcp_source env) p; Some (Some r, p) }
      | OnSocket s \<Rightarrow> do { (r, t) \<leftarrow> tcp_step env s (px_stream p); Some (None, p\<lparr>px_stream := t\<rparr>) })"

fun message_run :: "'k kernel \<Rightarrow> message_step list \<Rightarrow> ('f, 'k) tcp prefix \<Rightarrow>
    ((bytebuf option, io_error) poll option list \<times> ('f, 'k) tcp prefix) option" where
  "message_run env [] p = Some ([], p)"
| "message_run env (s # ss) p = do { (r, p) \<leftarrow> message_step env s p; (rs, p) \<leftarrow> message_run env ss p; Some (r # rs, p) }"

definition step_ok :: "message_step \<Rightarrow> bool" where
  "step_ok s = (case s of NextMessage \<Rightarrow> True | OnSocket s \<Rightarrow> s \<noteq> DoRecv \<and> step_wf s)"

definition sends :: "message_step \<Rightarrow> u8 list" where
  "sends s = (case s of NextMessage \<Rightarrow> [] | OnSocket s \<Rightarrow> given s)"

definition message_of :: "(bytebuf option, io_error) poll option \<Rightarrow> u8 list list" where
  "message_of r = (case r of Some (Ready (Some b)) \<Rightarrow> [content b] | _ \<Rightarrow> [])"

definition poll_failed :: "(bytebuf option, io_error) poll option \<Rightarrow> bool" where
  "poll_failed r = (case r of Some (Failed _) \<Rightarrow> True | _ \<Rightarrow> False)"

definition messages :: "(bytebuf option, io_error) poll option list \<Rightarrow> u8 list list" where
  "messages rs = concat (map message_of rs)"

text \<open>The bytes read from the connection and not yet handed out; a stream that has ended hands out no more.\<close>

definition holds_bytes :: "('f, 'k) tcp prefix \<Rightarrow> u8 list \<Rightarrow> bool" where
  "holds_bytes p d \<longleftrightarrow> u8_prefix_inv p d \<or> px_state p = Prefix.Done \<and> parse_u8 d = None"

text \<open>
  What a poll of the messages does to the bytes in front of it: a message comes off the front, and if none
  does there is none that is complete, and the socket waits for more.
\<close>

definition polled :: "('k \<Rightarrow> u8 list) \<Rightarrow> u8 list \<times> ('f, 'k) tcp prefix \<Rightarrow> (bytebuf option, io_error) poll option \<Rightarrow>
    u8 list \<times> ('f, 'k) tcp prefix \<Rightarrow> bool" where
  "polled inp dp r dp' \<longleftrightarrow> (case (dp, dp') of ((d, p), (d', p')) \<Rightarrow>
     (\<not> poll_failed r \<longrightarrow> d @ inp (tc_kernel (px_stream p)) = frames (message_of r) @ d' @ inp (tc_kernel (px_stream p')) \<and>
        (\<forall>m\<in>set (message_of r). length m < 256)) \<and>
     (r \<in> {Some NotReady, Some (Ready None)} \<longrightarrow> parse_u8 d' = None) \<and> (r = Some NotReady \<longrightarrow> nio_read (tc_nio (px_stream p'))))"

lemma framed_tcp_spec:
  assumes t: "tcp_ok t" and env: "tcp_kernel env inp outp"
  obtains r d' t' where "framed_poll parse_u8 (tcp_source env) (d, t) = (r, d', t')" "tcp_ok t'" "tc_buf t' = tc_buf t"
    "outp (tc_kernel t') = outp (tc_kernel t)"
    "case r of Ready (Some m) \<Rightarrow> length m < 256 \<and> d @ inp (tc_kernel t) = frame m @ d' @ inp (tc_kernel t')
       | Failed _ \<Rightarrow> True | _ \<Rightarrow> d @ inp (tc_kernel t) = d' @ inp (tc_kernel t') \<and> parse_u8 d' = None"
    "r = NotReady \<longrightarrow> nio_read (tc_nio t')"
proof (cases "parse_u8 d")
  case (Some mr)
  then obtain m rest where d: "parse_u8 d = Some (m, rest)" by (cases mr) simp
  with parse_Some [OF d] t show thesis
    by (intro that [of "Ready (Some m)" rest t]) (simp_all add: framed_poll_def)
next
  case None
  obtain q t1 where q: "tcp_source env t = (q, t1)" "poll_recv env t = Some (q, t1)" "tcp_ok t1" "tc_buf t1 = tc_buf t"
    "outp (tc_kernel t1) = outp (tc_kernel t)"
    "case q of Ready (Some b) \<Rightarrow> bb_wf b \<and> inp (tc_kernel t) = content b @ inp (tc_kernel t1)
       | Failed _ \<Rightarrow> True | _ \<Rightarrow> inp (tc_kernel t1) = inp (tc_kernel t)"
    "q = NotReady \<or> (\<exists>b. q = Ready (Some b)) \<longrightarrow> nio_read (tc_nio t1)"
    by (rule tcp_source_spec [OF t env])
  consider (got) b where "q = Ready (Some b)" | (ended) "q = Ready None" | (waits) "q = NotReady" | (fails) e where "q = Failed e"
    by (cases q) (metis option.exhaust)+
  then show thesis
  proof cases
    case got
    have i: "inp (tc_kernel t) = content b @ inp (tc_kernel t1)" using q(6) got by simp
    show thesis
    proof (cases "parse_u8 (d @ content b)")
      case None': None
      with None got q i show thesis by (intro that [of NotReady "d @ content b" t1]) (simp_all add: framed_poll_def)
    next
      case (Some mr)
      then obtain m rest where m: "parse_u8 (d @ content b) = Some (m, rest)" by (cases mr) simp
      have "d @ inp (tc_kernel t) = frame m @ rest @ inp (tc_kernel t1)" "length m < 256"
        using parse_Some [OF m] i by (metis append.assoc, simp)
      with None m got q show thesis by (intro that [of "Ready (Some m)" rest t1]) (simp_all add: framed_poll_def)
    qed
  next
    case ended
    with None q show thesis by (intro that [of "Ready None" d t1]) (simp_all add: framed_poll_def)
  next
    case waits
    with None q show thesis by (intro that [of NotReady d t1]) (simp_all add: framed_poll_def)
  next
    case fails
    with None q show thesis by (intro that [of "Failed e" d t1]) (simp_all add: framed_poll_def)
  qed
qed

lemma next_message_spec:
  assumes ok: "tcp_ok (px_stream p)" "holds_bytes p d" and env: "tcp_kernel env inp outp"
  obtains r p' d' where "message_step env NextMessage p = Some (r, p')" "tcp_ok (px_stream p')" "holds_bytes p' d'"
    "outp (tc_kernel (px_stream p')) @ content (tc_buf (px_stream p')) = outp (tc_kernel (px_stream p)) @ content (tc_buf (px_stream p))"
    "polled inp (d, p) r (d', p')"
proof (cases "px_state p = Prefix.Done")
  case True
  with ok have "message_step env NextMessage p = Some (Some (Ready None), p)" "parse_u8 d = None"
    by (simp_all add: message_step_def u8_prefix_poll_def holds_bytes_def u8_prefix_inv_def)
  with ok show thesis
    by (intro that [of "Some (Ready None)" p d]) (simp_all add: polled_def message_of_def)
next
  case False
  then have inv: "u8_prefix_inv p d" using ok(2) by (simp add: holds_bytes_def)
  let ?t = "px_stream p"
  obtain r d' t' where f: "framed_poll parse_u8 (tcp_source env) (d, ?t) = (r, d', t')" "tcp_ok t'" "tc_buf t' = tc_buf ?t"
    "outp (tc_kernel t') = outp (tc_kernel ?t)"
    "case r of Ready (Some m) \<Rightarrow> length m < 256 \<and> d @ inp (tc_kernel ?t) = frame m @ d' @ inp (tc_kernel t')
       | Failed _ \<Rightarrow> True | _ \<Rightarrow> d @ inp (tc_kernel ?t) = d' @ inp (tc_kernel t') \<and> parse_u8 d' = None"
    "r = NotReady \<longrightarrow> nio_read (tc_nio t')"
    by (rule framed_tcp_spec [OF ok(1) env])
  have "sane (tcp_source env) ?t"
    by (rule tcp_source_spec [OF ok(1) env]) (auto simp: sane_def)
  from u8_poll_spec [OF inv this f(1)] obtain r0 p' where
    p': "u8_prefix_poll (tcp_source env) p = Some (r0, p')" "poll_bytes r0 = r" "px_stream p' = t'"
    "r = Ready None \<and> px_state p' = Prefix.Done \<or> r \<noteq> Ready None \<and> u8_prefix_inv p' d'"
    by blast
  have "holds_bytes p' d'" using p'(4) f(5) by (auto simp: holds_bytes_def)
  moreover have "polled inp (d, p) (Some r0) (d', p')"
    using f(5,6) p'(2,3)
    by (cases r0; cases "case r0 of Ready b \<Rightarrow> b | _ \<Rightarrow> None") (auto simp: polled_def poll_bytes_def message_of_def poll_failed_def)
  moreover have "message_step env NextMessage p = Some (Some r0, p')" using p'(1) by (simp add: message_step_def)
  ultimately show thesis using f(2-4) p'(3) by (intro that [of "Some r0" p' d']) simp_all
qed

lemma message_step_spec:
  assumes ok: "tcp_ok (px_stream p)" "holds_bytes p d" and env: "tcp_kernel env inp outp" and s: "step_ok s"
  obtains r p' d' where "message_step env s p = Some (r, p')" "tcp_ok (px_stream p')" "holds_bytes p' d'"
    "outp (tc_kernel (px_stream p')) @ content (tc_buf (px_stream p')) =
      outp (tc_kernel (px_stream p)) @ content (tc_buf (px_stream p)) @ sends s"
    "polled inp (d, p) r (d', p')"
proof (cases s)
  case NextMessage
  note goal = that
  show thesis
    by (rule next_message_spec [OF ok env]) (rule goal, use NextMessage in \<open>simp_all add: sends_def\<close>)
next
  case (OnSocket x)
  have wf: "step_wf x" "x \<noteq> DoRecv" using s OnSocket by (simp_all add: step_ok_def)
  obtain r t' where t': "tcp_step env x (px_stream p) = Some (r, t')" "tcp_ok t'" "settled r t'"
    "outp (tc_kernel t') @ content (tc_buf t') = outp (tc_kernel (px_stream p)) @ content (tc_buf (px_stream p)) @ given x"
    "\<not> recv_failed r \<longrightarrow> inp (tc_kernel (px_stream p)) = brought r @ inp (tc_kernel t')"
    by (rule tcp_step_spec [OF ok(1) env wf(1)])
  have "\<not> recv_failed r \<and> brought r = []"
    using t'(1) wf(2) by (cases x) (auto simp: tcp_step_def recv_failed_def brought_def bind_eq_Some_conv)
  then have "inp (tc_kernel (px_stream p)) = inp (tc_kernel t')" using t'(5) by simp
  moreover have "holds_bytes (p\<lparr>px_stream := t'\<rparr>) d"
    using ok(2) by (cases "px_state p") (simp_all add: holds_bytes_def u8_prefix_inv_def)
  ultimately show thesis using OnSocket t'(1,2,4)
    by (intro that [of None "p\<lparr>px_stream := t'\<rparr>" d]) (simp_all add: message_step_def sends_def polled_def message_of_def)
qed

lemma message_run_spec:
  assumes env: "tcp_kernel env inp outp"
  shows "tcp_ok (px_stream p) \<Longrightarrow> holds_bytes p d \<Longrightarrow> list_all step_ok ss \<Longrightarrow>
    \<exists>rs p' d'. message_run env ss p = Some (rs, p') \<and> tcp_ok (px_stream p') \<and> holds_bytes p' d' \<and>
      outp (tc_kernel (px_stream p')) @ content (tc_buf (px_stream p')) =
        outp (tc_kernel (px_stream p)) @ content (tc_buf (px_stream p)) @ concat (map sends ss) \<and>
      (list_all (\<lambda>r. \<not> poll_failed r) rs \<longrightarrow> (\<forall>m\<in>set (messages rs). length m < 256) \<and>
        d @ inp (tc_kernel (px_stream p)) = frames (messages rs) @ d' @ inp (tc_kernel (px_stream p'))) \<and>
      (rs \<noteq> [] \<and> last rs \<in> {Some NotReady, Some (Ready None)} \<longrightarrow> parse_u8 d' = None) \<and>
      (rs \<noteq> [] \<and> last rs = Some NotReady \<longrightarrow> nio_read (tc_nio (px_stream p')))"
proof (induction ss arbitrary: p d)
  case Nil
  then show ?case by (intro exI [of _ "[]"] exI [of _ p] exI [of _ d]) (simp add: messages_def)
next
  case (Cons s ss)
  have s: "step_ok s" "list_all step_ok ss" using Cons.prems(3) by simp_all
  obtain r p1 d1 where m: "message_step env s p = Some (r, p1)" "tcp_ok (px_stream p1)" "holds_bytes p1 d1"
    "outp (tc_kernel (px_stream p1)) @ content (tc_buf (px_stream p1)) =
      outp (tc_kernel (px_stream p)) @ content (tc_buf (px_stream p)) @ sends s"
    "polled inp (d, p) r (d1, p1)"
    by (rule message_step_spec [OF Cons.prems(1,2) env s(1)])
  obtain rs p' d' where n: "message_run env ss p1 = Some (rs, p')" "tcp_ok (px_stream p')" "holds_bytes p' d'"
    "outp (tc_kernel (px_stream p')) @ content (tc_buf (px_stream p')) =
      outp (tc_kernel (px_stream p1)) @ content (tc_buf (px_stream p1)) @ concat (map sends ss)"
    "list_all (\<lambda>r. \<not> poll_failed r) rs \<longrightarrow> (\<forall>m\<in>set (messages rs). length m < 256) \<and>
      d1 @ inp (tc_kernel (px_stream p1)) = frames (messages rs) @ d' @ inp (tc_kernel (px_stream p'))"
    "rs \<noteq> [] \<and> last rs \<in> {Some NotReady, Some (Ready None)} \<longrightarrow> parse_u8 d' = None"
    "rs \<noteq> [] \<and> last rs = Some NotReady \<longrightarrow> nio_read (tc_nio (px_stream p'))"
    using Cons.IH [OF m(2,3) s(2)] by blast
  have p: "\<not> poll_failed r \<longrightarrow> d @ inp (tc_kernel (px_stream p)) = frames (message_of r) @ d1 @ inp (tc_kernel (px_stream p1)) \<and>
      (\<forall>m\<in>set (message_of r). length m < 256)"
    "r \<in> {Some NotReady, Some (Ready None)} \<longrightarrow> parse_u8 d1 = None" "r = Some NotReady \<longrightarrow> nio_read (tc_nio (px_stream p1))"
    using m(5) by (simp_all add: polled_def)
  have e: "rs = [] \<Longrightarrow> p' = p1" using n(1) by (cases ss) (auto simp: bind_eq_Some_conv)
  show ?case
  proof (cases "rs = []")
    case False
    have "message_run env (s # ss) p = Some (r # rs, p')" using m(1) n(1) by simp
    moreover have "outp (tc_kernel (px_stream p')) @ content (tc_buf (px_stream p')) =
        outp (tc_kernel (px_stream p)) @ content (tc_buf (px_stream p)) @ concat (map sends (s # ss))"
      using m(4) n(4) by (metis append.assoc concat.simps(2) list.map(2))
    moreover have "list_all (\<lambda>r. \<not> poll_failed r) (r # rs) \<longrightarrow> (\<forall>m\<in>set (messages (r # rs)). length m < 256) \<and>
        d @ inp (tc_kernel (px_stream p)) = frames (messages (r # rs)) @ d' @ inp (tc_kernel (px_stream p'))"
      using p(1) n(5) by (auto simp: messages_def)
    ultimately show ?thesis using n(2,3,6,7) False
      by (intro exI [of _ "r # rs"] exI [of _ p'] exI [of _ d']) simp
  next
    case True
    with n(1) have "ss = []" by (cases ss) (auto simp: bind_eq_Some_conv)
    with m p show ?thesis
      by (intro exI [of _ "[r]"] exI [of _ p1] exI [of _ d1]) (simp add: messages_def)
  qed
qed

text \<open>
  C40. A peer frames messages of at most 255 bytes with their length. However the kernel cuts the bytes, and
  whatever the other half of the connection sends meanwhile, the stream of messages over the connection never
  panics, and as long as no poll fails it hands out those messages, in order. When a poll is not ready, or
  the stream has ended, and the kernel has no more bytes, it has handed out all of them; and when it is not ready
  the socket waits for more. What was given to the other half is what the kernel has taken and what is
  still buffered.
\<close>

theorem messages_over_tcp:
  assumes "tcp_kernel env inp outp" and "tcp_ok t" and "list_all step_ok ss"
    and "inp (tc_kernel t) = frames ms @ rest" and "\<forall>m\<in>set ms. length m < 256" and "parse_u8 rest = None"
  shows "\<exists>rs p'. message_run env ss (prefix_new t) = Some (rs, p') \<and> tcp_ok (px_stream p') \<and>
    (list_all (\<lambda>r. \<not> poll_failed r) rs \<longrightarrow> prefix (messages rs) ms \<and>
      (rs \<noteq> [] \<and> last rs \<in> {Some NotReady, Some (Ready None)} \<and> inp (tc_kernel (px_stream p')) = [] \<longrightarrow> messages rs = ms)) \<and>
    (rs \<noteq> [] \<and> last rs = Some NotReady \<longrightarrow> nio_read (tc_nio (px_stream p'))) \<and>
    outp (tc_kernel (px_stream p')) @ content (tc_buf (px_stream p')) =
      outp (tc_kernel t) @ content (tc_buf t) @ concat (map sends ss)"
proof -
  have new: "tcp_ok (px_stream (prefix_new t))" "holds_bytes (prefix_new t) []" "px_stream (prefix_new t) = t"
    using assms(2) fresh_data [of t] by (simp_all add: holds_bytes_def u8_prefix_inv_def prefix_new_def)
  obtain rs p' d' where r: "message_run env ss (prefix_new t) = Some (rs, p')" "tcp_ok (px_stream p')"
    "outp (tc_kernel (px_stream p')) @ content (tc_buf (px_stream p')) = outp (tc_kernel t) @ content (tc_buf t) @ concat (map sends ss)"
    "list_all (\<lambda>r. \<not> poll_failed r) rs \<longrightarrow> (\<forall>m\<in>set (messages rs). length m < 256) \<and>
      inp (tc_kernel t) = frames (messages rs) @ d' @ inp (tc_kernel (px_stream p'))"
    "rs \<noteq> [] \<and> last rs \<in> {Some NotReady, Some (Ready None)} \<longrightarrow> parse_u8 d' = None"
    "rs \<noteq> [] \<and> last rs = Some NotReady \<longrightarrow> nio_read (tc_nio (px_stream p'))"
    using message_run_spec [OF assms(1) new(1,2) assms(3)] new(3) by auto
  have "prefix (messages rs) ms \<and>
      (rs \<noteq> [] \<and> last rs \<in> {Some NotReady, Some (Ready None)} \<and> inp (tc_kernel (px_stream p')) = [] \<longrightarrow> messages rs = ms)"
    if "list_all (\<lambda>r. \<not> poll_failed r) rs"
  proof -
    have small: "\<forall>m\<in>set (messages rs). length m < 256" and b: "frames (messages rs) @ d' @ inp (tc_kernel (px_stream p')) = frames ms @ rest"
      using r(4) that assms(4) by simp_all
    obtain ys where ys: "ms = messages rs @ ys" "d' @ inp (tc_kernel (px_stream p')) = frames ys @ rest"
      using frames_unique [OF b small assms(5,6)] by blast
    have "ys = []" if "parse_u8 d' = None" "inp (tc_kernel (px_stream p')) = []"
    proof (cases ys)
      case (Cons y ys')
      then have "parse_u8 d' = Some (y, frames ys' @ rest)" using ys that(2) assms(5) parse_frame [of y] by simp
      with that(1) show ?thesis by simp
    qed simp
    with ys(1) r(5) show ?thesis by auto
  qed
  with r show ?thesis by blast
qed

theorem messages_over_tcp_witness:
  "\<exists>rs p'. message_run slow_kernel [OnSocket (DoSend (bytebuf_from [7] 1)), NextMessage, OnSocket (Wakeup True False), NextMessage,
       OnSocket (Wakeup True False), NextMessage, OnSocket DoComplete]
     (prefix_new (sample_tcp\<lparr>tc_kernel := (frame [5, 6] @ frame [], [])\<rparr>)) = Some (rs, p') \<and>
     (list_all (\<lambda>r. \<not> poll_failed r) rs \<longrightarrow> prefix (messages rs) [[5 :: u8, 6], []]) \<and>
     snd (tc_kernel (px_stream p')) @ content (tc_buf (px_stream p')) = [7]"
proof -
  let ?ss = "[OnSocket (DoSend (bytebuf_from [7] 1)), NextMessage, OnSocket (Wakeup True False), NextMessage,
       OnSocket (Wakeup True False), NextMessage, OnSocket DoComplete]"
  let ?t = "sample_tcp\<lparr>tc_kernel := (frame [5, 6] @ frame [], [])\<rparr>"
  have "tcp_ok ?t" using sample_tcp_ok by (simp add: tcp_ok_def)
  moreover have "list_all step_ok ?ss" by (simp add: step_ok_def step_wf_def bytebuf_from_wf)
  moreover have "fst (tc_kernel ?t) = frames [[5, 6], []] @ []" by simp
  moreover have "\<forall>m\<in>set [[5, 6], [] :: u8 list]. length m < 256" "parse_u8 [] = None" by (simp_all add: parse_u8_def)
  ultimately obtain rs p' where "message_run slow_kernel ?ss (prefix_new ?t) = Some (rs, p')"
    "list_all (\<lambda>r. \<not> poll_failed r) rs \<longrightarrow> prefix (messages rs) [[5, 6], []]"
    "snd (tc_kernel (px_stream p')) @ content (tc_buf (px_stream p')) = snd (tc_kernel ?t) @ content (tc_buf ?t) @ concat (map sends ?ss)"
    using messages_over_tcp [OF slow_kernel_ok, of ?t ?ss "[[5, 6], []]" "[]"] by blast
  then show ?thesis
    by (intro exI [of _ rs] exI [of _ p'])
      (simp add: sends_def given_def content_bytebuf_from sample_tcp_def bytebuf_new_def content_bytebuf_with_growth
        del: message_run.simps)
qed

section \<open>The same stream over a connection of Windows\<close>

definition win_source :: "'k win_kernel \<Rightarrow> (('f, 'k) win_tcp, io_error) source" where
  "win_source env t = (case win_poll_recv env t of Some (r, t') \<Rightarrow> (r, t') | None \<Rightarrow> (Failed CtlError, t))"

text \<open>A poll that hands out a buffer leaves no operation behind, and the loop as it was.\<close>

lemma win_ready_idle:
  assumes "win_poll_recv env t = Some (Ready b, t')"
  shows "\<not> wt_recv_pending t' \<and> wt_loop t' = wt_loop t"
  using assms
  by (auto simp: win_poll_recv_def win_recv_now_def Let_def split: if_splits option.splits bool.splits prod.splits sum.splits io_error.splits)

text \<open>
  On unix a receiver that hands out a buffer has asked for the next one. On Windows it has not, and a stream of
  messages that pulls a part of a message only says that it is not ready: no operation is pending and the loop is
  as it was, so nothing wakes the task when the rest arrives.
\<close>

lemma win_messages_stall:
  assumes "win_ok flight t" and "win_contract env inp outp flight" and "u8_prefix_inv p d" and "px_stream p = t"
    and "win_poll_recv env t = Some (Ready (Some b), t')" and "parse_u8 (d @ content b) = None"
  shows "\<exists>p'. u8_prefix_poll (win_source env) p = Some (NotReady, p') \<and> px_stream p' = t' \<and>
    \<not> wt_recv_pending t' \<and> wt_loop t' = wt_loop t"
proof -
  have b: "bb_wf b" by (rule win_poll_recv_spec [OF assms(1,2)]) (use assms(5) in \<open>simp add: win_recv_post_def\<close>)
  have src: "win_source env t = (Ready (Some b), t')" using assms(5) by (simp add: win_source_def)
  have "parse_u8 d = None"
  proof (rule ccontr)
    assume "parse_u8 d \<noteq> None"
    then obtain m rest where "parse_u8 d = Some (m, rest)" by fastforce
    with parse_Some [OF this] parse_frame [of m "rest @ content b"] assms(6) show False by simp
  qed
  with src assms(6) have "framed_poll parse_u8 (win_source env) (d, px_stream p) = (NotReady, d @ content b, t')"
    by (simp add: framed_poll_def assms(4))
  moreover have "sane (win_source env) (px_stream p)" using src b by (simp add: sane_def assms(4))
  ultimately obtain r0 p' where "u8_prefix_poll (win_source env) p = Some (r0, p')" "poll_bytes r0 = NotReady" "px_stream p' = t'"
    using u8_poll_spec [OF assms(3)] by blast
  moreover from this(2) have "r0 = NotReady" by (simp add: poll_bytes_def split: poll.splits option.splits)
  ultimately show ?thesis using win_ready_idle [OF assms(5)] by blast
qed

text \<open>The first two bytes of a message of two, read from a kernel that hands over two at a time.\<close>

lemma part_of_message:
  "\<exists>p'. u8_prefix_poll (win_source pending_kernel) (prefix_new (sample_win\<lparr>wt_kernel := ([2, 5, 6], [], None)\<rparr>)) = Some (NotReady, p') \<and>
    fst (wt_kernel (px_stream p')) = [6] \<and> \<not> wt_recv_pending (px_stream p') \<and> wt_loop (px_stream p') = wt_loop sample_win"
proof -
  let ?t = "sample_win\<lparr>wt_kernel := ([2, 5, 6], [], None)\<rparr>"
  obtain b1 b2 where p: "rb_pair recv_buffer_new = (b1, b2)" by fastforce
  then have big: "2 \<le> cap b1 + cap b2"
    by (auto simp: rb_pair_def recv_buffer_new_def block_with_capacity_def BUF_SIZE_def)
  have rd: "ws_recv pending_kernel [cap b1, cap b2] ([2, 5, 6], [], None) = (Inr [2, 5], [6], [], None)"
    using big by (simp add: pending_kernel_def min_def)
  obtain bf buf where bf: "rb_readv (ws_recv pending_kernel) recv_buffer_new ([2, 5, 6], [], None) = (Inr (Some (buf, 2)), bf, [6], [], None)"
    "content buf = [2, 5]"
    using rb_readv_bytes [where r = "ws_recv pending_kernel", OF rb_new_ok p rd] big by auto
  have poll: "win_poll_recv pending_kernel ?t = Some (Ready (Some buf), ?t\<lparr>wt_recv := bf, wt_kernel := ([6], [], None)\<rparr>)"
  proof -
    have "ws_recv pending_kernel [0] ([2, 5, 6], [], None) = (Inr [], [2, 5, 6], [], None)" by (simp add: pending_kernel_def)
    with bf(1) show ?thesis by (simp add: win_poll_recv_def sample_win_def win_recv_now_def win_rb_readv_def)
  qed
  have ok: "win_ok (\<lambda>k. snd (snd k)) ?t" using sample_win_ok by (simp add: win_ok_def sample_win_def)
  have new: "u8_prefix_inv (prefix_new ?t) []" "px_stream (prefix_new ?t) = ?t"
    using fresh_data [of ?t] by (simp_all add: u8_prefix_inv_def prefix_new_def)
  have part: "parse_u8 ([] @ content buf) = None" by (simp add: bf(2) parse_u8_def)
  from win_messages_stall [OF ok pending_kernel_contract new poll part] show ?thesis by auto
qed


end
